(* ===== verification/Aidb_Prelude.thy ===== *)
theory Aidb_Prelude
  imports Main "HOL-Library.Word" "HOL-Library.List_Lexorder"
begin

text \<open>
  Shared vocabulary of the development: the machine integers and byte strings of the Rust
  source, the little-endian codecs of \<^verbatim>\<open>to_le_bytes\<close> and \<^verbatim>\<open>from_le_bytes\<close>, the
  decimal and hexadecimal formatting of \<^verbatim>\<open>format!\<close>, the string operations the source uses
  on file names, and generic lemmas on lists.

  Byte strings (\<^verbatim>\<open>Vec<u8>\<close>, \<^verbatim>\<open>&[u8]\<close>, \<^verbatim>\<open>Bytes\<close>, \<^verbatim>\<open>BytesMut\<close>) are lists
  of 8-bit words. They are compared lexicographically with the unsigned order on bytes and a
  proper prefix comes first, which is the order \<^theory_text>\<open>List_Lexorder\<close> gives lists.
  \<^verbatim>\<open>usize\<close> lengths and indices are natural numbers; \<^verbatim>\<open>u16\<close>, \<^verbatim>\<open>u32\<close> and
  \<^verbatim>\<open>u64\<close> values are words of that width, so casts truncate and sums wrap as they do in
  the release profile.
\<close>

type_synonym u8 = "8 word"
type_synonym u16 = "16 word"
type_synonym u32 = "32 word"
type_synonym u64 = "64 word"
type_synonym bytes = "u8 list"

named_theorems codec_simps \<open>round trips and lengths of the byte codecs\<close>

section \<open>Little-endian integers\<close>

fun le_bytes :: "nat \<Rightarrow> nat \<Rightarrow> bytes" where
  "le_bytes 0 x = []"
| "le_bytes (Suc n) x = of_nat (x mod 256) # le_bytes n (x div 256)"

fun le_value :: "bytes \<Rightarrow> nat" where
  "le_value [] = 0"
| "le_value (b # bs) = unat b + 256 * le_value bs"

definition u16_le :: "u16 \<Rightarrow> bytes" where
  "u16_le w = le_bytes 2 (unat w)"

definition u32_le :: "u32 \<Rightarrow> bytes" where
  "u32_le w = le_bytes 4 (unat w)"

definition u64_le :: "u64 \<Rightarrow> bytes" where
  "u64_le w = le_bytes 8 (unat w)"

definition le_u16 :: "bytes \<Rightarrow> u16" where
  "le_u16 bs = of_nat (le_value bs)"

definition le_u32 :: "bytes \<Rightarrow> u32" where
  "le_u32 bs = of_nat (le_value bs)"

definition le_u64 :: "bytes \<Rightarrow> u64" where
  "le_u64 bs = of_nat (le_value bs)"

section \<open>Slices\<close>

text \<open>\<^verbatim>\<open>&xs[a..b]\<close> for \<open>a \<le> b \<le> len\<close>; every use below is inside the bounds.\<close>

definition slice :: "nat \<Rightarrow> nat \<Rightarrow> 'a list \<Rightarrow> 'a list" where
  "slice a b xs = take (b - a) (drop a xs)"

section \<open>Formatting and parsing\<close>

definition digit_char :: "nat \<Rightarrow> char" where
  "digit_char d = char_of (if d < 10 then 48 + d else 87 + d)"

fun fmt_base :: "nat \<Rightarrow> nat \<Rightarrow> string" where
  "fmt_base b n =
     (if b < 2 \<or> n < b then [digit_char n] else fmt_base b (n div b) @ [digit_char (n mod b)])"

declare fmt_base.simps [simp del]

definition fmt_dec :: "nat \<Rightarrow> string" where
  "fmt_dec n = fmt_base 10 n"

text \<open>\<^verbatim>\<open>{:#x}\<close>\<close>

definition fmt_hex :: "nat \<Rightarrow> string" where
  "fmt_hex n = ''0x'' @ fmt_base 16 n"

text \<open>\<^verbatim>\<open>{:06}\<close>\<close>

definition fmt_06 :: "nat \<Rightarrow> string" where
  "fmt_06 n = replicate (6 - length (fmt_dec n)) (CHR ''0'') @ fmt_dec n"

definition char_digit :: "char \<Rightarrow> nat option" where
  "char_digit c =
     (let k = of_char c :: nat in if 48 \<le> k \<and> k < 58 then Some (k - 48) else None)"

text \<open>
  The digits of \<^verbatim>\<open>str::parse::<u64>\<close>: the accumulator must stay below \<open>2 ^ 64\<close> after
  every digit.
\<close>

fun parse_digits :: "nat \<Rightarrow> string \<Rightarrow> nat option" where
  "parse_digits acc [] = Some acc"
| "parse_digits acc (c # cs) =
     (case char_digit c of
        None \<Rightarrow> None
      | Some d \<Rightarrow> if 10 * acc + d < 2 ^ 64 then parse_digits (10 * acc + d) cs else None)"

definition parse_u64 :: "string \<Rightarrow> u64 option" where
  "parse_u64 s =
     (case s of
        [] \<Rightarrow> None
      | c # cs \<Rightarrow>
          (if c = CHR ''+''
           then (if cs = [] then None else map_option of_nat (parse_digits 0 cs))
           else map_option of_nat (parse_digits 0 s)))"

definition ends_with :: "string \<Rightarrow> string \<Rightarrow> bool" where
  "ends_with suf s \<longleftrightarrow> length suf \<le> length s \<and> drop (length s - length suf) s = suf"

definition strip_suffix :: "string \<Rightarrow> string \<Rightarrow> string option" where
  "strip_suffix suf s =
     (if ends_with suf s then Some (take (length s - length suf) s) else None)"

text \<open>\<^verbatim>\<open>trim_end_matches\<close> removes the suffix as often as it occurs.\<close>

function trim_end_matches :: "string \<Rightarrow> string \<Rightarrow> string" where
  "trim_end_matches suf s =
     (if suf \<noteq> [] \<and> ends_with suf s
      then trim_end_matches suf (take (length s - length suf) s) else s)"
  by pat_completeness auto
termination
  by (relation "measure (\<lambda>(suf, s). length s)") (auto simp: ends_with_def length_greater_0_conv[symmetric]
      simp del: length_greater_0_conv)

declare trim_end_matches.simps [simp del]

section \<open>Lemmas on little-endian integers\<close>

lemma unat_lt2p: "unat (x :: 'a::len word) < 2 ^ LENGTH('a)"
  by (fact unsigned_less)

lemma length_le_bytes [simp]: "length (le_bytes n x) = n"
  by (induction n arbitrary: x) auto

lemma le_bytes_zero: "le_bytes n 0 = replicate n 0"
  by (induction n) simp_all

lemma unat_of_nat_u8: "x < 256 \<Longrightarrow> unat (of_nat x :: u8) = x"
  by (simp add: unat_of_nat)

lemma le_value_le_bytes: "le_value (le_bytes n x) = x mod 256 ^ n"
  by (induction n arbitrary: x) (simp_all add: unat_of_nat mod_mult2_eq)

lemma le_value_bound: "le_value bs < 256 ^ length bs"
proof (induction bs)
  case Nil
  then show ?case by simp
next
  case (Cons b bs)
  have "unat b < 256" using unat_lt2p[of b] by simp
  with Cons show ?case by simp
qed

lemma le_bytes_le_value: "length bs = n \<Longrightarrow> le_bytes n (le_value bs) = bs"
proof (induction bs arbitrary: n)
  case Nil
  then show ?case by simp
next
  case (Cons b bs)
  have "unat b < 256" using unat_lt2p[of b] by simp
  with Cons show ?case by auto
qed

lemma le_value_append: "le_value (xs @ ys) = le_value xs + 256 ^ length xs * le_value ys"
  by (induction xs) (simp_all add: algebra_simps)

lemma length_u_le [simp, codec_simps]:
  "length (u16_le a) = 2" "length (u32_le b) = 4" "length (u64_le c) = 8"
  by (simp_all add: u16_le_def u32_le_def u64_le_def)

lemma u_le_not_Nil [simp]: "u16_le a \<noteq> []" "u32_le b \<noteq> []" "u64_le c \<noteq> []"
  by (simp_all add: length_0_conv[symmetric] del: length_0_conv)

lemma le_u16_u16_le [simp, codec_simps]: "le_u16 (u16_le w) = w"
  using unat_lt2p[of w] by (simp add: le_u16_def u16_le_def le_value_le_bytes)

lemma le_u32_u32_le [simp, codec_simps]: "le_u32 (u32_le w) = w"
  using unat_lt2p[of w] by (simp add: le_u32_def u32_le_def le_value_le_bytes)

lemma le_u64_u64_le [simp, codec_simps]: "le_u64 (u64_le w) = w"
  using unat_lt2p[of w] by (simp add: le_u64_def u64_le_def le_value_le_bytes)

lemma unat_le_u16: "length bs = 2 \<Longrightarrow> unat (le_u16 bs) = le_value bs"
  using le_value_bound[of bs] by (simp add: le_u16_def unat_of_nat)

lemma unat_le_u32: "length bs = 4 \<Longrightarrow> unat (le_u32 bs) = le_value bs"
  using le_value_bound[of bs] by (simp add: le_u32_def unat_of_nat)

lemma unat_le_u64: "length bs = 8 \<Longrightarrow> unat (le_u64 bs) = le_value bs"
  using le_value_bound[of bs] by (simp add: le_u64_def unat_of_nat)

lemma u16_le_le_u16 [codec_simps]: "length bs = 2 \<Longrightarrow> u16_le (le_u16 bs) = bs"
  by (simp add: u16_le_def unat_le_u16 le_bytes_le_value)

lemma u32_le_le_u32 [codec_simps]: "length bs = 4 \<Longrightarrow> u32_le (le_u32 bs) = bs"
  by (simp add: u32_le_def unat_le_u32 le_bytes_le_value)

lemma u64_le_le_u64 [codec_simps]: "length bs = 8 \<Longrightarrow> u64_le (le_u64 bs) = bs"
  by (simp add: u64_le_def unat_le_u64 le_bytes_le_value)

lemma unat_of_nat_u16: "n < 65536 \<Longrightarrow> unat (of_nat n :: u16) = n"
  by (simp add: unat_of_nat)

lemma unat_of_nat_u32: "n < 2 ^ 32 \<Longrightarrow> unat (of_nat n :: u32) = n"
  by (simp add: unat_of_nat)

lemma unat_Suc_u64: "unat (seq :: u64) + 1 < 2 ^ 64 \<Longrightarrow> unat (seq + 1) = unat seq + 1"
  by (simp add: unat_word_ariths)

lemma unat_of_nat_u64: "n < 2 ^ 64 \<Longrightarrow> unat (of_nat n :: u64) = n"
  by (simp add: unat_of_nat)

section \<open>Lemmas on slices\<close>

lemma length_slice [simp]: "b \<le> length xs \<Longrightarrow> length (slice a b xs) = b - a"
  by (auto simp: slice_def)

lemma slice_append_exact [simp]:
  "a = length xs \<Longrightarrow> b = length xs + length ys \<Longrightarrow> slice a b (xs @ ys @ zs) = ys"
  by (simp add: slice_def)

lemma slice_zero: "slice 0 b xs = take b xs"
  by (simp add: slice_def)

section \<open>Lemmas on formatting and parsing\<close>

lemma char_digit_digit_char: "d < 10 \<Longrightarrow> char_digit (digit_char d) = Some d"
  by (simp add: char_digit_def digit_char_def)

lemma parse_digits_append:
  "parse_digits acc (s @ t) =
     (case parse_digits acc s of None \<Rightarrow> None | Some a \<Rightarrow> parse_digits a t)"
  by (induction acc s rule: parse_digits.induct) (auto split: option.splits)

lemma fmt_dec_not_Nil [simp]: "fmt_dec n \<noteq> []"
  by (simp add: fmt_dec_def fmt_base.simps[of 10 n])

lemma parse_digits_fmt_dec: "n < 2 ^ 64 \<Longrightarrow> parse_digits 0 (fmt_dec n) = Some n"
proof (induction n rule: less_induct)
  case (less n)
  show ?case
  proof (cases "n < 10")
    case True
    with less.prems show ?thesis
      by (simp add: fmt_dec_def fmt_base.simps[of 10 n] char_digit_digit_char)
  next
    case False
    then have "parse_digits 0 (fmt_dec (n div 10)) = Some (n div 10)"
      using less by simp
    moreover have "fmt_dec n = fmt_dec (n div 10) @ [digit_char (n mod 10)]"
      using False by (simp add: fmt_dec_def fmt_base.simps[of 10 n])
    ultimately show ?thesis
      using less.prems by (simp add: parse_digits_append char_digit_digit_char)
  qed
qed

lemma parse_digits_zeros: "parse_digits 0 (replicate k (CHR ''0'') @ s) = parse_digits 0 s"
  by (induction k) (auto simp: char_digit_def)

lemma parse_digits_fmt_06: "n < 2 ^ 64 \<Longrightarrow> parse_digits 0 (fmt_06 n) = Some n"
  by (simp add: fmt_06_def parse_digits_zeros parse_digits_fmt_dec)

lemma parse_digits_head: "parse_digits acc (c # cs) = Some n \<Longrightarrow> c \<noteq> CHR ''+''"
  by (auto simp: char_digit_def split: option.splits)

lemma parse_u64_fmt_06: "parse_u64 (fmt_06 (unat w)) = Some (w :: u64)"
proof -
  have p: "parse_digits 0 (fmt_06 (unat w)) = Some (unat w)"
    using unat_lt2p[of w] by (simp add: parse_digits_fmt_06)
  obtain c cs where c: "fmt_06 (unat w) = c # cs"
    by (cases "fmt_06 (unat w)") (auto simp: fmt_06_def)
  with p have "c \<noteq> CHR ''+''" using parse_digits_head by metis
  with p c show ?thesis by (simp add: parse_u64_def)
qed

lemma parse_digits_chars: "parse_digits acc s = Some n \<Longrightarrow> CHR ''.'' \<notin> set s"
  by (induction acc s rule: parse_digits.induct)
     (auto simp: char_digit_def split: option.splits if_splits)

lemma ends_with_append [simp]: "ends_with suf (s @ suf)"
  by (simp add: ends_with_def)

lemma strip_suffix_append [simp]: "strip_suffix suf (s @ suf) = Some s"
  by (simp add: strip_suffix_def)

lemma ends_with_set: "ends_with suf s \<Longrightarrow> set suf \<subseteq> set s"
  by (metis ends_with_def set_drop_subset)

section \<open>Lemmas on lists\<close>

lemma sorted_wrt_less_distinct: "sorted_wrt (<) (xs :: 'a::linorder list) \<Longrightarrow> distinct xs"
  by (simp add: strict_sorted_iff)

lemma map_of_append_Some: "map_of xs k = Some v \<Longrightarrow> map_of (xs @ ys) k = Some v"
  by (simp add: map_add_def map_of_append)

end
