(* ===== verification/Errors.thy ===== *)
theory Errors
  imports Aidb_Prelude
begin

text \<open>
  \<^verbatim>\<open>src/src/error.rs\<close>: the error type of the engine and its \<^verbatim>\<open>Display\<close> text, and the
  outcome of a Rust call. A call returns \<^verbatim>\<open>Ok(v)\<close>, returns \<^verbatim>\<open>Err(e)\<close>, or panics
  (a failed \<^verbatim>\<open>assert!\<close>, an index out of range, \<^verbatim>\<open>unwrap\<close> on \<^verbatim>\<open>None\<close>, a
  remainder by zero). The two combinators are the \<^verbatim>\<open>?\<close> operator, without and with state: on
  an error the state reached so far is kept, as it is in the source.
\<close>

section \<open>The error type\<close>

datatype io_kind = KUnexpectedEof | KNotFound | KOther

datatype io_error = IoError (io_kind_of: io_kind) (io_message: string)

datatype error =
    Io io_error
  | Corruption string
  | NotFound string
  | InvalidArgument string
  | NotImplemented string
  | InvalidState string
  | Serialization string
  | ChecksumMismatch u32 u32
  | AlreadyExists string
  | Internal string

fun Error_display :: "error \<Rightarrow> string" where
  "Error_display (Io e) = ''IO error: '' @ io_message e"
| "Error_display (Corruption msg) = ''Data corruption: '' @ msg"
| "Error_display (NotFound msg) = ''Not found: '' @ msg"
| "Error_display (InvalidArgument msg) = ''Invalid argument: '' @ msg"
| "Error_display (NotImplemented msg) = ''Not implemented: '' @ msg"
| "Error_display (InvalidState msg) = ''Invalid state: '' @ msg"
| "Error_display (Serialization msg) = ''Serialization error: '' @ msg"
| "Error_display (ChecksumMismatch expected actual) =
     ''Checksum mismatch: expected '' @ fmt_hex (unat expected) @ '', got '' @ fmt_hex (unat actual)"
| "Error_display (AlreadyExists msg) = ''Already exists: '' @ msg"
| "Error_display (Internal msg) = ''Internal error: '' @ msg"

fun Error_source :: "error \<Rightarrow> io_error option" where
  "Error_source (Io e) = Some e"
| "Error_source _ = None"

text \<open>What \<^verbatim>\<open>read_exact\<close> returns when the file ends before the buffer is full.\<close>

definition eof_error :: error where
  "eof_error = Io (IoError KUnexpectedEof ''failed to fill whole buffer'')"

section \<open>Outcomes of calls\<close>

datatype 'a res = Ok 'a | Err error | Panic

definition bind_res :: "'a res \<Rightarrow> ('a \<Rightarrow> 'b res) \<Rightarrow> 'b res" where
  "bind_res r f = (case r of Ok x \<Rightarrow> f x | Err e \<Rightarrow> Err e | Panic \<Rightarrow> Panic)"

definition bind_st :: "'a res \<times> 's \<Rightarrow> ('a \<Rightarrow> 's \<Rightarrow> 'b res \<times> 't) \<Rightarrow> ('s \<Rightarrow> 't) \<Rightarrow> 'b res \<times> 't" where
  "bind_st r f k =
     (case r of (Ok x, s) \<Rightarrow> f x s | (Err e, s) \<Rightarrow> (Err e, k s) | (Panic, s) \<Rightarrow> (Panic, k s))"

abbreviation try_st :: "'a res \<times> 's \<Rightarrow> ('a \<Rightarrow> 's \<Rightarrow> 'b res \<times> 's) \<Rightarrow> 'b res \<times> 's" where
  "try_st r f \<equiv> bind_st r f (\<lambda>s. s)"

text \<open>A loop over a list in which every step may fail.\<close>

fun fold_res :: "('a \<Rightarrow> 's \<Rightarrow> 's res) \<Rightarrow> 'a list \<Rightarrow> 's \<Rightarrow> 's res" where
  "fold_res f [] s = Ok s"
| "fold_res f (x # xs) s = bind_res (f x s) (fold_res f xs)"

section \<open>Lemmas\<close>

lemma bind_res_simps [simp]:
  "bind_res (Ok x) f = f x" "bind_res (Err e) f = Err e" "bind_res Panic f = Panic"
  by (simp_all add: bind_res_def)

lemma bind_st_simps [simp]:
  "bind_st (Ok x, s) g k = g x s" "bind_st (Err e, s) g k = (Err e, k s)"
  "bind_st (Panic, s) g k = (Panic, k s)"
  by (simp_all add: bind_st_def)

lemma bind_res_eq_Ok [simp]:
  "bind_res r f = Ok y \<longleftrightarrow> (\<exists>x. r = Ok x \<and> f x = Ok y)"
  by (cases r) auto

lemma bind_res_cong [fundef_cong]:
  "r = r' \<Longrightarrow> (\<And>x. r' = Ok x \<Longrightarrow> f x = f' x) \<Longrightarrow> bind_res r f = bind_res r' f'"
  by (cases r') auto

lemma fold_res_append:
  "fold_res f (xs @ ys) s = bind_res (fold_res f xs s) (fold_res f ys)"
  by (induction xs arbitrary: s) (auto simp: bind_res_def split: res.splits)

lemma fold_res_invariant:
  assumes "\<And>x s s'. x \<in> set xs \<Longrightarrow> P s \<Longrightarrow> f x s = Ok s' \<Longrightarrow> P s'"
    and "P s" and "fold_res f xs s = Ok s'"
  shows "P s'"
  using assms by (induction xs arbitrary: s) auto

end
