(* ===== verification/SST_Block.thy ===== *)
theory SST_Block
  imports Errors "HOL-Library.Sublist"
begin

text \<open>
  \<^verbatim>\<open>src/src/sstable/block.rs\<close>: blocks of key-value entries with prefix compression and restart
  points, the builder, and the iterator. The main lemma is that iterating over a block that was
  built from strictly ascending entries yields exactly these entries (\<open>yields\<close> is the list of
  entries an iterator still returns, the form in which the clients use it).
\<close>

type_synonym kv = "bytes \<times> bytes"

section \<open>Blocks\<close>

record Block =
  blk_data :: bytes
  blk_restart_offset :: nat
  blk_num_restarts :: u32

text \<open>
  An underflow of the subtraction wraps to a value above the length of the data, which is then
  reported.
\<close>

definition Block_new :: "bytes \<Rightarrow> Block res" where
  "Block_new data =
     (if length data < 4 then Err (Corruption ''Block too small'')
      else
        let num_restarts = le_u32 (drop (length data - 4) data) in
        if length data - 4 < unat num_restarts * 4 then Err (Corruption ''Invalid restart offset'')
        else Ok \<lparr>blk_data = data, blk_restart_offset = length data - 4 - unat num_restarts * 4,
                 blk_num_restarts = num_restarts\<rparr>)"

definition get_restart_point :: "Block \<Rightarrow> nat \<Rightarrow> u32" where
  "get_restart_point b index =
     (let offset = blk_restart_offset b + index * 4 in le_u32 (slice offset (offset + 4) (blk_data b)))"

section \<open>The builder\<close>

record BlockBuilder =
  bb_buffer :: bytes
  bb_restarts :: "u32 list"
  bb_counter :: nat
  bb_last_key :: bytes
  bb_interval :: nat

definition BlockBuilder_new :: "nat \<Rightarrow> BlockBuilder" where
  "BlockBuilder_new block_restart_interval =
     \<lparr>bb_buffer = [], bb_restarts = [0], bb_counter = 0, bb_last_key = [],
      bb_interval = block_restart_interval\<rparr>"

fun shared_prefix_len :: "bytes \<Rightarrow> bytes \<Rightarrow> nat" where
  "shared_prefix_len (a # as) (b # bs) = (if a \<noteq> b then 0 else Suc (shared_prefix_len as bs))"
| "shared_prefix_len _ _ = 0"

definition block_entry_bytes :: "nat \<Rightarrow> bytes \<Rightarrow> bytes \<Rightarrow> bytes" where
  "block_entry_bytes shared key v =
     u32_le (of_nat shared) @ u32_le (of_nat (length key - shared)) @ u32_le (of_nat (length v)) @
     drop shared key @ v"

definition BlockBuilder_add :: "bytes \<Rightarrow> bytes \<Rightarrow> BlockBuilder \<Rightarrow> BlockBuilder res" where
  "BlockBuilder_add key v b0 =
     (if key = [] then Panic
      else if bb_last_key b0 \<noteq> [] \<and> \<not> bb_last_key b0 < key then Panic
      else
        let (shared, b) =
          (if bb_interval b0 \<le> bb_counter b0
           then (0, b0\<lparr>bb_restarts := bb_restarts b0 @ [of_nat (length (bb_buffer b0))],
                       bb_counter := 0, bb_last_key := []\<rparr>)
           else if bb_last_key b0 \<noteq> [] then (shared_prefix_len (bb_last_key b0) key, b0)
           else (0, b0))
        in Ok (b\<lparr>bb_buffer := bb_buffer b @ block_entry_bytes shared key v,
                 bb_last_key := key, bb_counter := bb_counter b + 1\<rparr>))"

definition BlockBuilder_finish :: "BlockBuilder \<Rightarrow> bytes" where
  "BlockBuilder_finish b =
     bb_buffer b @ concat (map u32_le (bb_restarts b)) @ u32_le (of_nat (length (bb_restarts b)))"

definition BlockBuilder_current_size :: "BlockBuilder \<Rightarrow> nat" where
  "BlockBuilder_current_size b = length (bb_buffer b) + length (bb_restarts b) * 4 + 4"

definition BlockBuilder_is_empty :: "BlockBuilder \<Rightarrow> bool" where
  "BlockBuilder_is_empty b \<longleftrightarrow> bb_buffer b = []"

section \<open>The iterator\<close>

record BlockIterator =
  it_block :: Block
  it_current :: nat
  it_restart_index :: u32
  it_key :: bytes
  it_value :: bytes
  it_valid :: bool

definition Block_iter :: "Block \<Rightarrow> BlockIterator" where
  "Block_iter b =
     \<lparr>it_block = b, it_current = 0, it_restart_index = 0, it_key = [], it_value = [], it_valid = False\<rparr>"

definition seek_to_restart_point :: "u32 \<Rightarrow> BlockIterator \<Rightarrow> BlockIterator" where
  "seek_to_restart_point index it =
     (let current = unat (get_restart_point (it_block it) (unat index)) in
      it\<lparr>it_key := [], it_restart_index := index, it_current := current,
         it_valid := (current < blk_restart_offset (it_block it))\<rparr>)"

definition BlockIterator_seek_to_first :: "BlockIterator \<Rightarrow> BlockIterator" where
  "BlockIterator_seek_to_first it = seek_to_restart_point 0 it"

definition parse_next_entry :: "BlockIterator \<Rightarrow> BlockIterator" where
  "parse_next_entry it =
     (if blk_restart_offset (it_block it) \<le> it_current it then it\<lparr>it_valid := False\<rparr>
      else
        let data = drop (it_current it) (blk_data (it_block it)) in
        if length data < 12 then it\<lparr>it_valid := False\<rparr>
        else
          let shared = unat (le_u32 (slice 0 4 data));
              unshared = unat (le_u32 (slice 4 8 data));
              value_len = unat (le_u32 (slice 8 12 data))
          in if length data < 12 + unshared + value_len then it\<lparr>it_valid := False\<rparr>
             else it\<lparr>it_key := take shared (it_key it) @ slice 12 (12 + unshared) data,
                     it_value := slice (12 + unshared) (12 + unshared + value_len) data,
                     it_current := it_current it + 12 + unshared + value_len,
                     it_valid := True\<rparr>)"

definition BlockIterator_advance :: "BlockIterator \<Rightarrow> bool \<times> BlockIterator" where
  "BlockIterator_advance it =
     (if \<not> it_valid it then (False, it)
      else let it' = parse_next_entry it in (it_valid it', it'))"

definition BlockIterator_key :: "BlockIterator \<Rightarrow> bytes res" where
  "BlockIterator_key it = (if it_valid it then Ok (it_key it) else Panic)"

definition BlockIterator_value :: "BlockIterator \<Rightarrow> bytes res" where
  "BlockIterator_value it = (if it_valid it then Ok (it_value it) else Panic)"

text \<open>Every advance that returns true moves towards the restart points.\<close>

lemma advance_progress:
  assumes "BlockIterator_advance it = (True, it')"
  shows "it_block it' = it_block it \<and> it_valid it \<and> it_valid it' \<and> it_current it < it_current it' \<and>
    it_current it < blk_restart_offset (it_block it)"
  using assms
  by (auto simp: BlockIterator_advance_def parse_next_entry_def Let_def split: if_splits)

text \<open>A \<^verbatim>\<open>while iter.advance()\<close> loop that visits every entry.\<close>

function BlockIterator_collect :: "BlockIterator \<Rightarrow> kv list" where
  "BlockIterator_collect it =
     (case BlockIterator_advance it of
        (False, _) \<Rightarrow> []
      | (True, it') \<Rightarrow> (it_key it', it_value it') # BlockIterator_collect it')"
  by pat_completeness auto
termination
  by (relation "measure (\<lambda>it. blk_restart_offset (it_block it) - it_current it)")
     (auto dest!: advance_progress[OF sym])

declare BlockIterator_collect.simps [simp del]

section \<open>What an iterator yields\<close>

fun yields :: "BlockIterator \<Rightarrow> kv list \<Rightarrow> bool" where
  "yields it [] \<longleftrightarrow> \<not> fst (BlockIterator_advance it) \<and> \<not> it_valid (snd (BlockIterator_advance it))"
| "yields it (e # es) \<longleftrightarrow> fst (BlockIterator_advance it) \<and>
     it_key (snd (BlockIterator_advance it)) = fst e \<and> it_value (snd (BlockIterator_advance it)) = snd e \<and>
     yields (snd (BlockIterator_advance it)) es"

lemma yields_ConsE:
  assumes "yields it (e # es)"
  obtains it' where "BlockIterator_advance it = (True, it')" "it_valid it'" "it_key it' = fst e"
    "it_value it' = snd e" "yields it' es" "BlockIterator_key it' = Ok (fst e)"
    "BlockIterator_value it' = Ok (snd e)"
proof -
  obtain it' where it': "BlockIterator_advance it = (True, it')"
    using assms by (metis prod.collapse yields.simps(2))
  with assms advance_progress[OF it'] that show ?thesis
    by (simp add: BlockIterator_key_def BlockIterator_value_def)
qed

lemma yields_NilE:
  assumes "yields it []"
  obtains it' where "BlockIterator_advance it = (False, it')" "\<not> it_valid it'"
  using assms by (metis prod.collapse yields.simps(1))

lemma yields_collect: "yields it es \<Longrightarrow> BlockIterator_collect it = es"
proof (induction es arbitrary: it)
  case Nil
  then show ?case
    by (elim yields_NilE) (simp add: BlockIterator_collect.simps[of it])
next
  case (Cons e es)
  then show ?case
    by (elim yields_ConsE) (simp add: BlockIterator_collect.simps[of it])
qed

section \<open>Encoded entries\<close>

text \<open>\<open>encodes p buf es\<close>: read with the previous key \<open>p\<close>, the buffer holds the entries \<open>es\<close>.\<close>

fun encodes :: "bytes \<Rightarrow> bytes \<Rightarrow> kv list \<Rightarrow> bool" where
  "encodes p buf [] \<longleftrightarrow> buf = []"
| "encodes p buf ((k, v) # es) \<longleftrightarrow>
     (\<exists>s rest. s \<le> length p \<and> s \<le> length k \<and> take s p = take s k \<and>
        buf = block_entry_bytes s k v @ rest \<and> encodes k rest es)"

definition entries_fit :: "kv list \<Rightarrow> bool" where
  "entries_fit es \<longleftrightarrow> (\<forall>(k, v) \<in> set es. length k < 2 ^ 32 \<and> length v < 2 ^ 32)"

lemma encodes_snoc:
  assumes "encodes p buf es" and "s \<le> length (fst (last ((p, []) # es)))" and "s \<le> length k"
    and "take s (fst (last ((p, []) # es))) = take s k"
  shows "encodes p (buf @ block_entry_bytes s k v) (es @ [(k, v)])"
  using assms
proof (induction es arbitrary: p buf)
  case Nil
  then show ?case by (auto intro!: exI[of _ s])
next
  case (Cons e es)
  obtain k' v' where e: "e = (k', v')" by (cases e)
  obtain s' rest where s': "s' \<le> length p" "s' \<le> length k'" "take s' p = take s' k'"
    "buf = block_entry_bytes s' k' v' @ rest" "encodes k' rest es"
    using Cons.prems(1) by (auto simp: e)
  have "encodes k' (rest @ block_entry_bytes s k v) (es @ [(k, v)])"
    using Cons.IH[OF s'(5)] Cons.prems(2-4) by (cases es) (auto simp: e)
  then show ?case using s' by (auto simp: e intro!: exI[of _ s'])
qed

lemma length_block_entry_bytes [simp]:
  "length (block_entry_bytes s k v) = 12 + (length k - s) + length v"
  by (simp add: block_entry_bytes_def)

lemma block_entry_parts:
  fixes rest :: bytes
  assumes "s \<le> length k" and "length k < 2 ^ 32" and "length v < 2 ^ 32"
  defines "d \<equiv> block_entry_bytes s k v @ rest"
  shows "unat (le_u32 (slice 0 4 d)) = s" "unat (le_u32 (slice 4 8 d)) = length k - s"
    "unat (le_u32 (slice 8 12 d)) = length v" "slice 12 (12 + (length k - s)) d = drop s k"
    "slice (12 + (length k - s)) (12 + (length k - s) + length v) d = v"
proof -
  have "slice 0 4 d = u32_le (of_nat s)" "slice 4 8 d = u32_le (of_nat (length k - s))"
    "slice 8 12 d = u32_le (of_nat (length v))"
    by (simp_all add: d_def block_entry_bytes_def slice_def)
  then show "unat (le_u32 (slice 0 4 d)) = s" "unat (le_u32 (slice 4 8 d)) = length k - s"
    "unat (le_u32 (slice 8 12 d)) = length v"
    using assms(1-3) by (simp_all add: unat_of_nat_u32 del: of_nat_diff)
  show "slice 12 (12 + (length k - s)) d = drop s k"
    "slice (12 + (length k - s)) (12 + (length k - s) + length v) d = v"
    by (simp_all add: d_def block_entry_bytes_def slice_def)
qed

lemma yields_encoded:
  assumes "encodes (it_key it) buf es" and "entries_fit es" and "it_valid it"
    and "blk_data (it_block it) = pre @ buf @ suf" and "it_current it = length pre"
    and "blk_restart_offset (it_block it) = length pre + length buf"
  shows "yields it es"
  using assms
proof (induction es arbitrary: it pre buf)
  case Nil
  then show ?case by (simp add: BlockIterator_advance_def parse_next_entry_def Let_def)
next
  case (Cons e es)
  obtain k v where e: "e = (k, v)" by (cases e)
  obtain s rest where s: "s \<le> length (it_key it)" "s \<le> length k" "take s (it_key it) = take s k"
    "buf = block_entry_bytes s k v @ rest" "encodes k rest es"
    using Cons.prems(1) by (auto simp: e)
  have fit: "length k < 2 ^ 32" "length v < 2 ^ 32" "entries_fit es"
    using Cons.prems(2) by (auto simp: entries_fit_def e)
  define d where "d = block_entry_bytes s k v @ rest @ suf"
  have d: "drop (it_current it) (blk_data (it_block it)) = d"
    using Cons.prems(4,5) s(4) by (simp add: d_def)
  define it' where "it' = it\<lparr>it_key := k, it_value := v,
    it_current := it_current it + 12 + (length k - s) + length v, it_valid := True\<rparr>"
  have more: "\<not> blk_restart_offset (it_block it) \<le> it_current it"
    using Cons.prems(5,6) s(4) by simp
  have long: "\<not> length d < 12 + (length k - s) + length v" "\<not> length d < 12"
    by (simp_all add: d_def)
  have key: "take s (it_key it) @ drop s k = k" using s(3) by simp
  have "parse_next_entry it = it'"
    using more long unfolding parse_next_entry_def d Let_def
    by (simp only: block_entry_parts[OF s(2) fit(1,2), where rest = "rest @ suf", folded d_def] if_False)
       (simp add: it'_def key)
  then have adv: "BlockIterator_advance it = (True, it')"
    using Cons.prems(3) by (simp add: BlockIterator_advance_def it'_def)
  have "yields it' es"
  proof (rule Cons.IH[of it' rest "pre @ block_entry_bytes s k v"])
    show "it_current it' = length (pre @ block_entry_bytes s k v)"
      using Cons.prems(5) by (simp add: it'_def)
  qed (use Cons.prems s(4,5) fit(3) in \<open>simp_all add: it'_def\<close>)
  then show ?case using adv by (simp add: e it'_def)
qed

section \<open>Blocks that were built\<close>

text \<open>
  \<open>block_rep b es\<close>: the builder \<open>b\<close> holds the entries \<open>es\<close>. The second part counts restart points
  for the index block, which has one per entry.
\<close>

definition block_rep :: "BlockBuilder \<Rightarrow> kv list \<Rightarrow> bool" where
  "block_rep b es \<longleftrightarrow>
     encodes [] (bb_buffer b) es \<and> bb_last_key b = fst (last (([], []) # es)) \<and>
     bb_restarts b \<noteq> [] \<and> hd (bb_restarts b) = 0 \<and> length (bb_restarts b) \<le> length es + 1 \<and>
     (bb_interval b = 1 \<longrightarrow> bb_counter b = min 1 (length es) \<and> length (bb_restarts b) = max 1 (length es))"

definition kv_sorted :: "kv list \<Rightarrow> bool" where
  "kv_sorted es \<longleftrightarrow> sorted_wrt (<) (map fst es) \<and> [] \<notin> fst ` set es"

lemma block_rep_new: "block_rep (BlockBuilder_new n) []"
  by (simp add: block_rep_def BlockBuilder_new_def)

lemma shared_prefix_len_le:
  "shared_prefix_len a b \<le> length a" "shared_prefix_len a b \<le> length b"
  "take (shared_prefix_len a b) a = take (shared_prefix_len a b) b"
  by (induction a b rule: shared_prefix_len.induct) auto

lemma kv_sorted_snoc:
  assumes "kv_sorted (es @ [(k, v)])"
  shows "kv_sorted es" "k \<noteq> []" "es \<noteq> [] \<Longrightarrow> fst (last es) < k"
  using assms by (auto simp: kv_sorted_def sorted_wrt_append)

lemma block_rep_add:
  assumes rep: "block_rep b es" and sorted: "kv_sorted (es @ [(k, v)])"
  obtains b' where "BlockBuilder_add k v b = Ok b'" "block_rep b' (es @ [(k, v)])"
    "bb_interval b' = bb_interval b"
    "bb_buffer b' \<noteq> []" "length (bb_buffer b') \<le> length (bb_buffer b) + 12 + length k + length v"
proof -
  note srt = kv_sorted_snoc[OF sorted]
  have last: "bb_last_key b = fst (last (([], []) # es))" using rep by (simp add: block_rep_def)
  have order: "\<not> (bb_last_key b \<noteq> [] \<and> \<not> bb_last_key b < k)"
    using last srt(3) by (cases "es = []") auto
  define restart where "restart = (bb_interval b \<le> bb_counter b)"
  define s where "s = (if restart then 0 else if bb_last_key b \<noteq> [] then shared_prefix_len (bb_last_key b) k else 0)"
  define b' where "b' = b\<lparr>bb_restarts := bb_restarts b @ (if restart then [of_nat (length (bb_buffer b))] else []),
    bb_counter := (if restart then 0 else bb_counter b) + 1, bb_last_key := k,
    bb_buffer := bb_buffer b @ block_entry_bytes s k v\<rparr>"
  have add: "BlockBuilder_add k v b = Ok b'"
    using order srt(2) by (simp add: BlockBuilder_add_def b'_def restart_def s_def)
  have s: "s \<le> length (bb_last_key b)" "s \<le> length k" "take s (bb_last_key b) = take s k"
    by (simp_all add: s_def shared_prefix_len_le)
  have "encodes [] (bb_buffer b') (es @ [(k, v)])"
    using encodes_snoc[of "[]" "bb_buffer b" es s k v] rep s by (simp add: b'_def block_rep_def)
  moreover have "bb_interval b = 1 \<Longrightarrow> restart \<longleftrightarrow> es \<noteq> []"
    using rep by (cases es) (auto simp: block_rep_def restart_def)
  ultimately have "block_rep b' (es @ [(k, v)])"
    using rep by (cases es) (auto simp: b'_def block_rep_def)
  then show ?thesis using add that[of b'] by (simp add: b'_def block_entry_bytes_def)
qed

text \<open>A finished block is read back with the entries that were added.\<close>

lemma length_concat_u32: "length (concat (map u32_le rs)) = 4 * length rs"
  by (induction rs) simp_all

lemma Block_new_finish:
  assumes "block_rep b es" and "length es + 1 < 2 ^ 32"
  shows "Block_new (BlockBuilder_finish b) =
    Ok \<lparr>blk_data = BlockBuilder_finish b, blk_restart_offset = length (bb_buffer b),
       blk_num_restarts = of_nat (length (bb_restarts b))\<rparr>"
proof -
  have n: "unat (of_nat (length (bb_restarts b)) :: u32) = length (bb_restarts b)"
    using assms by (intro unat_of_nat_u32) (auto simp: block_rep_def)
  have len: "length (BlockBuilder_finish b) = length (bb_buffer b) + 4 * length (bb_restarts b) + 4"
    by (simp add: BlockBuilder_finish_def length_concat_u32)
  have "drop (length (BlockBuilder_finish b) - 4) (BlockBuilder_finish b) = u32_le (of_nat (length (bb_restarts b)))"
    unfolding len by (simp add: BlockBuilder_finish_def length_concat_u32)
  then show ?thesis using n len by (simp add: Block_new_def Let_def)
qed

lemma first_restart_point:
  assumes "block_rep b es" and "Block_new (BlockBuilder_finish b) = Ok blk" and "length es + 1 < 2 ^ 32"
  shows "get_restart_point blk 0 = 0"
proof -
  obtain rs where rs: "bb_restarts b = 0 # rs"
    using assms(1) by (cases "bb_restarts b") (auto simp: block_rep_def)
  have "blk_data blk = BlockBuilder_finish b" "blk_restart_offset blk = length (bb_buffer b)"
    using Block_new_finish[OF assms(1,3)] assms(2) by auto
  then show ?thesis
    by (simp add: get_restart_point_def Let_def BlockBuilder_finish_def rs slice_def)
qed

lemma built_block_yields:
  assumes rep: "block_rep b es" and fit: "entries_fit es" and n: "length es + 1 < 2 ^ 32"
  obtains blk where "Block_new (BlockBuilder_finish b) = Ok blk"
    "yields (BlockIterator_seek_to_first (Block_iter blk)) es"
    "it_key (BlockIterator_seek_to_first (Block_iter blk)) = []"
    "it_valid (BlockIterator_seek_to_first (Block_iter blk)) \<longleftrightarrow> es \<noteq> []"
    "unat (blk_num_restarts blk) = length (bb_restarts b)"
proof -
  let ?blk = "\<lparr>blk_data = BlockBuilder_finish b, blk_restart_offset = length (bb_buffer b),
       blk_num_restarts = of_nat (length (bb_restarts b))\<rparr>"
  have blk: "Block_new (BlockBuilder_finish b) = Ok ?blk" by (rule Block_new_finish[OF rep n])
  let ?it = "BlockIterator_seek_to_first (Block_iter ?blk)"
  have it: "it_block ?it = ?blk" "it_current ?it = 0" "it_key ?it = []"
    "it_valid ?it \<longleftrightarrow> bb_buffer b \<noteq> []"
    using first_restart_point[OF rep blk n]
    by (simp_all add: BlockIterator_seek_to_first_def seek_to_restart_point_def Block_iter_def Let_def)
  have enc: "encodes [] (bb_buffer b) es" using rep by (simp add: block_rep_def)
  have empty: "bb_buffer b = [] \<longleftrightarrow> es = []"
    using enc by (cases es) (auto simp: block_entry_bytes_def)
  have "yields ?it es"
  proof (cases "es = []")
    case True
    then show ?thesis using it empty by (simp add: BlockIterator_advance_def)
  next
    case False
    then show ?thesis
      by (intro yields_encoded[of ?it "bb_buffer b" es "[]"])
         (use it enc fit empty in \<open>simp_all add: BlockBuilder_finish_def\<close>)
  qed
  moreover have "unat (of_nat (length (bb_restarts b)) :: u32) = length (bb_restarts b)"
    using rep n by (intro unat_of_nat_u32) (auto simp: block_rep_def)
  ultimately show ?thesis using that[OF blk] it empty by simp
qed

lemma block_add_all:
  assumes "block_rep b es" and "kv_sorted (es @ xs)"
  shows "\<exists>b'. fold_res (\<lambda>(k, v). BlockBuilder_add k v) xs b = Ok b' \<and> block_rep b' (es @ xs)"
  using assms
proof (induction xs arbitrary: b es)
  case Nil
  then show ?case by simp
next
  case (Cons x xs)
  obtain k v where x: "x = (k, v)" by (cases x)
  have "kv_sorted (es @ [(k, v)])"
    using Cons.prems(2) by (auto simp: kv_sorted_def x sorted_wrt_append)
  then obtain b1 where "BlockBuilder_add k v b = Ok b1" "block_rep b1 (es @ [(k, v)])"
    using block_rep_add[OF Cons.prems(1)] by blast
  then show ?case using Cons.IH[of b1 "es @ [(k, v)]"] Cons.prems(2) by (simp add: x)
qed

section \<open>Properties\<close>

text \<open>
  C29. Prefix compression is lossless: a block built from strictly ascending, non-empty keys (with
  any restart interval, sizes within the 32-bit fields) opens, and iterating over it from the
  first restart point returns exactly the added entries.
\<close>

theorem Block_roundtrip:
  assumes "kv_sorted es" and "entries_fit es" and "length es + 1 < 2 ^ 32"
  shows "\<exists>b blk. fold_res (\<lambda>(k, v). BlockBuilder_add k v) es (BlockBuilder_new interval) = Ok b \<and>
    Block_new (BlockBuilder_finish b) = Ok blk \<and>
    BlockIterator_collect (BlockIterator_seek_to_first (Block_iter blk)) = es"
proof -
  obtain b where b: "fold_res (\<lambda>(k, v). BlockBuilder_add k v) es (BlockBuilder_new interval) = Ok b"
    "block_rep b es"
    using block_add_all[OF block_rep_new, of es] assms(1) by auto
  show ?thesis
    by (rule built_block_yields[OF b(2) assms(2,3)]) (use b(1) yields_collect in blast)
qed

theorem Block_roundtrip_witness:
  "\<exists>b blk. fold_res (\<lambda>(k, v). BlockBuilder_add k v) [([1, 2], [9]), ([1, 2, 3], [])] (BlockBuilder_new 16) = Ok b \<and>
     Block_new (BlockBuilder_finish b) = Ok blk \<and>
     BlockIterator_collect (BlockIterator_seek_to_first (Block_iter blk)) = [([1, 2], [9]), ([1, 2, 3], [])]"
  by (rule Block_roundtrip) (simp_all add: kv_sorted_def entries_fit_def)

end
