(* ===== verification/Buf_Writer.thy ===== *)
theory Buf_Writer
  imports Errors "HOL-Library.Sublist"
begin

text \<open>
  The standard library's \<^verbatim>\<open>File\<close> and \<^verbatim>\<open>BufWriter\<close> as the source uses them for
  writing. A file has the bytes the operating system has accepted, the bytes known to be on
  disk after the last \<^verbatim>\<open>sync_all\<close>, and a schedule of failures: each system call takes the
  next element, \<open>None\<close> for success or \<open>Some (n, e)\<close> for an error \<open>e\<close> after \<open>n\<close> bytes
  (an exhausted schedule means success). A \<^verbatim>\<open>BufWriter\<close> collects small writes in an 8 KiB
  buffer. The bytes a writer has taken responsibility for, \<open>bw_stream\<close>, are the file's bytes
  followed by the buffer's.
\<close>

section \<open>Definitions\<close>

record wfile =
  wf_data :: bytes
  wf_synced :: bytes
  wf_faults :: "(nat \<times> io_error) option list"

definition file_of :: "bytes \<Rightarrow> wfile" where
  "file_of bs = \<lparr>wf_data = bs, wf_synced = bs, wf_faults = []\<rparr>"

definition next_fault :: "wfile \<Rightarrow> (nat \<times> io_error) option \<times> wfile" where
  "next_fault f =
     (case wf_faults f of [] \<Rightarrow> (None, f) | x # xs \<Rightarrow> (x, f\<lparr>wf_faults := xs\<rparr>))"

text \<open>\<^verbatim>\<open>write_all\<close> on a file; a failing call has written a proper prefix of the data.\<close>

definition file_write_all :: "bytes \<Rightarrow> wfile \<Rightarrow> unit res \<times> wfile" where
  "file_write_all data f =
     (if data = [] then (Ok (), f)
      else case next_fault f of
        (None, f') \<Rightarrow> (Ok (), f'\<lparr>wf_data := wf_data f' @ data\<rparr>)
      | (Some (n, e), f') \<Rightarrow>
          (Err (Io e), f'\<lparr>wf_data := wf_data f' @ take (min n (length data - 1)) data\<rparr>))"

definition file_sync_all :: "wfile \<Rightarrow> unit res \<times> wfile" where
  "file_sync_all f =
     (case next_fault f of
        (None, f') \<Rightarrow> (Ok (), f'\<lparr>wf_synced := wf_data f'\<rparr>)
      | (Some (n, e), f') \<Rightarrow> (Err (Io e), f'))"

record BufWriter =
  bw_file :: wfile
  bw_buf :: bytes

definition buf_capacity :: nat where
  "buf_capacity = 8192"

definition BufWriter_new :: "wfile \<Rightarrow> BufWriter" where
  "BufWriter_new f = \<lparr>bw_file = f, bw_buf = []\<rparr>"

text \<open>Flushing the buffer; what was written before an error leaves the buffer.\<close>

definition BufWriter_flush_buf :: "BufWriter \<Rightarrow> unit res \<times> BufWriter" where
  "BufWriter_flush_buf w =
     (case file_write_all (bw_buf w) (bw_file w) of
        (r, f') \<Rightarrow>
          (r, \<lparr>bw_file = f', bw_buf = drop (length (wf_data f') - length (wf_data (bw_file w))) (bw_buf w)\<rparr>))"

definition BufWriter_write_all :: "bytes \<Rightarrow> BufWriter \<Rightarrow> unit res \<times> BufWriter" where
  "BufWriter_write_all data w =
     (if length data < buf_capacity - length (bw_buf w)
      then (Ok (), w\<lparr>bw_buf := bw_buf w @ data\<rparr>)
      else
        try_st (if buf_capacity - length (bw_buf w) < length data
                then BufWriter_flush_buf w else (Ok (), w))
          (\<lambda>_ w'. if buf_capacity \<le> length data
            then (case file_write_all data (bw_file w') of (r, f') \<Rightarrow> (r, w'\<lparr>bw_file := f'\<rparr>))
            else (Ok (), w'\<lparr>bw_buf := bw_buf w' @ data\<rparr>)))"

definition BufWriter_flush :: "BufWriter \<Rightarrow> unit res \<times> BufWriter" where
  "BufWriter_flush w = BufWriter_flush_buf w"

definition BufWriter_sync_all :: "BufWriter \<Rightarrow> unit res \<times> BufWriter" where
  "BufWriter_sync_all w =
     (case file_sync_all (bw_file w) of (r, f') \<Rightarrow> (r, w\<lparr>bw_file := f'\<rparr>))"

definition bw_stream :: "BufWriter \<Rightarrow> bytes" where
  "bw_stream w = wf_data (bw_file w) @ bw_buf w"

definition fault_free :: "BufWriter \<Rightarrow> bool" where
  "fault_free w \<longleftrightarrow> wf_faults (bw_file w) = []"

text \<open>The flush that makes room for a write, when the buffer is too full for it.\<close>

definition make_room :: "nat \<Rightarrow> BufWriter \<Rightarrow> unit res \<times> BufWriter" where
  "make_room n w = (if buf_capacity - length (bw_buf w) < n then BufWriter_flush_buf w else (Ok (), w))"

section \<open>Lemmas\<close>

lemma bw_stream_new [simp]: "bw_stream (BufWriter_new f) = wf_data f"
  by (simp add: bw_stream_def BufWriter_new_def)

lemma file_write_all_cases:
  obtains (ok) f' where "file_write_all data f = (Ok (), f')" "wf_data f' = wf_data f @ data"
      "wf_faults f = [] \<Longrightarrow> wf_faults f' = []"
  | (err) e n f' where "file_write_all data f = (Err (Io e), f')" "n < length data"
      "wf_data f' = wf_data f @ take n data" "wf_faults f \<noteq> []"
proof (cases "data = []")
  case True
  then show ?thesis using ok[of f] by (simp add: file_write_all_def)
next
  case data: False
  show ?thesis
  proof (cases "fst (next_fault f)")
    case None
    then show ?thesis using data ok[of "(snd (next_fault f))\<lparr>wf_data := wf_data f @ data\<rparr>"]
      by (auto simp: file_write_all_def next_fault_def split: list.splits)
  next
    case (Some x)
    obtain n e where x: "x = (n, e)" by (cases x)
    have "min n (length data - 1) < length data" using data by (cases data) auto
    then show ?thesis
      using Some data x err[of e "(snd (next_fault f))\<lparr>wf_data := wf_data f @ take (min n (length data - 1)) data\<rparr>"
          "min n (length data - 1)"]
      by (auto simp: file_write_all_def next_fault_def split: list.splits)
  qed
qed

text \<open>A flush never changes the stream, whether it succeeds or not.\<close>

lemma BufWriter_flush_buf_stream:
  "bw_stream (snd (BufWriter_flush_buf w)) = bw_stream w"
proof (cases rule: file_write_all_cases[of "bw_buf w" "bw_file w"])
  case (ok f')
  then show ?thesis by (simp add: BufWriter_flush_buf_def bw_stream_def)
next
  case (err e n f')
  then show ?thesis by (simp add: BufWriter_flush_buf_def bw_stream_def)
qed

lemma BufWriter_flush_buf_result:
  "fst (BufWriter_flush_buf w) = Ok () \<and> bw_buf (snd (BufWriter_flush_buf w)) = [] \<or>
   (\<exists>e. fst (BufWriter_flush_buf w) = Err (Io e)) \<and> \<not> fault_free w"
proof (cases rule: file_write_all_cases[of "bw_buf w" "bw_file w"])
  case (ok f')
  then show ?thesis by (simp add: BufWriter_flush_buf_def)
next
  case (err e n f')
  then show ?thesis by (simp add: BufWriter_flush_buf_def fault_free_def)
qed

lemma BufWriter_flush_buf_fault_free:
  "fault_free w \<Longrightarrow> fault_free (snd (BufWriter_flush_buf w))"
proof (cases rule: file_write_all_cases[of "bw_buf w" "bw_file w"])
  case (ok f')
  assume "fault_free w"
  with ok show ?thesis by (simp add: BufWriter_flush_buf_def fault_free_def)
next
  case (err e n f')
  assume "fault_free w"
  with err show ?thesis by (simp add: fault_free_def)
qed

lemma make_room_keeps:
  "bw_stream (snd (make_room n w)) = bw_stream w" "fault_free w \<Longrightarrow> fault_free (snd (make_room n w))"
  by (simp_all add: make_room_def BufWriter_flush_buf_stream BufWriter_flush_buf_fault_free)

lemma make_room_cases:
  obtains (room) w' where "make_room n w = (Ok (), w')" "buf_capacity \<le> n \<Longrightarrow> bw_buf w' = []"
  | (full) e w' where "make_room n w = (Err (Io e), w')" "0 < n" "\<not> fault_free w"
proof (cases "buf_capacity - length (bw_buf w) < n")
  case True
  then have eq: "make_room n w = BufWriter_flush_buf w" by (simp add: make_room_def)
  from BufWriter_flush_buf_result[of w] show ?thesis
  proof
    assume "fst (BufWriter_flush_buf w) = Ok () \<and> bw_buf (snd (BufWriter_flush_buf w)) = []"
    then show ?thesis using room[of "snd (BufWriter_flush_buf w)"] eq by (metis prod.collapse)
  next
    assume "(\<exists>e. fst (BufWriter_flush_buf w) = Err (Io e)) \<and> \<not> fault_free w"
    then show ?thesis using full[of _ "snd (BufWriter_flush_buf w)"] eq True by (metis gr_zeroI not_less0 prod.collapse)
  qed
next
  case False
  then show ?thesis using room[of w] by (cases "bw_buf w") (simp_all add: make_room_def buf_capacity_def)
qed

lemma write_all_large:
  "buf_capacity \<le> length data \<Longrightarrow> BufWriter_write_all data w =
     try_st (make_room (length data) w) (\<lambda>_ w'. case file_write_all data (bw_file w') of (r, f') \<Rightarrow> (r, w'\<lparr>bw_file := f'\<rparr>))"
  by (auto simp: BufWriter_write_all_def make_room_def)

lemma write_all_small:
  "length data < buf_capacity \<Longrightarrow> BufWriter_write_all data w =
     try_st (make_room (length data) w) (\<lambda>_ w'. (Ok (), w'\<lparr>bw_buf := bw_buf w' @ data\<rparr>))"
  by (simp add: BufWriter_write_all_def make_room_def)

lemma strict_prefix_take: "n < length xs \<Longrightarrow> strict_prefix (take n xs) xs"
  by (metis length_take min.absorb4 nat_neq_iff prefix_order.le_neq_trans take_is_prefix)

text \<open>
  A write extends the stream by the data when it succeeds and by a proper prefix of the data
  when it fails; without failures scheduled it succeeds.
\<close>

lemma BufWriter_write_all_stream:
  obtains (ok) w' where "BufWriter_write_all data w = (Ok (), w')"
      "bw_stream w' = bw_stream w @ data" "fault_free w \<Longrightarrow> fault_free w'"
  | (err) e w' p where "BufWriter_write_all data w = (Err (Io e), w')"
      "bw_stream w' = bw_stream w @ p" "strict_prefix p data" "\<not> fault_free w"
proof (cases rule: make_room_cases[where n = "length data" and w = w])
  case (room w1)
  then have w1: "bw_stream w1 = bw_stream w" "fault_free w \<Longrightarrow> fault_free w1" using make_room_keeps[where n = "length data" and w = w] by simp_all
  show ?thesis
  proof (cases "buf_capacity \<le> length data")
    case large: True
    show ?thesis
    proof (cases rule: file_write_all_cases[of data "bw_file w1"])
      case f: (ok f')
      show ?thesis
        by (rule ok[of "w1\<lparr>bw_file := f'\<rparr>"]) (use f room large w1 in \<open>simp_all add: write_all_large bw_stream_def fault_free_def\<close>)
    next
      case f: (err e n f')
      show ?thesis
        by (rule err[of e "w1\<lparr>bw_file := f'\<rparr>" "take n data"])
          (use f room large w1 in \<open>auto simp: write_all_large bw_stream_def fault_free_def strict_prefix_take\<close>)
    qed
  next
    case False
    then show ?thesis
      using room w1 by (intro ok[of "w1\<lparr>bw_buf := bw_buf w1 @ data\<rparr>"]) (simp_all add: write_all_small bw_stream_def fault_free_def)
  qed
next
  case (full e w1)
  then have "BufWriter_write_all data w = (Err (Io e), w1)"
    by (cases "buf_capacity \<le> length data") (simp_all add: write_all_large write_all_small)
  then show ?thesis using full make_room_keeps(1)[where n = "length data" and w = w] by (intro err[of e w1 "[]"]) (auto simp: strict_prefix_def)
qed

lemma BufWriter_write_all_ok:
  assumes "fault_free w"
  shows "\<exists>w'. BufWriter_write_all data w = (Ok (), w') \<and> bw_stream w' = bw_stream w @ data \<and> fault_free w'"
  using assms by (cases rule: BufWriter_write_all_stream[of data w]) auto

lemma BufWriter_flush_ok:
  assumes "fault_free w"
  shows "\<exists>w'. BufWriter_flush w = (Ok (), w') \<and> wf_data (bw_file w') = bw_stream w \<and>
    bw_buf w' = [] \<and> fault_free w'"
proof -
  have "fst (BufWriter_flush_buf w) = Ok ()" "bw_buf (snd (BufWriter_flush_buf w)) = []"
    using BufWriter_flush_buf_result[of w] assms by auto
  moreover have "wf_data (bw_file (snd (BufWriter_flush_buf w))) = bw_stream w"
    using BufWriter_flush_buf_stream[of w] calculation(2) by (simp add: bw_stream_def)
  ultimately show ?thesis
    using BufWriter_flush_buf_fault_free[OF assms]
    by (metis BufWriter_flush_def prod.collapse)
qed

lemma BufWriter_sync_all_ok:
  assumes "fault_free w"
  shows "\<exists>w'. BufWriter_sync_all w = (Ok (), w') \<and>
    wf_synced (bw_file w') = wf_data (bw_file w) \<and> wf_data (bw_file w') = wf_data (bw_file w) \<and>
    bw_buf w' = bw_buf w \<and> fault_free w'"
  using assms
  by (auto simp: BufWriter_sync_all_def file_sync_all_def next_fault_def fault_free_def)

lemma BufWriter_sync_all_Ok:
  assumes "BufWriter_sync_all w = (Ok (), w')"
  shows "wf_synced (bw_file w') = wf_data (bw_file w) \<and> wf_data (bw_file w') = wf_data (bw_file w) \<and>
    bw_buf w' = bw_buf w"
  using assms
  by (auto simp: BufWriter_sync_all_def file_sync_all_def next_fault_def
      split: prod.splits option.splits list.splits)

end
