(* ===== verification/SST_Footer.thy ===== *)
theory SST_Footer
  imports Buf_Writer
begin

text \<open>
  \<^verbatim>\<open>src/src/sstable/footer.rs\<close> and the constants of \<^verbatim>\<open>sstable/mod.rs\<close>: block handles and the
  48-byte footer at the end of a table file.
\<close>

section \<open>Definitions\<close>

definition DEFAULT_BLOCK_SIZE :: nat where
  "DEFAULT_BLOCK_SIZE = 4096"

definition FOOTER_SIZE :: nat where
  "FOOTER_SIZE = 48"

definition MAGIC_NUMBER :: u64 where
  "MAGIC_NUMBER = 0x5441424c455f5353"

record BlockHandle =
  bh_offset :: u64
  bh_size :: u64

definition BlockHandle_new :: "u64 \<Rightarrow> u64 \<Rightarrow> BlockHandle" where
  "BlockHandle_new off sz = \<lparr>bh_offset = off, bh_size = sz\<rparr>"

definition BlockHandle_encode :: "BlockHandle \<Rightarrow> bytes" where
  "BlockHandle_encode h = u64_le (bh_offset h) @ u64_le (bh_size h)"

definition BlockHandle_decode :: "bytes \<Rightarrow> BlockHandle res" where
  "BlockHandle_decode data =
     (if length data < 16 then Err (Corruption ''BlockHandle too short'')
      else Ok \<lparr>bh_offset = le_u64 (slice 0 8 data), bh_size = le_u64 (slice 8 16 data)\<rparr>)"

definition BlockHandle_end_offset :: "BlockHandle \<Rightarrow> u64" where
  "BlockHandle_end_offset h = bh_offset h + bh_size h"

record Footer =
  meta_index_handle :: BlockHandle
  index_handle :: BlockHandle

definition Footer_new :: "BlockHandle \<Rightarrow> BlockHandle \<Rightarrow> Footer" where
  "Footer_new m i = \<lparr>meta_index_handle = m, index_handle = i\<rparr>"

definition Footer_encode :: "Footer \<Rightarrow> bytes" where
  "Footer_encode f =
     BlockHandle_encode (meta_index_handle f) @ BlockHandle_encode (index_handle f) @
     replicate 8 0 @ u64_le MAGIC_NUMBER"

definition Footer_decode :: "bytes \<Rightarrow> Footer res" where
  "Footer_decode data =
     (if length data \<noteq> 48
      then Err (Corruption (''Footer size mismatch: expected 48, got '' @ fmt_dec (length data)))
      else
        let magic = le_u64 (slice 40 48 data) in
        if magic \<noteq> MAGIC_NUMBER
        then Err (Corruption (''Invalid SSTable magic number: expected '' @ fmt_hex (unat MAGIC_NUMBER)
                    @ '', got '' @ fmt_hex (unat magic)))
        else
          bind_res (BlockHandle_decode (slice 0 16 data)) (\<lambda>m.
          bind_res (BlockHandle_decode (slice 16 32 data)) (\<lambda>i.
          Ok \<lparr>meta_index_handle = m, index_handle = i\<rparr>)))"

definition Footer_write_to :: "Footer \<Rightarrow> BufWriter \<Rightarrow> unit res \<times> BufWriter" where
  "Footer_write_to f w = BufWriter_write_all (Footer_encode f) w"

text \<open>Reading from a position of a file.\<close>

definition file_read_exact :: "bytes \<Rightarrow> nat \<Rightarrow> nat \<Rightarrow> bytes res" where
  "file_read_exact file pos n =
     (if n = 0 then Ok [] else if pos + n \<le> length file then Ok (slice pos (pos + n) file)
      else Err eof_error)"

definition Footer_read_from :: "bytes \<Rightarrow> nat \<Rightarrow> Footer res" where
  "Footer_read_from file pos = bind_res (file_read_exact file pos 48) Footer_decode"

section \<open>Lemmas\<close>

lemma length_BlockHandle_encode [simp]: "length (BlockHandle_encode h) = 16"
  by (simp add: BlockHandle_encode_def)

lemma length_Footer_encode [simp]: "length (Footer_encode f) = 48"
  by (simp add: Footer_encode_def)

lemma BlockHandle_decode_encode [codec_simps, simp]: "BlockHandle_decode (BlockHandle_encode h) = Ok h"
  by (simp add: BlockHandle_decode_def BlockHandle_encode_def slice_def)

lemma BlockHandle_encode_decode:
  assumes "BlockHandle_decode data = Ok h" and "length data = 16"
  shows "BlockHandle_encode h = data"
proof -
  have "h = \<lparr>bh_offset = le_u64 (slice 0 8 data), bh_size = le_u64 (slice 8 16 data)\<rparr>"
    using assms by (auto simp: BlockHandle_decode_def)
  moreover have "slice 0 8 data @ slice 8 16 data = data"
    using assms(2) append_take_drop_id[of 8 data] by (simp add: slice_def)
  ultimately show ?thesis
    using assms(2) by (simp add: BlockHandle_encode_def u64_le_le_u64)
qed

lemma Footer_decode_encode [codec_simps, simp]: "Footer_decode (Footer_encode f) = Ok f"
proof -
  have "slice 0 16 (Footer_encode f) = BlockHandle_encode (meta_index_handle f)"
    "slice 16 32 (Footer_encode f) = BlockHandle_encode (index_handle f)"
    "slice 40 48 (Footer_encode f) = u64_le MAGIC_NUMBER"
    by (simp_all add: Footer_encode_def slice_def)
  then show ?thesis by (simp add: Footer_decode_def)
qed

lemma file_read_exact_middle:
  "file_read_exact (pre @ bs @ suf) (length pre) (length bs) = Ok bs"
  by (simp add: file_read_exact_def)

section \<open>Properties\<close>

text \<open>
  The footer codec: a 48-byte string decodes to a footer exactly when its first 32 bytes are
  the two handles and its last 8 bytes the magic number; the 8 bytes of padding are ignored. All
  other strings are rejected as corrupt.
\<close>

theorem Footer_decode_iff:
  "Footer_decode data = Ok f \<longleftrightarrow>
     (\<exists>padding. length padding = 8 \<and>
        data = BlockHandle_encode (meta_index_handle f) @ BlockHandle_encode (index_handle f) @
               padding @ u64_le MAGIC_NUMBER)"
  (is "?l = (\<exists>padding. ?r padding)")
proof
  assume ?l
  then have len: "length data = 48" and magic: "le_u64 (slice 40 48 data) = MAGIC_NUMBER"
    and m: "BlockHandle_decode (slice 0 16 data) = Ok (meta_index_handle f)"
    and i: "BlockHandle_decode (slice 16 32 data) = Ok (index_handle f)"
    by (auto simp: Footer_decode_def Let_def split: if_splits)
  have "data = slice 0 16 data @ drop 16 data" by (simp add: slice_def)
  also have "drop 16 data = slice 16 32 data @ drop 32 data"
    using append_take_drop_id[of 16 "drop 16 data"] by (simp add: slice_def)
  also have "drop 32 data = slice 32 40 data @ slice 40 48 data"
    using append_take_drop_id[of 8 "drop 32 data"] len by (simp add: slice_def)
  finally have "data = slice 0 16 data @ slice 16 32 data @ slice 32 40 data @ slice 40 48 data" .
  moreover have "slice 40 48 data = u64_le MAGIC_NUMBER"
    using len by (simp add: magic[symmetric] u64_le_le_u64)
  ultimately have "?r (slice 32 40 data)"
    using BlockHandle_encode_decode[OF m] BlockHandle_encode_decode[OF i] len by simp
  then show "\<exists>padding. ?r padding" ..
next
  assume "\<exists>padding. ?r padding"
  then obtain padding where r: "?r padding" ..
  then have "slice 0 16 data = BlockHandle_encode (meta_index_handle f)"
    "slice 16 32 data = BlockHandle_encode (index_handle f)"
    "slice 40 48 data = u64_le MAGIC_NUMBER" "length data = 48"
    by (simp_all add: slice_def)
  then show ?l by (simp add: Footer_decode_def)
qed

end
