(* ===== verification/SST_Index.thy ===== *)
theory SST_Index
  imports SST_Block SST_Footer
begin

text \<open>
  \<^verbatim>\<open>src/src/sstable/index.rs\<close>: the index block of a table, one entry per data block with the
  largest key of the block and its handle. \<^verbatim>\<open>find_block\<close> does a binary search that restarts the
  iterator for every probe, steps one entry back and scans. It is shown to return the first block
  whose largest key is at least the key searched for, or the last block. The positions of the
  binary search are natural numbers (a block with \<open>2 ^ 31\<close> restart points would exceed 8 GiB).
\<close>

section \<open>Definitions\<close>

record IndexEntry =
  ie_key :: bytes
  ie_handle :: BlockHandle

definition IndexEntry_new :: "bytes \<Rightarrow> BlockHandle \<Rightarrow> IndexEntry" where
  "IndexEntry_new k h = \<lparr>ie_key = k, ie_handle = h\<rparr>"

definition IndexEntry_encode_value :: "IndexEntry \<Rightarrow> bytes" where
  "IndexEntry_encode_value e = BlockHandle_encode (ie_handle e)"

definition IndexEntry_decode_value :: "bytes \<Rightarrow> BlockHandle res" where
  "IndexEntry_decode_value data = BlockHandle_decode data"

record IndexBlock =
  ib_block :: Block

definition IndexBlock_new :: "bytes \<Rightarrow> IndexBlock res" where
  "IndexBlock_new data = bind_res (Block_new data) (\<lambda>b. Ok \<lparr>ib_block = b\<rparr>)"

definition IndexBlock_first :: "IndexBlock \<Rightarrow> BlockIterator" where
  "IndexBlock_first ib = BlockIterator_seek_to_first (Block_iter (ib_block ib))"

text \<open>\<^verbatim>\<open>for _ in 0..n { if !iter.advance() { break; } }\<close>\<close>

fun BlockIterator_skip :: "nat \<Rightarrow> BlockIterator \<Rightarrow> BlockIterator" where
  "BlockIterator_skip 0 it = it"
| "BlockIterator_skip (Suc n) it =
     (case BlockIterator_advance it of (True, it') \<Rightarrow> BlockIterator_skip n it' | (False, it') \<Rightarrow> it')"

text \<open>\<^verbatim>\<open>for _ in 0..n { if !iter.advance() { return Ok(None); } }\<close>\<close>

fun BlockIterator_skip_all :: "nat \<Rightarrow> BlockIterator \<Rightarrow> BlockIterator option" where
  "BlockIterator_skip_all 0 it = Some it"
| "BlockIterator_skip_all (Suc n) it =
     (case BlockIterator_advance it of (True, it') \<Rightarrow> BlockIterator_skip_all n it' | (False, it') \<Rightarrow> None)"

function find_block_search :: "IndexBlock \<Rightarrow> bytes \<Rightarrow> nat \<Rightarrow> nat \<Rightarrow> nat res" where
  "find_block_search ib key left right =
     (if left < right then
        let mid = (left + right) div 2;
            iter = BlockIterator_skip mid (IndexBlock_first ib)
        in if \<not> it_valid iter then find_block_search ib key left mid
           else bind_res (BlockIterator_key iter) (\<lambda>k.
             if k < key then find_block_search ib key (mid + 1) right
             else find_block_search ib key left mid)
      else Ok left)"
  by pat_completeness auto
termination
  by (relation "measure (\<lambda>(ib, key, left, right). right - left)") auto

declare find_block_search.simps [simp del]

function find_block_scan :: "bytes \<Rightarrow> BlockIterator \<Rightarrow> BlockHandle option \<Rightarrow> BlockHandle option res" where
  "find_block_scan key it last_handle =
     (case BlockIterator_advance it of
        (False, _) \<Rightarrow> Ok last_handle
      | (True, it') \<Rightarrow>
          if \<not> it_valid it' then Ok last_handle
          else
            bind_res (BlockIterator_key it') (\<lambda>entry_key.
            bind_res (BlockIterator_value it') (\<lambda>v.
            bind_res (BlockHandle_decode v) (\<lambda>handle.
              if key \<le> entry_key then Ok (Some handle) else find_block_scan key it' (Some handle)))))"
  by pat_completeness auto
termination
  by (relation "measure (\<lambda>(key, it, h). blk_restart_offset (it_block it) - it_current it)")
     (auto dest!: advance_progress[OF sym])

declare find_block_scan.simps [simp del]

definition IndexBlock_find_block :: "IndexBlock \<Rightarrow> bytes \<Rightarrow> BlockHandle option res" where
  "IndexBlock_find_block ib key =
     (let num_restarts = unat (blk_num_restarts (ib_block ib)) in
      if num_restarts = 0 then Ok None
      else bind_res (find_block_search ib key 0 num_restarts) (\<lambda>left0.
        let left = (if left0 = 0 then 0 else left0 - 1) in
        case BlockIterator_skip_all left (IndexBlock_first ib) of
          None \<Rightarrow> Ok None
        | Some it \<Rightarrow> find_block_scan key it None))"

definition IndexBlock_len :: "IndexBlock \<Rightarrow> nat" where
  "IndexBlock_len ib = length (BlockIterator_collect (IndexBlock_first ib))"

definition IndexBlock_is_empty :: "IndexBlock \<Rightarrow> bool" where
  "IndexBlock_is_empty ib \<longleftrightarrow> IndexBlock_len ib = 0"

type_synonym IndexBlockBuilder = BlockBuilder

definition IndexBlockBuilder_new :: IndexBlockBuilder where
  "IndexBlockBuilder_new = BlockBuilder_new 1"

definition IndexBlockBuilder_add_entry :: "IndexEntry \<Rightarrow> IndexBlockBuilder \<Rightarrow> IndexBlockBuilder res" where
  "IndexBlockBuilder_add_entry e b = BlockBuilder_add (ie_key e) (IndexEntry_encode_value e) b"

definition IndexBlockBuilder_finish :: "IndexBlockBuilder \<Rightarrow> bytes" where
  "IndexBlockBuilder_finish b = BlockBuilder_finish b"

definition IndexIterator_entry :: "BlockIterator \<Rightarrow> IndexEntry res" where
  "IndexIterator_entry it =
     (if \<not> it_valid it then Err (InvalidState ''Iterator not valid'')
      else
        bind_res (BlockIterator_key it) (\<lambda>k.
        bind_res (BlockIterator_value it) (\<lambda>v.
        bind_res (BlockHandle_decode v) (\<lambda>h. Ok (IndexEntry_new k h)))))"

section \<open>Specification\<close>

definition index_kvs :: "IndexEntry list \<Rightarrow> kv list" where
  "index_kvs es = map (\<lambda>e. (ie_key e, BlockHandle_encode (ie_handle e))) es"

definition index_lookup :: "bytes \<Rightarrow> IndexEntry list \<Rightarrow> BlockHandle option" where
  "index_lookup key es =
     (case dropWhile (\<lambda>e. ie_key e < key) es of
        e # _ \<Rightarrow> Some (ie_handle e)
      | [] \<Rightarrow> if es = [] then None else Some (ie_handle (last es)))"

text \<open>An index block that lists the given entries.\<close>

definition index_rep :: "IndexBlock \<Rightarrow> IndexEntry list \<Rightarrow> bool" where
  "index_rep ib es \<longleftrightarrow>
     yields (IndexBlock_first ib) (index_kvs es) \<and> it_key (IndexBlock_first ib) = [] \<and>
     (it_valid (IndexBlock_first ib) \<longleftrightarrow> es \<noteq> []) \<and>
     unat (blk_num_restarts (ib_block ib)) = max 1 (length es) \<and>
     sorted_wrt (<) (map ie_key es)"

section \<open>Lemmas\<close>

lemma skip_yields:
  assumes "yields it es" and "n \<le> length es" and "es \<noteq> [] \<Longrightarrow> it_valid it"
  shows "yields (BlockIterator_skip n it) (drop n es) \<and>
    BlockIterator_skip_all n it = Some (BlockIterator_skip n it) \<and>
    (es \<noteq> [] \<longrightarrow> it_valid (BlockIterator_skip n it)) \<and>
    it_key (BlockIterator_skip n it) = (if n = 0 then it_key it else fst (es ! (n - 1)))"
  using assms
proof (induction n arbitrary: it es)
  case 0
  then show ?case by simp
next
  case (Suc n)
  obtain e es' where es: "es = e # es'" using Suc.prems(2) by (cases es) auto
  obtain it' where it': "BlockIterator_advance it = (True, it')" "it_valid it'" "it_key it' = fst e"
    "yields it' es'"
    using Suc.prems(1) unfolding es by (elim yields_ConsE) blast
  have "yields (BlockIterator_skip n it') (drop n es') \<and>
    BlockIterator_skip_all n it' = Some (BlockIterator_skip n it') \<and>
    (es' \<noteq> [] \<longrightarrow> it_valid (BlockIterator_skip n it')) \<and>
    it_key (BlockIterator_skip n it') = (if n = 0 then it_key it' else fst (es' ! (n - 1)))"
    using Suc.IH[OF it'(4)] Suc.prems(2) it'(2) by (simp add: es)
  moreover have "it_valid (BlockIterator_skip n it')" if "es' = []"
    using that Suc.prems(2) it'(2) by (simp add: es)
  ultimately show ?case using it' by (cases n) (auto simp: es)
qed

lemma length_index_kvs [simp]: "length (index_kvs es) = length es"
  by (simp add: index_kvs_def)

lemma sorted_keys_below:
  assumes "sorted_wrt (<) (map ie_key es)" and "j < length es" and "ie_key (es ! j) < key" and "i \<le> j"
  shows "ie_key (es ! i) < key"
proof (cases "i = j")
  case False
  then have "ie_key (es ! i) < ie_key (es ! j)"
    using sorted_wrt_nth_less[OF assms(1), of i j] assms(2,4) by simp
  then show ?thesis using assms(3) by (rule order.strict_trans)
qed (use assms(3) in simp)

text \<open>A probe whose key is too small: all entries before it are too small as well.\<close>

lemma probe_below:
  assumes rep: "index_rep ib es" and mid: "mid \<le> length es" and i: "i < mid"
    and small: "it_key (BlockIterator_skip mid (IndexBlock_first ib)) < key"
  shows "ie_key (es ! i) < key"
proof -
  note sorted = rep[unfolded index_rep_def, THEN conjunct2, THEN conjunct2, THEN conjunct2, THEN conjunct2]
  have "it_valid (IndexBlock_first ib)" if "index_kvs es \<noteq> []"
    using that rep by (auto simp: index_rep_def index_kvs_def)
  then have "it_key (BlockIterator_skip mid (IndexBlock_first ib)) = fst (index_kvs es ! (mid - 1))"
    using skip_yields[of "IndexBlock_first ib" "index_kvs es" mid] rep mid i by (simp add: index_rep_def)
  then have "ie_key (es ! (mid - 1)) < key" using small mid i by (simp add: index_kvs_def)
  then show ?thesis using sorted_keys_below[OF sorted, of "mid - 1" key i] mid i by simp
qed

lemma search_result:
  assumes rep: "index_rep ib es"
    and "right \<le> max 1 (length es)" and "left \<le> right"
    and "\<forall>i < left - 1. ie_key (es ! i) < key"
  shows "\<exists>m. find_block_search ib key left right = Ok m \<and> m \<le> right \<and> (\<forall>i < m - 1. ie_key (es ! i) < key)"
  using assms(2-)
proof (induction "right - left" arbitrary: left right rule: less_induct)
  case less
  show ?case
  proof (cases "left < right")
    case False
    then show ?thesis using less.prems by (subst find_block_search.simps) simp
  next
    case True
    define mid where "mid = (left + right) div 2"
    define it where "it = BlockIterator_skip mid (IndexBlock_first ib)"
    have mid: "left \<le> mid" "mid < right" using True by (auto simp: mid_def)
    have lower: "\<exists>m. find_block_search ib key left mid = Ok m \<and> m \<le> right \<and> (\<forall>i < m - 1. ie_key (es ! i) < key)"
      using less.hyps[of mid left] less.prems mid by fastforce
    have step: "find_block_search ib key left right =
        (if \<not> it_valid it then find_block_search ib key left mid
         else bind_res (BlockIterator_key it) (\<lambda>k. if k < key then find_block_search ib key (mid + 1) right
             else find_block_search ib key left mid))"
      using True unfolding mid_def it_def
      by (subst find_block_search.simps) (simp only: Let_def if_True)
    show ?thesis
    proof (cases "it_valid it")
      case False
      then show ?thesis using step lower by simp
    next
      case valid: True
      then have key: "BlockIterator_key it = Ok (it_key it)" by (simp add: BlockIterator_key_def)
      show ?thesis
      proof (cases "it_key it < key")
        case False
        then show ?thesis using step lower key valid by simp
      next
        case small: True
        have "ie_key (es ! i) < key" if "i < mid" for i
          by (rule probe_below[OF rep _ that]) (use mid less.prems(1) small in \<open>auto simp: it_def\<close>)
        then have "\<exists>m. find_block_search ib key (mid + 1) right = Ok m \<and> m \<le> right \<and>
            (\<forall>i < m - 1. ie_key (es ! i) < key)"
          using less.hyps[of right "mid + 1"] less.prems(1) mid by simp
        then show ?thesis using step key valid small by simp
      qed
    qed
  qed
qed

lemma scan_result:
  assumes "yields it (index_kvs es)"
  shows "find_block_scan key it lh =
    Ok (case dropWhile (\<lambda>e. ie_key e < key) es of
          e # _ \<Rightarrow> Some (ie_handle e)
        | [] \<Rightarrow> if es = [] then lh else Some (ie_handle (last es)))"
  using assms
proof (induction es arbitrary: it lh)
  case Nil
  then have "yields it []" by (simp add: index_kvs_def)
  then show ?case by (elim yields_NilE) (simp add: find_block_scan.simps[of key it])
next
  case (Cons e es)
  have "yields it ((ie_key e, BlockHandle_encode (ie_handle e)) # index_kvs es)"
    using Cons.prems by (simp add: index_kvs_def)
  then obtain it' where it': "BlockIterator_advance it = (True, it')" "it_valid it'" "yields it' (index_kvs es)"
    "BlockIterator_key it' = Ok (ie_key e)" "BlockIterator_value it' = Ok (BlockHandle_encode (ie_handle e))"
    by (elim yields_ConsE) simp
  have step: "find_block_scan key it lh =
      (if key \<le> ie_key e then Ok (Some (ie_handle e)) else find_block_scan key it' (Some (ie_handle e)))"
    using it' by (subst find_block_scan.simps) simp
  show ?case
  proof (cases "ie_key e < key")
    case True
    then have "\<not> key \<le> ie_key e" by (simp only: not_le)
    with True show ?thesis
      unfolding step Cons.IH[OF it'(3), of "Some (ie_handle e)"]
      by (auto split: list.split simp: dropWhile_eq_Nil_conv[symmetric] simp del: dropWhile_eq_Nil_conv)
  next
    case False
    then have "key \<le> ie_key e" by (simp only: not_less)
    with False show ?thesis by (simp add: step)
  qed
qed

lemma find_block_correct:
  assumes rep: "index_rep ib es"
  shows "IndexBlock_find_block ib key = Ok (index_lookup key es)"
proof -
  have n: "unat (blk_num_restarts (ib_block ib)) = max 1 (length es)" and
    ys: "yields (IndexBlock_first ib) (index_kvs es)" and
    valid: "index_kvs es \<noteq> [] \<Longrightarrow> it_valid (IndexBlock_first ib)"
    using rep by (auto simp: index_rep_def index_kvs_def)
  obtain m where m: "find_block_search ib key 0 (max 1 (length es)) = Ok m" "m \<le> max 1 (length es)"
    "\<forall>i < m - 1. ie_key (es ! i) < key"
    using search_result[OF rep, of "max 1 (length es)" 0 key] by auto
  have le: "m - 1 \<le> length es" "es \<noteq> [] \<Longrightarrow> m - 1 < length es" using m(2) by (cases es; auto)+
  obtain it where it: "BlockIterator_skip_all (m - 1) (IndexBlock_first ib) = Some it"
    "yields it (index_kvs (drop (m - 1) es))"
    using skip_yields[OF ys _ valid, of "m - 1"] le(1) by (auto simp: index_kvs_def drop_map)
  have skipped: "dropWhile (\<lambda>e. ie_key e < key) es = dropWhile (\<lambda>e. ie_key e < key) (drop (m - 1) es)"
  proof -
    have "\<forall>e \<in> set (take (m - 1) es). ie_key e < key"
      using m(3) le(1) by (auto simp: in_set_conv_nth)
    then have "dropWhile (\<lambda>e. ie_key e < key) (take (m - 1) es @ drop (m - 1) es) =
        dropWhile (\<lambda>e. ie_key e < key) (drop (m - 1) es)"
      by (intro dropWhile_append2) blast
    then show ?thesis by simp
  qed
  have "drop (m - 1) es = [] \<longleftrightarrow> es = []" "es \<noteq> [] \<Longrightarrow> last (drop (m - 1) es) = last es"
    using le by (auto intro: last_drop) (metis le(2) leD)
  then have scanned: "(if drop (m - 1) es = [] then None else Some (ie_handle (last (drop (m - 1) es)))) =
      (if es = [] then None else Some (ie_handle (last es)))"
    by simp
  have "IndexBlock_find_block ib key = find_block_scan key it None"
    using n m(1) it(1) by (cases m) (simp_all add: IndexBlock_find_block_def Let_def)
  also have "\<dots> = Ok (index_lookup key es)"
    unfolding scan_result[OF it(2)] index_lookup_def skipped scanned ..
  finally show ?thesis .
qed

lemma index_kvs_fit: "\<forall>e \<in> set es. length (ie_key e) < 2 ^ 32 \<Longrightarrow> entries_fit (index_kvs es)"
  by (auto simp: entries_fit_def index_kvs_def)

text \<open>A finished index builder represents its entries.\<close>

lemma index_built:
  assumes rep: "block_rep b (index_kvs es)" and one: "bb_interval b = 1"
    and sorted: "sorted_wrt (<) (map ie_key es)"
    and fit: "\<forall>e \<in> set es. length (ie_key e) < 2 ^ 32" and n: "length es + 1 < 2 ^ 32"
  obtains ib where "IndexBlock_new (IndexBlockBuilder_finish b) = Ok ib" "index_rep ib es"
proof -
  obtain blk where blk: "Block_new (BlockBuilder_finish b) = Ok blk"
    "yields (BlockIterator_seek_to_first (Block_iter blk)) (index_kvs es)"
    "it_key (BlockIterator_seek_to_first (Block_iter blk)) = []"
    "it_valid (BlockIterator_seek_to_first (Block_iter blk)) \<longleftrightarrow> index_kvs es \<noteq> []"
    "unat (blk_num_restarts blk) = length (bb_restarts b)"
    by (rule built_block_yields[OF rep index_kvs_fit[OF fit]]) (use n in auto)
  have "length (bb_restarts b) = max 1 (length es)"
    using rep one by (simp add: block_rep_def)
  then show ?thesis
    using blk sorted by (intro that[of "\<lparr>ib_block = blk\<rparr>"])
      (auto simp: IndexBlock_new_def IndexBlockBuilder_finish_def index_rep_def IndexBlock_first_def index_kvs_def)
qed

section \<open>Properties\<close>

text \<open>
  C25. The optimised search of an index block that lists any entries in ascending order returns
  the handle of the first block whose largest key is not below the key, or of the last block if
  there is none; it neither fails nor panics.
\<close>

theorem find_block_refines_lookup:
  assumes "index_rep ib es"
  shows "IndexBlock_find_block ib key = Ok (index_lookup key es)"
  by (rule find_block_correct[OF assms])

definition sample_index :: "IndexEntry list" where
  "sample_index = [IndexEntry_new [3] (BlockHandle_new 0 9), IndexEntry_new [7] (BlockHandle_new 9 4)]"

theorem find_block_refines_lookup_witness:
  "\<exists>b ib. fold_res IndexBlockBuilder_add_entry sample_index IndexBlockBuilder_new = Ok b \<and>
     IndexBlock_new (IndexBlockBuilder_finish b) = Ok ib \<and>
     IndexBlock_find_block ib [5] = Ok (Some (BlockHandle_new 9 4))"
proof -
  have kvs: "kv_sorted (index_kvs sample_index)"
    by (simp add: kv_sorted_def index_kvs_def sample_index_def IndexEntry_new_def)
  obtain b where b: "fold_res (\<lambda>(k, v). BlockBuilder_add k v) (index_kvs sample_index) (BlockBuilder_new 1) = Ok b"
    "block_rep b (index_kvs sample_index)"
    using block_add_all[OF block_rep_new, of "index_kvs sample_index"] kvs by auto
  have fold: "fold_res IndexBlockBuilder_add_entry sample_index IndexBlockBuilder_new = Ok b"
    using b(1) by (auto simp: sample_index_def index_kvs_def IndexBlockBuilder_add_entry_def
        IndexEntry_encode_value_def IndexBlockBuilder_new_def)
  have "bb_interval b = 1"
    by (rule fold_res_invariant[OF _ _ b(1), of "\<lambda>b. bb_interval b = 1"])
       (auto simp: BlockBuilder_new_def BlockBuilder_add_def Let_def split: if_splits prod.splits)
  then obtain ib where ib: "IndexBlock_new (IndexBlockBuilder_finish b) = Ok ib" "index_rep ib sample_index"
    by (rule index_built[OF b(2)]) (auto simp: sample_index_def IndexEntry_new_def)
  show ?thesis
    using fold ib find_block_refines_lookup[OF ib(2), of "[5]"]
    by (auto simp: index_lookup_def sample_index_def IndexEntry_new_def)
qed

end
