(* ===== verification/Bloom.thy ===== *)
theory Bloom
  imports Errors
begin

unbundle bit_operations_syntax

text \<open>
  \<^verbatim>\<open>src/src/filter/mod.rs\<close> and \<^verbatim>\<open>bloom.rs\<close>: the \<^verbatim>\<open>Filter\<close> trait and the Bloom filter.
  Hashing follows the standard library's \<^verbatim>\<open>Hash for [u8]\<close> (an 8-byte length, then the bytes)
  over the seeded FNV hasher of the source. The floating-point formulas of
  \<^verbatim>\<open>optimal_num_bits\<close> and \<^verbatim>\<open>optimal_num_hashes\<close> are parameters; what the source does with
  their results is modelled. \<^verbatim>\<open>(bits_per_key as f64 * 0.69).round()\<close> is the rounded
  \<open>69 * bits_per_key / 100\<close>: below the clamp at 30 no product comes close to a half. The trait is
  the interface \<open>membership_filter\<close>; the SSTable reader relies on it through the lemma that a
  stored filter never denies a key that was added.
\<close>

section \<open>Definitions\<close>

definition FNV_OFFSET_BASIS :: u64 where
  "FNV_OFFSET_BASIS = 0xcbf29ce484222325"

definition FNV_PRIME :: u64 where
  "FNV_PRIME = 0x100000001b3"

definition FnvHasher_new_with_seed :: "u32 \<Rightarrow> u64" where
  "FnvHasher_new_with_seed seed = FNV_OFFSET_BASIS XOR ucast seed"

definition FnvHasher_write :: "bytes \<Rightarrow> u64 \<Rightarrow> u64" where
  "FnvHasher_write bs state = fold (\<lambda>byte s. (s XOR ucast byte) * FNV_PRIME) bs state"

record BloomFilter =
  bf_bits :: bytes
  bf_num_hashes :: u32
  bf_num_bits :: nat

definition with_bits_and_hashes :: "nat \<Rightarrow> u32 \<Rightarrow> BloomFilter" where
  "with_bits_and_hashes num_bits num_hashes =
     (let num_bytes = (num_bits + 7) div 8 in
      \<lparr>bf_bits = replicate num_bytes 0, bf_num_hashes = num_hashes, bf_num_bits = num_bits\<rparr>)"

text \<open>\<open>ln_bits n p\<close> is \<^verbatim>\<open>(-n * p.ln() / 2.0.ln().powi(2)).ceil() as usize\<close>.\<close>

definition optimal_num_bits :: "(nat \<Rightarrow> 'f \<Rightarrow> nat) \<Rightarrow> nat \<Rightarrow> 'f \<Rightarrow> nat" where
  "optimal_num_bits ln_bits expected_keys false_positive_rate =
     max (ln_bits expected_keys false_positive_rate) 64"

text \<open>\<open>ln_hashes m n\<close> is \<^verbatim>\<open>((m / n) * 2.0.ln()).ceil() as u32\<close>.\<close>

definition optimal_num_hashes :: "(nat \<Rightarrow> nat \<Rightarrow> u32) \<Rightarrow> nat \<Rightarrow> nat \<Rightarrow> u32" where
  "optimal_num_hashes ln_hashes num_bits expected_keys =
     (if expected_keys = 0 then 1 else min 30 (max 1 (ln_hashes num_bits expected_keys)))"

definition BloomFilter_new ::
  "(nat \<Rightarrow> 'f \<Rightarrow> nat) \<Rightarrow> (nat \<Rightarrow> nat \<Rightarrow> u32) \<Rightarrow> nat \<Rightarrow> 'f \<Rightarrow> BloomFilter" where
  "BloomFilter_new ln_bits ln_hashes expected_keys false_positive_rate =
     (if expected_keys = 0 then with_bits_and_hashes 64 1
      else
        let num_bits = optimal_num_bits ln_bits expected_keys false_positive_rate;
            num_hashes = optimal_num_hashes ln_hashes num_bits expected_keys
        in with_bits_and_hashes num_bits num_hashes)"

definition with_bits_per_key :: "nat \<Rightarrow> nat \<Rightarrow> BloomFilter" where
  "with_bits_per_key num_keys bits_per_key =
     (let num_bits = max (num_keys * bits_per_key) 64;
          num_hashes = min 30 (max 1 ((69 * bits_per_key + 50) div 100))
      in with_bits_and_hashes num_bits (of_nat num_hashes))"

definition default_with_keys :: "nat \<Rightarrow> BloomFilter" where
  "default_with_keys num_keys = with_bits_per_key num_keys 10"

definition hash_with_seed :: "bytes \<Rightarrow> u32 \<Rightarrow> u32" where
  "hash_with_seed key seed =
     ucast (FnvHasher_write key
              (FnvHasher_write (u64_le (of_nat (length key))) (FnvHasher_new_with_seed seed)))"

text \<open>The loop computes a remainder by \<^verbatim>\<open>num_bits\<close> for every hash function.\<close>

definition hash_values :: "BloomFilter \<Rightarrow> bytes \<Rightarrow> nat list res" where
  "hash_values bf key =
     (let hash1 = hash_with_seed key 0xbc9f1d34;
          hash2 = hash_with_seed key 0xd0e89c7b
      in if bf_num_bits bf = 0 \<and> 0 < bf_num_hashes bf then Panic
         else Ok (map (\<lambda>i. unat (hash1 + of_nat i * hash2) mod bf_num_bits bf)
                   [0..<unat (bf_num_hashes bf)]))"

definition BloomFilter_set_bit :: "nat \<Rightarrow> BloomFilter \<Rightarrow> BloomFilter res" where
  "BloomFilter_set_bit pos bf =
     (if pos < bf_num_bits bf then
        (if pos div 8 < length (bf_bits bf)
         then Ok (bf\<lparr>bf_bits := (bf_bits bf)
                [pos div 8 := bf_bits bf ! (pos div 8) OR push_bit (pos mod 8) 1]\<rparr>)
         else Panic)
      else Ok bf)"

definition is_bit_set :: "BloomFilter \<Rightarrow> nat \<Rightarrow> bool res" where
  "is_bit_set bf pos =
     (if pos < bf_num_bits bf then
        (if pos div 8 < length (bf_bits bf)
         then Ok (bf_bits bf ! (pos div 8) AND push_bit (pos mod 8) 1 \<noteq> 0)
         else Panic)
      else Ok False)"

fun all_bits_set :: "BloomFilter \<Rightarrow> nat list \<Rightarrow> bool res" where
  "all_bits_set bf [] = Ok True"
| "all_bits_set bf (h # hs) =
     bind_res (is_bit_set bf h) (\<lambda>b. if \<not> b then Ok False else all_bits_set bf hs)"

definition may_contain :: "BloomFilter \<Rightarrow> bytes \<Rightarrow> bool res" where
  "may_contain bf key = bind_res (hash_values bf key) (all_bits_set bf)"

definition BloomFilter_add :: "bytes \<Rightarrow> BloomFilter \<Rightarrow> BloomFilter res" where
  "BloomFilter_add key bf =
     bind_res (hash_values bf key) (\<lambda>hashes. fold_res BloomFilter_set_bit hashes bf)"

definition BloomFilter_encode :: "BloomFilter \<Rightarrow> bytes" where
  "BloomFilter_encode bf =
     u32_le (bf_num_hashes bf) @ u64_le (of_nat (bf_num_bits bf)) @ bf_bits bf"

definition BloomFilter_decode :: "bytes \<Rightarrow> BloomFilter res" where
  "BloomFilter_decode data =
     (if length data < 12 then Err (Corruption ''Bloom filter data too short'')
      else
        let num_hashes = le_u32 (slice 0 4 data);
            num_bits = unat (le_u64 (slice 4 12 data));
            expected_bytes = (num_bits + 7) div 8
        in if length data \<noteq> 12 + expected_bytes
           then Err (Corruption ''Bloom filter size mismatch'')
           else Ok \<lparr>bf_bits = drop 12 data, bf_num_hashes = num_hashes, bf_num_bits = num_bits\<rparr>)"

definition BloomFilter_size :: "BloomFilter \<Rightarrow> nat" where
  "BloomFilter_size bf = length (bf_bits bf)"

section \<open>The interface of a filter\<close>

locale membership_filter =
  fixes wf :: "'f \<Rightarrow> bool" and insert_key :: "bytes \<Rightarrow> 'f \<Rightarrow> 'f res" and query :: "'f \<Rightarrow> bytes \<Rightarrow> bool res"
    and encode :: "'f \<Rightarrow> bytes" and decode :: "bytes \<Rightarrow> 'f res"
  assumes insert_ok: "wf f \<Longrightarrow> \<exists>f'. insert_key k f = Ok f' \<and> wf f'"
    and query_inserted: "wf f \<Longrightarrow> insert_key k f = Ok f' \<Longrightarrow> query f' k = Ok True"
    and query_mono: "wf f \<Longrightarrow> insert_key k f = Ok f' \<Longrightarrow> query f j = Ok True \<Longrightarrow> query f' j = Ok True"
    and decode_stored: "wf f \<Longrightarrow> decode (encode f) = Ok f"
begin

lemma insert_all_ok: "wf f \<Longrightarrow> \<exists>f'. fold_res insert_key ks f = Ok f' \<and> wf f'"
proof (induction ks arbitrary: f)
  case Nil
  then show ?case by simp
next
  case (Cons k ks)
  obtain f' where f': "insert_key k f = Ok f'" "wf f'" using insert_ok[OF Cons.prems] by blast
  then show ?case using Cons.IH[OF f'(2)] by simp
qed

lemma query_mono_all:
  "wf f \<Longrightarrow> fold_res insert_key ks f = Ok f' \<Longrightarrow> query f j = Ok True \<Longrightarrow> query f' j = Ok True"
proof (induction ks arbitrary: f)
  case Nil
  then show ?case by simp
next
  case (Cons k ks)
  obtain g where g: "insert_key k f = Ok g" "wf g" using insert_ok[OF Cons.prems(1)] by blast
  then show ?case using Cons query_mono by auto
qed

lemma no_false_negatives:
  assumes "wf f" and "fold_res insert_key ks f = Ok f'" and "k \<in> set ks"
  shows "query f' k = Ok True"
  using assms
proof (induction ks arbitrary: f)
  case Nil
  then show ?case by simp
next
  case (Cons j ks)
  obtain g where g: "insert_key j f = Ok g" "wf g" using insert_ok[OF Cons.prems(1)] by blast
  show ?case
  proof (cases "k \<in> set ks")
    case True
    then show ?thesis using Cons g by auto
  next
    case False
    then have "query g k = Ok True" using Cons.prems g query_inserted by auto
    then show ?thesis using query_mono_all[OF g(2)] Cons.prems g by auto
  qed
qed

lemma stored_filter:
  assumes "wf f" and "fold_res insert_key ks f = Ok f'"
  shows "decode (encode f') = Ok f' \<and> (\<forall>k \<in> set ks. query f' k = Ok True)"
  using assms no_false_negatives insert_all_ok[OF assms(1), of ks] decode_stored by auto

end

section \<open>Lemmas\<close>

definition BloomFilter_wf :: "BloomFilter \<Rightarrow> bool" where
  "BloomFilter_wf bf \<longleftrightarrow> 0 < bf_num_bits bf \<and> bf_num_bits bf < 2 ^ 64 \<and>
     length (bf_bits bf) = (bf_num_bits bf + 7) div 8"

lemma with_bits_and_hashes_wf:
  "0 < n \<Longrightarrow> n < 2 ^ 64 \<Longrightarrow> BloomFilter_wf (with_bits_and_hashes n h)"
  by (simp add: BloomFilter_wf_def with_bits_and_hashes_def)

lemma test_bit_iff: "(x :: u8) AND 2 ^ n = 0 \<longleftrightarrow> \<not> bit x n"
  by (rule and_exp_eq_0_iff_not_bit)

lemma byte_index: "pos < n \<Longrightarrow> pos div 8 < (n + 7) div (8 :: nat)"
  by (simp add: div_le_mono less_eq_div_iff_mult_less_eq Suc_le_eq[symmetric])

text \<open>The abstraction: the set of positions whose bit is set.\<close>

definition bit_positions :: "BloomFilter \<Rightarrow> nat set" where
  "bit_positions bf = {p. p < bf_num_bits bf \<and> bit (bf_bits bf ! (p div 8)) (p mod 8)}"

lemma is_bit_set_wf: "BloomFilter_wf bf \<Longrightarrow> is_bit_set bf p = Ok (p \<in> bit_positions bf)"
  using byte_index[of p "bf_num_bits bf"]
  by (auto simp: is_bit_set_def BloomFilter_wf_def bit_positions_def test_bit_iff)

lemma set_bit_wf:
  assumes wf: "BloomFilter_wf bf" and p: "p < bf_num_bits bf"
  obtains bf' where "BloomFilter_set_bit p bf = Ok bf'" "BloomFilter_wf bf'"
    "bit_positions bf' = insert p (bit_positions bf)" "bf_num_bits bf' = bf_num_bits bf"
    "bf_num_hashes bf' = bf_num_hashes bf"
proof -
  let ?b = "bf_bits bf ! (p div 8) OR push_bit (p mod 8) 1"
  let ?bf = "bf\<lparr>bf_bits := (bf_bits bf)[p div 8 := ?b]\<rparr>"
  have in_range: "p div 8 < length (bf_bits bf)"
    using byte_index[OF p] wf by (simp add: BloomFilter_wf_def)
  have same: "q div 8 = p div 8 \<and> q mod 8 = p mod 8 \<longleftrightarrow> q = p" for q
    by (metis div_mult_mod_eq)
  have bits: "bit ?b (q mod 8) \<longleftrightarrow> bit (bf_bits bf ! (p div 8)) (q mod 8) \<or> q mod 8 = p mod 8" for q
    by (auto simp: bit_or_iff bit_exp_iff)
  have "q \<in> bit_positions ?bf \<longleftrightarrow> q \<in> insert p (bit_positions bf)" for q
  proof (cases "q div 8 = p div 8")
    case True
    then show ?thesis using in_range p same[of q] bits[of q] by (auto simp: bit_positions_def)
  next
    case False
    then show ?thesis using in_range by (auto simp: bit_positions_def)
  qed
  then have "bit_positions ?bf = insert p (bit_positions bf)" by blast
  then show ?thesis
    using in_range p wf by (intro that[of ?bf]) (simp_all add: BloomFilter_set_bit_def BloomFilter_wf_def)
qed

lemma fold_set_bit_wf:
  assumes "BloomFilter_wf bf" and "\<forall>h \<in> set hs. h < bf_num_bits bf"
  shows "\<exists>bf'. fold_res BloomFilter_set_bit hs bf = Ok bf' \<and> BloomFilter_wf bf' \<and>
    bit_positions bf' = set hs \<union> bit_positions bf \<and> bf_num_bits bf' = bf_num_bits bf \<and>
    bf_num_hashes bf' = bf_num_hashes bf"
  using assms
proof (induction hs arbitrary: bf)
  case Nil
  then show ?case by simp
next
  case (Cons h hs)
  obtain b1 where b1: "BloomFilter_set_bit h bf = Ok b1" "BloomFilter_wf b1"
    "bit_positions b1 = insert h (bit_positions bf)" "bf_num_bits b1 = bf_num_bits bf"
    "bf_num_hashes b1 = bf_num_hashes bf"
    using set_bit_wf[OF Cons.prems(1)] Cons.prems(2) by auto
  then show ?case using Cons.IH[OF b1(2)] Cons.prems(2) by auto
qed

definition key_positions :: "u32 \<Rightarrow> nat \<Rightarrow> bytes \<Rightarrow> nat set" where
  "key_positions num_hashes num_bits key =
     (\<lambda>i. unat (hash_with_seed key 0xbc9f1d34 + of_nat i * hash_with_seed key 0xd0e89c7b) mod num_bits)
       ` {0..<unat num_hashes}"

lemma hash_values_wf:
  assumes "BloomFilter_wf bf"
  obtains hs where "hash_values bf key = Ok hs" "\<forall>h \<in> set hs. h < bf_num_bits bf"
    "set hs = key_positions (bf_num_hashes bf) (bf_num_bits bf) key"
  using assms
  by (intro that) (auto simp: hash_values_def BloomFilter_wf_def key_positions_def Let_def)

lemma all_bits_set_wf:
  "BloomFilter_wf bf \<Longrightarrow> all_bits_set bf hs = Ok (set hs \<subseteq> bit_positions bf)"
  by (induction hs) (auto simp: is_bit_set_wf)

lemma may_contain_wf:
  "BloomFilter_wf bf \<Longrightarrow>
     may_contain bf key = Ok (key_positions (bf_num_hashes bf) (bf_num_bits bf) key \<subseteq> bit_positions bf)"
  by (rule hash_values_wf[of bf key]) (auto simp: may_contain_def all_bits_set_wf)

lemma add_wf:
  assumes "BloomFilter_wf bf"
  obtains bf' where "BloomFilter_add key bf = Ok bf'" "BloomFilter_wf bf'"
    "bit_positions bf' = key_positions (bf_num_hashes bf) (bf_num_bits bf) key \<union> bit_positions bf"
    "bf_num_bits bf' = bf_num_bits bf" "bf_num_hashes bf' = bf_num_hashes bf"
proof -
  obtain hs where hs: "hash_values bf key = Ok hs" "\<forall>h \<in> set hs. h < bf_num_bits bf"
    "set hs = key_positions (bf_num_hashes bf) (bf_num_bits bf) key"
    using hash_values_wf[OF assms] by blast
  show ?thesis using fold_set_bit_wf[OF assms hs(2)] hs that by (auto simp: BloomFilter_add_def)
qed

lemma BloomFilter_decode_encode:
  assumes "BloomFilter_wf bf"
  shows "BloomFilter_decode (BloomFilter_encode bf) = Ok bf"
proof -
  have n: "unat (of_nat (bf_num_bits bf) :: u64) = bf_num_bits bf"
    using assms by (intro unat_of_nat_u64) (simp add: BloomFilter_wf_def)
  have "slice 0 4 (BloomFilter_encode bf) = u32_le (bf_num_hashes bf)"
    "slice 4 12 (BloomFilter_encode bf) = u64_le (of_nat (bf_num_bits bf))"
    by (simp_all add: BloomFilter_encode_def slice_def)
  then show ?thesis
    using assms n by (simp add: BloomFilter_decode_def Let_def BloomFilter_wf_def)
      (simp add: BloomFilter_encode_def)
qed

interpretation bloom: membership_filter BloomFilter_wf BloomFilter_add may_contain
  BloomFilter_encode BloomFilter_decode
proof unfold_locales
  fix f f' :: BloomFilter and k j :: bytes
  assume wf: "BloomFilter_wf f"
  obtain g where g: "BloomFilter_add k f = Ok g" "BloomFilter_wf g"
    "bit_positions g = key_positions (bf_num_hashes f) (bf_num_bits f) k \<union> bit_positions f"
    "bf_num_bits g = bf_num_bits f" "bf_num_hashes g = bf_num_hashes f"
    by (rule add_wf[OF wf])
  show "\<exists>f'. BloomFilter_add k f = Ok f' \<and> BloomFilter_wf f'" using g by blast
  show "BloomFilter_decode (BloomFilter_encode f) = Ok f" by (rule BloomFilter_decode_encode[OF wf])
  {
    assume "BloomFilter_add k f = Ok f'"
    then have "f' = g" using g(1) by simp
    then show "may_contain f' k = Ok True" using g by (simp add: may_contain_wf)
    show "may_contain f j = Ok True \<Longrightarrow> may_contain f' j = Ok True"
      using g wf \<open>f' = g\<close> by (auto simp: may_contain_wf)
  }
qed

lemma default_with_keys_wf: "num_keys * 10 < 2 ^ 64 \<Longrightarrow> BloomFilter_wf (default_with_keys num_keys)"
  by (simp add: default_with_keys_def with_bits_per_key_def with_bits_and_hashes_wf Let_def)

lemma BloomFilter_new_wf:
  assumes "ln_bits n p < 2 ^ 64"
  shows "BloomFilter_wf (BloomFilter_new ln_bits ln_hashes n p)"
  using assms by (simp add: BloomFilter_new_def optimal_num_bits_def with_bits_and_hashes_wf Let_def)

lemma bit_positions_new [simp]: "bit_positions (with_bits_and_hashes n h) = {}"
  using byte_index[of _ n] by (auto simp: bit_positions_def with_bits_and_hashes_def)

lemma add_all_positions:
  assumes "BloomFilter_wf bf"
  shows "\<exists>bf'. fold_res BloomFilter_add ks bf = Ok bf' \<and> BloomFilter_wf bf' \<and>
    bf_num_bits bf' = bf_num_bits bf \<and> bf_num_hashes bf' = bf_num_hashes bf \<and>
    bit_positions bf' = (\<Union>k \<in> set ks. key_positions (bf_num_hashes bf) (bf_num_bits bf) k) \<union> bit_positions bf"
  using assms
proof (induction ks arbitrary: bf)
  case Nil
  then show ?case by simp
next
  case (Cons k ks)
  obtain b1 where b1: "BloomFilter_add k bf = Ok b1" "BloomFilter_wf b1"
    "bit_positions b1 = key_positions (bf_num_hashes bf) (bf_num_bits bf) k \<union> bit_positions bf"
    "bf_num_bits b1 = bf_num_bits bf" "bf_num_hashes b1 = bf_num_hashes bf"
    by (rule add_wf[OF Cons.prems])
  then show ?case using Cons.IH[OF b1(2)] by auto
qed

section \<open>Properties\<close>

text \<open>
  C27. No false negatives: adding keys to a filter of any size that fits 64-bit counters
  succeeds, the filter survives storage unchanged, and it claims to contain every added key.
\<close>

theorem BloomFilter_no_false_negatives:
  assumes "num_keys * 10 < 2 ^ 64"
  shows "\<exists>bf. fold_res BloomFilter_add keys (default_with_keys num_keys) = Ok bf \<and>
    BloomFilter_decode (BloomFilter_encode bf) = Ok bf \<and> (\<forall>k \<in> set keys. may_contain bf k = Ok True)"
  using bloom.insert_all_ok[OF default_with_keys_wf[OF assms], of keys]
    bloom.stored_filter[OF default_with_keys_wf[OF assms], of keys] by blast

theorem BloomFilter_no_false_negatives_witness:
  "\<exists>bf. fold_res BloomFilter_add [[1, 2], []] (default_with_keys 2) = Ok bf \<and>
     may_contain bf [1, 2] = Ok True \<and> may_contain bf [] = Ok True"
  using BloomFilter_no_false_negatives[of 2 "[[1, 2], []]"] by auto

text \<open>
  C28. The answer of a filter created for any expected number of keys and false-positive rate,
  whatever the floating-point formulas return: it contains a key exactly when each of its
  positions is a position of some added key.
\<close>

theorem BloomFilter_may_contain_exact:
  assumes "ln_bits n p < 2 ^ 64" and "bf0 = BloomFilter_new ln_bits ln_hashes n p"
    and "fold_res BloomFilter_add keys bf0 = Ok bf"
  shows "may_contain bf key =
    Ok (key_positions (bf_num_hashes bf0) (bf_num_bits bf0) key \<subseteq>
        (\<Union>k \<in> set keys. key_positions (bf_num_hashes bf0) (bf_num_bits bf0) k))"
proof -
  have wf: "BloomFilter_wf bf0" using assms(1,2) by (simp add: BloomFilter_new_wf)
  have "bit_positions bf0 = {}" using assms(2) by (simp add: BloomFilter_new_def Let_def)
  with add_all_positions[OF wf, of keys] assms(3) show ?thesis by (auto simp: may_contain_wf)
qed

theorem BloomFilter_may_contain_exact_witness:
  "may_contain (BloomFilter_new (\<lambda>_ _. 70) (\<lambda>_ _. 3) 7 ()) [9] = Ok False"
  using BloomFilter_may_contain_exact[of "\<lambda>_ _. 70" 7 "()"
      "BloomFilter_new (\<lambda>_ _. 70) (\<lambda>_ _. 3) 7 ()" "\<lambda>_ _. 3" "[]" _ "[9]"]
  by (simp add: BloomFilter_new_def optimal_num_hashes_def with_bits_and_hashes_def Let_def key_positions_def)

text \<open>
  A stored filter with a bit count of zero is accepted by \<^verbatim>\<open>decode\<close>, and every query of it
  panics with a remainder by zero unless it also has no hash functions.
\<close>

theorem BloomFilter_zero_bits_panics:
  "\<exists>bf. BloomFilter_decode (u32_le h @ u64_le 0) = Ok bf \<and>
     may_contain bf key = (if h = 0 then Ok True else Panic)"
  by (auto simp: BloomFilter_decode_def slice_def Let_def may_contain_def hash_values_def word_neq_0_conv)

end
