(* ===== verification/Config.thy ===== *)
theory Config
  imports Errors
begin

text \<open>
  \<^verbatim>\<open>src/src/config.rs\<close>: the options of a database, their defaults, the three presets, the
  builder methods and validation. The build modelled is the one of the default features
  (\<^verbatim>\<open>snappy\<close> on, \<^verbatim>\<open>lz4-compression\<close> off), so the compression type has two values.
  An \<^verbatim>\<open>f64\<close> is NaN, an infinity, or \<open>m / 2 ^ e\<close>; decimal literals are their nearest
  double.
\<close>

section \<open>Definitions\<close>

datatype f64 = F64_NaN | F64_Inf bool | F64_Fin int nat

text \<open>\<^verbatim>\<open>x <= 0.0\<close> and \<^verbatim>\<open>x >= 1.0\<close>; comparisons with NaN are false.\<close>

fun f64_le_zero :: "f64 \<Rightarrow> bool" where
  "f64_le_zero F64_NaN = False"
| "f64_le_zero (F64_Inf positive) = (\<not> positive)"
| "f64_le_zero (F64_Fin m e) = (m \<le> 0)"

fun f64_ge_one :: "f64 \<Rightarrow> bool" where
  "f64_ge_one F64_NaN = False"
| "f64_ge_one (F64_Inf positive) = positive"
| "f64_ge_one (F64_Fin m e) = (2 ^ e \<le> m)"

definition f64_0_01 :: f64 where
  "f64_0_01 = F64_Fin 5764607523034235 59"

definition f64_0_001 :: f64 where
  "f64_0_001 = F64_Fin 1152921504606847 60"

datatype CompressionType = CompressionNone | Snappy

definition CompressionType_from_u8 :: "u8 \<Rightarrow> CompressionType option" where
  "CompressionType_from_u8 v =
     (if v = 0 then Some CompressionNone else if v = 1 then Some Snappy else None)"

fun CompressionType_as_u8 :: "CompressionType \<Rightarrow> u8" where
  "CompressionType_as_u8 CompressionNone = 0"
| "CompressionType_as_u8 Snappy = 1"

definition CompressionType_default :: CompressionType where
  "CompressionType_default = Snappy"

record Options =
  create_if_missing :: bool
  error_if_exists :: bool
  memtable_size :: nat
  level0_compaction_threshold :: nat
  level_size_multiplier :: nat
  base_level_size :: nat
  max_levels :: nat
  block_size :: nat
  block_cache_size :: nat
  use_bloom_filter :: bool
  bloom_filter_fp_rate :: f64
  compression :: CompressionType
  use_wal :: bool
  sync_wal :: bool
  compaction_threads :: nat

definition Options_default :: Options where
  "Options_default =
     \<lparr>create_if_missing = True, error_if_exists = False, memtable_size = 4 * 1024 * 1024,
      level0_compaction_threshold = 4, level_size_multiplier = 10,
      base_level_size = 10 * 1024 * 1024, max_levels = 7, block_size = 4 * 1024,
      block_cache_size = 8 * 1024 * 1024, use_bloom_filter = True,
      bloom_filter_fp_rate = f64_0_01, compression = Snappy, use_wal = True, sync_wal = True,
      compaction_threads = 1\<rparr>"

definition Options_for_testing :: Options where
  "Options_for_testing =
     \<lparr>create_if_missing = True, error_if_exists = False, memtable_size = 64 * 1024,
      level0_compaction_threshold = 2, level_size_multiplier = 10,
      base_level_size = 1024 * 1024, max_levels = 4, block_size = 1024,
      block_cache_size = 1024 * 1024, use_bloom_filter = False,
      bloom_filter_fp_rate = f64_0_01, compression = CompressionNone, use_wal = True,
      sync_wal = False, compaction_threads = 1\<rparr>"

definition Options_for_high_write_throughput :: Options where
  "Options_for_high_write_throughput =
     \<lparr>create_if_missing = True, error_if_exists = False, memtable_size = 16 * 1024 * 1024,
      level0_compaction_threshold = 8, level_size_multiplier = 10,
      base_level_size = 100 * 1024 * 1024, max_levels = 7, block_size = 16 * 1024,
      block_cache_size = 16 * 1024 * 1024, use_bloom_filter = True,
      bloom_filter_fp_rate = f64_0_01, compression = CompressionType_default, use_wal = True,
      sync_wal = False, compaction_threads = 2\<rparr>"

definition Options_for_high_read_throughput :: Options where
  "Options_for_high_read_throughput =
     \<lparr>create_if_missing = True, error_if_exists = False, memtable_size = 4 * 1024 * 1024,
      level0_compaction_threshold = 4, level_size_multiplier = 10,
      base_level_size = 10 * 1024 * 1024, max_levels = 7, block_size = 8 * 1024,
      block_cache_size = 64 * 1024 * 1024, use_bloom_filter = True,
      bloom_filter_fp_rate = f64_0_001, compression = CompressionType_default, use_wal = True,
      sync_wal = True, compaction_threads = 2\<rparr>"

text \<open>The builder methods; each takes the options by value and returns them with one field set.\<close>

datatype option_setting =
    SetCreateIfMissing bool | SetErrorIfExists bool | SetMemtableSize nat
  | SetLevel0CompactionThreshold nat | SetLevelSizeMultiplier nat | SetBaseLevelSize nat
  | SetMaxLevels nat | SetBlockSize nat | SetBlockCacheSize nat | SetUseBloomFilter bool
  | SetBloomFilterFpRate f64 | SetCompression CompressionType | SetUseWal bool
  | SetSyncWal bool | SetCompactionThreads nat

fun Options_set :: "option_setting \<Rightarrow> Options \<Rightarrow> Options" where
  "Options_set (SetCreateIfMissing v) opts = opts\<lparr>create_if_missing := v\<rparr>"
| "Options_set (SetErrorIfExists v) opts = opts\<lparr>error_if_exists := v\<rparr>"
| "Options_set (SetMemtableSize v) opts = opts\<lparr>memtable_size := v\<rparr>"
| "Options_set (SetLevel0CompactionThreshold v) opts = opts\<lparr>level0_compaction_threshold := v\<rparr>"
| "Options_set (SetLevelSizeMultiplier v) opts = opts\<lparr>level_size_multiplier := v\<rparr>"
| "Options_set (SetBaseLevelSize v) opts = opts\<lparr>base_level_size := v\<rparr>"
| "Options_set (SetMaxLevels v) opts = opts\<lparr>max_levels := v\<rparr>"
| "Options_set (SetBlockSize v) opts = opts\<lparr>block_size := v\<rparr>"
| "Options_set (SetBlockCacheSize v) opts = opts\<lparr>block_cache_size := v\<rparr>"
| "Options_set (SetUseBloomFilter v) opts = opts\<lparr>use_bloom_filter := v\<rparr>"
| "Options_set (SetBloomFilterFpRate v) opts = opts\<lparr>bloom_filter_fp_rate := v\<rparr>"
| "Options_set (SetCompression v) opts = opts\<lparr>compression := v\<rparr>"
| "Options_set (SetUseWal v) opts = opts\<lparr>use_wal := v\<rparr>"
| "Options_set (SetSyncWal v) opts = opts\<lparr>sync_wal := v\<rparr>"
| "Options_set (SetCompactionThreads v) opts = opts\<lparr>compaction_threads := v\<rparr>"

definition Options_validate :: "Options \<Rightarrow> unit res" where
  "Options_validate opts =
     (if memtable_size opts = 0 then Err (InvalidArgument ''memtable_size must be > 0'')
      else if block_size opts = 0 then Err (InvalidArgument ''block_size must be > 0'')
      else if max_levels opts = 0 then Err (InvalidArgument ''max_levels must be > 0'')
      else if f64_le_zero (bloom_filter_fp_rate opts) \<or> f64_ge_one (bloom_filter_fp_rate opts)
        then Err (InvalidArgument ''bloom_filter_fp_rate must be between 0 and 1'')
      else if level0_compaction_threshold opts = 0
        then Err (InvalidArgument ''level0_compaction_threshold must be > 0'')
      else if level_size_multiplier opts = 0
        then Err (InvalidArgument ''level_size_multiplier must be > 0'')
      else if base_level_size opts = 0
        then Err (InvalidArgument ''base_level_size must be > 0'')
      else Ok ())"

text \<open>A setting that validation has no objection to.\<close>

fun acceptable_setting :: "option_setting \<Rightarrow> bool" where
  "acceptable_setting (SetMemtableSize v) = (0 < v)"
| "acceptable_setting (SetLevel0CompactionThreshold v) = (0 < v)"
| "acceptable_setting (SetLevelSizeMultiplier v) = (0 < v)"
| "acceptable_setting (SetBaseLevelSize v) = (0 < v)"
| "acceptable_setting (SetMaxLevels v) = (0 < v)"
| "acceptable_setting (SetBlockSize v) = (0 < v)"
| "acceptable_setting (SetBloomFilterFpRate v) = (\<not> f64_le_zero v \<and> \<not> f64_ge_one v)"
| "acceptable_setting _ = True"

section \<open>Lemmas\<close>

lemma CompressionType_round_trip [simp]:
  "CompressionType_from_u8 (CompressionType_as_u8 c) = Some c"
  by (cases c) (simp_all add: CompressionType_from_u8_def)

lemma Options_validate_Ok_iff:
  "Options_validate opts = Ok () \<longleftrightarrow>
     0 < memtable_size opts \<and> 0 < block_size opts \<and> 0 < max_levels opts \<and>
     \<not> f64_le_zero (bloom_filter_fp_rate opts) \<and> \<not> f64_ge_one (bloom_filter_fp_rate opts) \<and>
     0 < level0_compaction_threshold opts \<and> 0 < level_size_multiplier opts \<and>
     0 < base_level_size opts"
  by (auto simp: Options_validate_def)

lemma Options_validate_no_panic: "Options_validate opts \<noteq> Panic"
  by (simp add: Options_validate_def)

lemma Options_validate_set:
  "Options_validate opts = Ok () \<Longrightarrow>
     Options_validate (Options_set s opts) = Ok () \<longleftrightarrow> acceptable_setting s"
  by (cases s) (auto simp: Options_validate_Ok_iff)

lemma Options_presets_valid:
  "opts \<in> {Options_default, Options_for_testing, Options_for_high_write_throughput,
     Options_for_high_read_throughput} \<Longrightarrow> Options_validate opts = Ok ()"
  by (auto simp: Options_validate_Ok_iff Options_default_def Options_for_testing_def
      Options_for_high_write_throughput_def Options_for_high_read_throughput_def
      f64_0_01_def f64_0_001_def)

section \<open>Properties\<close>

text \<open>
  Starting from options that validate (all four presets do), a builder call keeps them valid
  exactly when the new value is acceptable for its field.
\<close>

theorem Options_builder_valid:
  assumes "Options_validate opts = Ok ()"
  shows "Options_validate (Options_set s opts) = Ok () \<longleftrightarrow> acceptable_setting s"
  by (rule Options_validate_set[OF assms])

theorem Options_builder_valid_witness:
  "Options_validate (Options_set (SetBlockSize 0) Options_default) \<noteq> Ok () \<and>
   Options_validate (Options_set (SetBlockSize 1) Options_for_testing) = Ok ()"
  using Options_builder_valid[OF Options_presets_valid[of Options_default], of "SetBlockSize 0"]
    Options_builder_valid[OF Options_presets_valid[of Options_for_testing], of "SetBlockSize 1"]
  by simp

end
