(* ===== verification/SST_Builder.thy ===== *)
theory SST_Builder
  imports SST_Index Bloom Config
begin

text \<open>
  \<^verbatim>\<open>src/src/sstable/builder.rs\<close>: writing a table file. The external functions of the engine are
  collected in the record \<open>ext\<close>: the CRC-32 of \<^verbatim>\<open>crc32fast\<close>, the Snappy encoder and decoder
  (their error is its text), the hash of a path for file names without a number, and the
  floating-point formulas of the Bloom filter at the rate 0.01. \<open>table_layout\<close> describes the file
  that a builder without write failures produces; the reader is verified against it.
\<close>

section \<open>Definitions\<close>

record ext =
  x_crc :: "bytes \<Rightarrow> u32"
  x_compress :: "bytes \<Rightarrow> string + bytes"
  x_decompress :: "bytes \<Rightarrow> string + bytes"
  x_path_hash :: "string \<Rightarrow> u64"
  x_ln_bits :: "nat \<Rightarrow> nat"
  x_ln_hashes :: "nat \<Rightarrow> nat \<Rightarrow> u32"

record SSTableBuilder =
  sb_writer :: BufWriter
  sb_data :: BlockBuilder
  sb_index :: IndexBlockBuilder
  sb_last_key :: bytes
  sb_offset :: u64
  sb_num_entries :: u64
  sb_block_size :: nat
  sb_compression :: CompressionType
  sb_pending :: "BlockHandle option"
  sb_bloom :: "BloomFilter option"
  sb_enable_bloom :: bool

definition SSTableBuilder_new :: "wfile res \<Rightarrow> SSTableBuilder res" where
  "SSTableBuilder_new created =
     bind_res created (\<lambda>file.
       Ok \<lparr>sb_writer = BufWriter_new file, sb_data = BlockBuilder_new 16, sb_index = IndexBlockBuilder_new,
           sb_last_key = [], sb_offset = 0, sb_num_entries = 0, sb_block_size = DEFAULT_BLOCK_SIZE,
           sb_compression = CompressionNone, sb_pending = None, sb_bloom = None, sb_enable_bloom = True\<rparr>)"

definition SSTableBuilder_set_block_size :: "nat \<Rightarrow> SSTableBuilder \<Rightarrow> SSTableBuilder" where
  "SSTableBuilder_set_block_size sz sb = sb\<lparr>sb_block_size := sz\<rparr>"

definition SSTableBuilder_set_compression :: "CompressionType \<Rightarrow> SSTableBuilder \<Rightarrow> SSTableBuilder" where
  "SSTableBuilder_set_compression c sb = sb\<lparr>sb_compression := c\<rparr>"

definition SSTableBuilder_set_bloom_filter_enabled :: "bool \<Rightarrow> SSTableBuilder \<Rightarrow> SSTableBuilder" where
  "SSTableBuilder_set_bloom_filter_enabled enabled sb = sb\<lparr>sb_enable_bloom := enabled\<rparr>"

definition SSTableBuilder_set_expected_keys :: "ext \<Rightarrow> nat \<Rightarrow> SSTableBuilder \<Rightarrow> SSTableBuilder" where
  "SSTableBuilder_set_expected_keys x num_keys sb =
     (if sb_enable_bloom sb
      then sb\<lparr>sb_bloom := Some (BloomFilter_new (\<lambda>n _. x_ln_bits x n) (x_ln_hashes x) num_keys ())\<rparr>
      else sb)"

text \<open>The pending index entry, added before the next key or at the end.\<close>

definition add_pending_entry :: "SSTableBuilder \<Rightarrow> SSTableBuilder res" where
  "add_pending_entry sb =
     (case sb_pending sb of
        None \<Rightarrow> Ok sb
      | Some handle \<Rightarrow>
          bind_res (IndexBlockBuilder_add_entry (IndexEntry_new (sb_last_key sb) handle) (sb_index sb))
            (\<lambda>ib. Ok (sb\<lparr>sb_index := ib, sb_pending := None\<rparr>)))"

text \<open>A block with its trailer: the data, the compression type, the checksum.\<close>

definition write_block :: "ext \<Rightarrow> bytes \<Rightarrow> CompressionType \<Rightarrow> BufWriter \<Rightarrow> unit res \<times> BufWriter" where
  "write_block x data c w =
     try_st (BufWriter_write_all data w) (\<lambda>_ w1.
     try_st (BufWriter_write_all [CompressionType_as_u8 c] w1) (\<lambda>_ w2.
       BufWriter_write_all (u32_le (x_crc x data)) w2))"

definition compress_block :: "ext \<Rightarrow> CompressionType \<Rightarrow> bytes \<Rightarrow> bytes res" where
  "compress_block x c data =
     (case c of
        CompressionNone \<Rightarrow> Ok data
      | Snappy \<Rightarrow> (case x_compress x data of
            Inl msg \<Rightarrow> Err (Internal (''Compression failed: '' @ msg))
          | Inr z \<Rightarrow> Ok z))"

definition flush_data_block :: "ext \<Rightarrow> SSTableBuilder \<Rightarrow> unit res \<times> SSTableBuilder" where
  "flush_data_block x sb0 =
     (if BlockBuilder_is_empty (sb_data sb0) then (Ok (), sb0)
      else
        let block_data = BlockBuilder_finish (sb_data sb0);
            sb = sb0\<lparr>sb_data := BlockBuilder_new 16\<rparr>
        in try_st (compress_block x (sb_compression sb) block_data, sb) (\<lambda>compressed sb.
          bind_st (write_block x compressed (sb_compression sb) (sb_writer sb))
            (\<lambda>_ w.
               let block_offset = sb_offset sb;
                   block_size = of_nat (length compressed)
               in (Ok (), sb\<lparr>sb_writer := w, sb_offset := sb_offset sb + (block_size + 5),
                             sb_pending := Some (BlockHandle_new block_offset (block_size + 5))\<rparr>))
            (\<lambda>w. sb\<lparr>sb_writer := w\<rparr>)))"

definition add_to_bloom :: "bytes \<Rightarrow> SSTableBuilder \<Rightarrow> SSTableBuilder res" where
  "add_to_bloom key sb =
     (if sb_enable_bloom sb then
        let filter = (case sb_bloom sb of None \<Rightarrow> default_with_keys 10000 | Some f \<Rightarrow> f) in
        bind_res (BloomFilter_add key filter) (\<lambda>f. Ok (sb\<lparr>sb_bloom := Some f\<rparr>))
      else Ok sb)"

definition SSTableBuilder_add :: "ext \<Rightarrow> bytes \<Rightarrow> bytes \<Rightarrow> SSTableBuilder \<Rightarrow> unit res \<times> SSTableBuilder" where
  "SSTableBuilder_add x key v sb =
     (if key = [] then (Err (InvalidArgument ''Key cannot be empty''), sb)
      else if sb_last_key sb \<noteq> [] \<and> key \<le> sb_last_key sb
      then (Err (InvalidArgument ''Keys must be added in sorted order''), sb)
      else
        try_st (add_pending_entry sb, sb) (\<lambda>sb1 _.
        try_st (BlockBuilder_add key v (sb_data sb1), sb1) (\<lambda>b _.
        let sb2 = sb1\<lparr>sb_data := b, sb_last_key := key, sb_num_entries := sb_num_entries sb1 + 1\<rparr> in
        try_st (add_to_bloom key sb2, sb2) (\<lambda>sb3 _.
          if sb_block_size sb3 \<le> BlockBuilder_current_size (sb_data sb3)
          then flush_data_block x sb3 else (Ok (), sb3)))))"

definition SSTableBuilder_finish_body :: "ext \<Rightarrow> SSTableBuilder \<Rightarrow> u64 res \<times> BufWriter" where
  "SSTableBuilder_finish_body x sb0 =
     bind_st (flush_data_block x sb0) (\<lambda>_ sb1.
     bind_st (add_pending_entry sb1, sb1) (\<lambda>sb _.
       let meta_block_data = (case sb_bloom sb of Some f \<Rightarrow> BloomFilter_encode f | None \<Rightarrow> replicate 8 0) in
       try_st (write_block x meta_block_data CompressionNone (sb_writer sb)) (\<lambda>_ w1.
       let meta_block_size = of_nat (length meta_block_data) + 5;
           meta_index_offset = sb_offset sb + meta_block_size;
           meta_index_data = replicate 8 0
       in try_st (write_block x meta_index_data CompressionNone w1) (\<lambda>_ w2.
       let meta_index_size = of_nat (length meta_index_data) + 5;
           meta_handle = BlockHandle_new meta_index_offset meta_index_size;
           index_offset = sb_offset sb + meta_block_size + meta_index_size;
           index_data = IndexBlockBuilder_finish (sb_index sb)
       in try_st (write_block x index_data CompressionNone w2) (\<lambda>_ w3.
       let index_size = of_nat (length index_data) + 5;
           ix_handle = BlockHandle_new index_offset index_size
       in try_st (Footer_write_to (Footer_new meta_handle ix_handle) w3) (\<lambda>_ w4.
          try_st (BufWriter_flush w4) (\<lambda>_ w5.
            (Ok (index_offset + index_size + of_nat FOOTER_SIZE), w5)))))))
       sb_writer) sb_writer"

text \<open>The builder is consumed: its writer is dropped, which flushes it once more.\<close>

definition SSTableBuilder_finish :: "ext \<Rightarrow> SSTableBuilder \<Rightarrow> u64 res \<times> wfile" where
  "SSTableBuilder_finish x sb =
     (case SSTableBuilder_finish_body x sb of (r, w) \<Rightarrow> (r, bw_file (snd (BufWriter_flush_buf w))))"

definition SSTableBuilder_current_size :: "SSTableBuilder \<Rightarrow> u64" where
  "SSTableBuilder_current_size sb = sb_offset sb + of_nat (BlockBuilder_current_size (sb_data sb))"

definition SSTableBuilder_abandon :: "SSTableBuilder \<Rightarrow> unit res \<times> wfile" where
  "SSTableBuilder_abandon sb = (Ok (), bw_file (snd (BufWriter_flush_buf (sb_writer sb))))"

section \<open>The layout of a table\<close>

text \<open>
  A stored data block is described by its entries and the bytes written for it (after
  compression).
\<close>

type_synonym stored_block = "kv list \<times> bytes"

definition raw_block :: "ext \<Rightarrow> CompressionType \<Rightarrow> bytes \<Rightarrow> bytes" where
  "raw_block x c raw = raw @ [CompressionType_as_u8 c] @ u32_le (x_crc x raw)"

definition data_section :: "ext \<Rightarrow> CompressionType \<Rightarrow> stored_block list \<Rightarrow> bytes" where
  "data_section x c bs = concat (map (\<lambda>(es, raw). raw_block x c raw) bs)"

fun index_of :: "nat \<Rightarrow> stored_block list \<Rightarrow> IndexEntry list" where
  "index_of off [] = []"
| "index_of off ((es, raw) # bs) =
     IndexEntry_new (fst (last es)) (BlockHandle_new (of_nat off) (of_nat (length raw) + 5)) #
     index_of (off + length raw + 5) bs"

definition block_stored :: "ext \<Rightarrow> CompressionType \<Rightarrow> stored_block \<Rightarrow> bool" where
  "block_stored x c sb \<longleftrightarrow> fst sb \<noteq> [] \<and>
     (\<exists>b. block_rep b (fst sb) \<and> compress_block x c (BlockBuilder_finish b) = Ok (snd sb))"

definition stored_entries :: "stored_block list \<Rightarrow> kv list" where
  "stored_entries bs = concat (map fst bs)"

definition kv_size :: "kv list \<Rightarrow> nat" where
  "kv_size es = sum_list (map (\<lambda>(k, v). length k + length v + 16) es)"

text \<open>
  What \<^verbatim>\<open>snap\<close> documents: inputs below 4 GiB are compressed, the output is no longer than
  \<^verbatim>\<open>max_compress_len\<close>, and decompression inverts it.
\<close>

definition snappy_law :: "ext \<Rightarrow> bool" where
  "snappy_law x \<longleftrightarrow>
     (\<forall>d. length d < 2 ^ 32 \<longrightarrow> 
        (\<exists>z. x_compress x d = Inr z \<and> length z \<le> 32 + length d + length d div 6 \<and>
             x_decompress x z = Inr d))"

definition bloom_covers :: "BloomFilter option \<Rightarrow> bytes set \<Rightarrow> bool" where
  "bloom_covers bf keys \<longleftrightarrow>
     (case bf of None \<Rightarrow> True | Some f \<Rightarrow> BloomFilter_wf f \<and> (\<forall>k \<in> keys. may_contain f k = Ok True))"

definition index_holds :: "IndexBlockBuilder \<Rightarrow> IndexEntry list \<Rightarrow> bool" where
  "index_holds ib es \<longleftrightarrow> block_rep ib (index_kvs es) \<and> bb_interval ib = 1"

definition table_layout :: "ext \<Rightarrow> CompressionType \<Rightarrow> stored_block list \<Rightarrow> bytes \<Rightarrow> bytes \<Rightarrow> bool" where
  "table_layout x c bs meta file \<longleftrightarrow>
     (\<exists>ib. index_holds ib (index_of 0 bs) \<and>
       file = data_section x c bs @ raw_block x CompressionNone meta @
         raw_block x CompressionNone (replicate 8 0) @
         raw_block x CompressionNone (IndexBlockBuilder_finish ib) @
         Footer_encode (Footer_new
           (BlockHandle_new (of_nat (length (data_section x c bs) + length meta + 5)) 13)
           (BlockHandle_new (of_nat (length (data_section x c bs) + length meta + 18))
              (of_nat (length (IndexBlockBuilder_finish ib) + 5)))))"

section \<open>Lemmas on the layout\<close>

lemma length_raw_block [simp]: "length (raw_block x c raw) = length raw + 5"
  by (simp add: raw_block_def)

lemma data_section_simps [simp]:
  "data_section x c [] = []"
  "data_section x c (b # bs) = raw_block x c (snd b) @ data_section x c bs"
  "data_section x c (bs @ bs') = data_section x c bs @ data_section x c bs'"
  by (simp_all add: data_section_def case_prod_beta)

lemma stored_entries_simps [simp]:
  "stored_entries [] = []" "stored_entries (b # bs) = fst b @ stored_entries bs"
  "stored_entries (bs @ bs') = stored_entries bs @ stored_entries bs'"
  by (simp_all add: stored_entries_def)

lemma index_of_append:
  "index_of off (bs @ bs') = index_of off bs @ index_of (off + length (data_section x c bs)) bs'"
  by (induction off bs rule: index_of.induct) (simp_all add: add.assoc)

lemma length_index_of [simp]: "length (index_of off bs) = length bs"
  by (induction off bs rule: index_of.induct) simp_all

lemma keys_index_of: "map ie_key (index_of off bs) = map (fst \<circ> last \<circ> fst) bs"
  by (induction off bs rule: index_of.induct) (simp_all add: IndexEntry_new_def)

lemma kv_size_append [simp]: "kv_size (xs @ ys) = kv_size xs + kv_size ys"
  by (simp add: kv_size_def)

lemma kv_size_simps [simp]:
  "kv_size [] = 0" "kv_size (e # es) = length (fst e) + length (snd e) + 16 + kv_size es"
  by (simp_all add: kv_size_def case_prod_beta)

lemma length_le_kv_size: "16 * length es \<le> kv_size es"
  by (induction es) auto

lemma entries_fit_kv_size: "kv_size es < 2 ^ 32 \<Longrightarrow> entries_fit es"
  by (induction es) (auto simp: entries_fit_def)

lemma encodes_length: "encodes p buf es \<Longrightarrow> length buf + 4 * length es \<le> kv_size es"
proof (induction es arbitrary: p buf)
  case Nil
  then show ?case by simp
next
  case (Cons e es)
  obtain k v where e: "e = (k, v)" by (cases e)
  obtain s rest where "buf = block_entry_bytes s k v @ rest" "encodes k rest es"
    using Cons.prems by (auto simp: e)
  then show ?case using Cons.IH[of k rest] by (simp add: e)
qed

lemma finish_length:
  assumes "block_rep b es"
  shows "length (BlockBuilder_finish b) \<le> kv_size es + 8"
  using assms encodes_length[of "[]" "bb_buffer b" es]
  by (simp add: block_rep_def BlockBuilder_finish_def length_concat_u32)

lemma compress_block_ok:
  assumes "c = Snappy \<longrightarrow> snappy_law x" and "length d < 2 ^ 32"
  obtains z where "compress_block x c d = Ok z"
  using assms by (cases c) (auto simp: compress_block_def snappy_law_def)

lemma write_block_ok:
  assumes "fault_free w"
  shows "\<exists>w'. write_block x data c w = (Ok (), w') \<and> bw_stream w' = bw_stream w @ raw_block x c data \<and>
    fault_free w'"
proof -
  obtain w1 where w1: "BufWriter_write_all data w = (Ok (), w1)" "bw_stream w1 = bw_stream w @ data"
    "fault_free w1" using BufWriter_write_all_ok[OF assms] by blast
  obtain w2 where w2: "BufWriter_write_all [CompressionType_as_u8 c] w1 = (Ok (), w2)"
    "bw_stream w2 = bw_stream w1 @ [CompressionType_as_u8 c]" "fault_free w2"
    using BufWriter_write_all_ok[OF w1(3)] by blast
  obtain w3 where w3: "BufWriter_write_all (u32_le (x_crc x data)) w2 = (Ok (), w3)"
    "bw_stream w3 = bw_stream w2 @ u32_le (x_crc x data)" "fault_free w3"
    using BufWriter_write_all_ok[OF w2(3)] by blast
  show ?thesis using w1 w2 w3 by (simp add: write_block_def raw_block_def)
qed

section \<open>The state of a builder\<close>

definition sb_rep :: "ext \<Rightarrow> SSTableBuilder \<Rightarrow> stored_block list \<Rightarrow> kv list \<Rightarrow> bool" where
  "sb_rep x sb bs cur \<longleftrightarrow>
     fault_free (sb_writer sb) \<and>
     bw_stream (sb_writer sb) = data_section x (sb_compression sb) bs \<and>
     sb_offset sb = of_nat (length (data_section x (sb_compression sb) bs)) \<and>
     block_rep (sb_data sb) cur \<and>
     sb_last_key sb = fst (last (([], []) # stored_entries bs @ cur)) \<and>
     kv_sorted (stored_entries bs @ cur) \<and>
     (\<forall>b \<in> set bs. block_stored x (sb_compression sb) b) \<and>
     (case sb_pending sb of
        None \<Rightarrow> index_holds (sb_index sb) (index_of 0 bs)
      | Some h \<Rightarrow> cur = [] \<and> (\<exists>bs' b. bs = bs' @ [b] \<and> index_holds (sb_index sb) (index_of 0 bs') \<and>
          index_of (length (data_section x (sb_compression sb) bs')) [b] = [IndexEntry_new (sb_last_key sb) h])) \<and>
     bloom_covers (sb_bloom sb) (fst ` set (stored_entries bs @ cur)) \<and>
     (\<not> sb_enable_bloom sb \<longrightarrow> sb_bloom sb = None) \<and>
     (sb_enable_bloom sb \<and> stored_entries bs @ cur \<noteq> [] \<longrightarrow> sb_bloom sb \<noteq> None)"

lemma index_holds_add:
  assumes ih: "index_holds ib es" and e: "kv_sorted (index_kvs (es @ [e]))"
  obtains ib' where "IndexBlockBuilder_add_entry e ib = Ok ib'" "index_holds ib' (es @ [e])"
proof -
  have "index_kvs (es @ [e]) = index_kvs es @ [(ie_key e, IndexEntry_encode_value e)]"
    by (simp add: index_kvs_def IndexEntry_encode_value_def)
  then show ?thesis
    using block_rep_add[of ib "index_kvs es" "ie_key e" "IndexEntry_encode_value e"] ih e that
    by (auto simp: index_holds_def IndexBlockBuilder_add_entry_def)
qed

lemma last_in_block: "es \<noteq> [] \<Longrightarrow> fst (last es) \<in> fst ` set es"
  by (intro imageI) simp

lemma kv_sorted_append:
  "kv_sorted (xs @ ys) \<longleftrightarrow> kv_sorted xs \<and> kv_sorted ys \<and> (\<forall>a \<in> set xs. \<forall>b \<in> set ys. fst a < fst b)"
  by (auto simp: kv_sorted_def sorted_wrt_append)

lemma index_sorted:
  assumes "kv_sorted (stored_entries bs)" and "\<forall>b \<in> set bs. fst b \<noteq> []"
  shows "kv_sorted (index_kvs (index_of off bs))"
  using assms
proof (induction bs arbitrary: off)
  case Nil
  then show ?case by (simp add: kv_sorted_def index_kvs_def)
next
  case (Cons b bs)
  obtain es raw where b: "b = (es, raw)" by (cases b)
  have keys: "fst ` set (index_kvs (index_of o' bs)) = (fst \<circ> last \<circ> fst) ` set bs" for o'
    using arg_cong[OF keys_index_of[of o' bs], of set] by (simp add: index_kvs_def image_image)
  have mem: "last (fst b') \<in> set (stored_entries bs)" if "b' \<in> set bs" for b'
    using that Cons.prems(2) by (auto simp: stored_entries_def intro!: bexI[of _ b'])
  have "fst (last es) < fst e" if "e \<in> set (index_kvs (index_of (off + length raw + 5) bs))" for e
  proof -
    have "fst e \<in> (fst \<circ> last \<circ> fst) ` set bs"
      using that keys[of "off + length raw + 5"] by (metis image_eqI)
    then obtain b' where b': "b' \<in> set bs" "fst e = fst (last (fst b'))" by auto
    have "last es \<in> set es" using Cons.prems(2) by (simp add: b)
    then show ?thesis
      using Cons.prems(1) mem[OF b'(1)] b'(2) by (auto simp: b kv_sorted_append)
  qed
  moreover have "fst (last es) \<noteq> []"
  proof -
    have "[] \<notin> fst ` set es" "es \<noteq> []" using Cons.prems by (auto simp: b kv_sorted_def image_Un)
    then show ?thesis using last_in_block by metis
  qed
  moreover have "kv_sorted (index_kvs (index_of (off + length raw + 5) bs))"
    using Cons.IH Cons.prems by (simp add: b kv_sorted_append)
  moreover have "index_kvs (index_of off (b # bs)) =
      [(fst (last es), BlockHandle_encode (BlockHandle_new (of_nat off) (of_nat (length raw) + 5)))] @
      index_kvs (index_of (off + length raw + 5) bs)"
    by (simp add: b index_kvs_def IndexEntry_new_def)
  ultimately show ?case by (simp only: kv_sorted_append) (auto simp: kv_sorted_def)
qed

lemma add_pending_rep:
  assumes rep: "sb_rep x sb bs cur"
  obtains sb' where "add_pending_entry sb = Ok sb'" "sb_rep x sb' bs cur" "sb_pending sb' = None"
    "sb_last_key sb' = sb_last_key sb" "sb_data sb' = sb_data sb" "sb_compression sb' = sb_compression sb"
    "sb_enable_bloom sb' = sb_enable_bloom sb" "sb_bloom sb' = sb_bloom sb" "sb_block_size sb' = sb_block_size sb"
proof (cases "sb_pending sb")
  case None
  then show ?thesis using rep that[of sb] by (simp add: add_pending_entry_def)
next
  case (Some h)
  let ?e = "IndexEntry_new (sb_last_key sb) h"
  obtain bs' b where bs: "bs = bs' @ [b]" "index_holds (sb_index sb) (index_of 0 bs')"
    "index_of (length (data_section x (sb_compression sb) bs')) [b] = [?e]"
    using rep Some by (auto simp: sb_rep_def)
  have all: "index_of 0 bs = index_of 0 bs' @ [?e]"
    using index_of_append[of 0 bs' "[b]" x "sb_compression sb"] bs(1,3) by simp
  have "kv_sorted (index_kvs (index_of 0 bs))"
    using rep by (intro index_sorted) (auto simp: sb_rep_def kv_sorted_append block_stored_def)
  then obtain ib where ib: "IndexBlockBuilder_add_entry ?e (sb_index sb) = Ok ib" "index_holds ib (index_of 0 bs)"
    using index_holds_add[OF bs(2), of ?e] all by auto
  show ?thesis
    using rep Some ib by (intro that[of "sb\<lparr>sb_index := ib, sb_pending := None\<rparr>"])
      (simp add: add_pending_entry_def, auto simp: sb_rep_def split: if_splits)
qed

lemma flush_rep:
  assumes rep: "sb_rep x sb bs cur" and pend: "cur \<noteq> [] \<Longrightarrow> sb_pending sb = None"
    and snap: "sb_compression sb = Snappy \<longrightarrow> snappy_law x"
    and size: "kv_size cur + 8 < 2 ^ 32"
  obtains sb' bs' where "flush_data_block x sb = (Ok (), sb')" "sb_rep x sb' bs' []"
    "stored_entries bs' = stored_entries bs @ cur" "sb_compression sb' = sb_compression sb"
    "sb_enable_bloom sb' = sb_enable_bloom sb" "sb_bloom sb' = sb_bloom sb" "sb_block_size sb' = sb_block_size sb"
proof -
  have br: "block_rep (sb_data sb) cur" using rep by (simp add: sb_rep_def)
  have empty: "BlockBuilder_is_empty (sb_data sb) \<longleftrightarrow> cur = []"
    using br by (cases cur) (auto simp: block_rep_def BlockBuilder_is_empty_def block_entry_bytes_def)
  show ?thesis
  proof (cases "cur = []")
    case True
    then show ?thesis using rep empty that[of sb bs] by (simp add: flush_data_block_def)
  next
    case False
    let ?c = "sb_compression sb" and ?plain = "BlockBuilder_finish (sb_data sb)"
    have "length ?plain < 2 ^ 32" using finish_length[OF br] size by simp
    then obtain z where z: "compress_block x ?c ?plain = Ok z" using compress_block_ok[OF snap] by blast
    obtain w where w: "write_block x z ?c (sb_writer sb) = (Ok (), w)"
      "bw_stream w = bw_stream (sb_writer sb) @ raw_block x ?c z" "fault_free w"
      using write_block_ok[of "sb_writer sb" x z ?c] rep by (auto simp: sb_rep_def)
    let ?h = "BlockHandle_new (sb_offset sb) (of_nat (length z) + 5)"
    define sb' where "sb' = sb\<lparr>sb_data := BlockBuilder_new 16, sb_writer := w,
      sb_offset := sb_offset sb + (of_nat (length z) + 5), sb_pending := Some ?h\<rparr>"
    have fl: "flush_data_block x sb = (Ok (), sb')"
      using False empty z w(1) by (simp add: flush_data_block_def sb'_def Let_def)
    have stored: "block_stored x ?c (cur, z)" using False br z by (auto simp: block_stored_def)
    have last: "fst (last cur) = sb_last_key sb" using rep False by (simp add: sb_rep_def)
    have rep': "sb_rep x sb' (bs @ [(cur, z)]) []"
      using rep w stored last pend[OF False] False
      by (auto simp: sb_rep_def sb'_def block_rep_new ac_simps)
    show ?thesis by (rule that[OF fl rep']) (simp_all add: sb'_def)
  qed
qed

lemma bloom_covers_add:
  assumes "bloom_covers (Some f) keys" 
  obtains f' where "BloomFilter_add k f = Ok f'" "bloom_covers (Some f') (insert k keys)"
proof -
  have wf: "BloomFilter_wf f" and cov: "\<forall>k \<in> keys. may_contain f k = Ok True"
    using assms by (simp_all add: bloom_covers_def)
  obtain f' where f': "BloomFilter_add k f = Ok f'" "BloomFilter_wf f'" using bloom.insert_ok[OF wf] by blast
  then show ?thesis
    using bloom.query_inserted[OF wf f'(1)] bloom.query_mono[OF wf f'(1)] cov
    by (intro that) (auto simp: bloom_covers_def)
qed

lemma add_to_bloom_rep:
  assumes covers: "bloom_covers (sb_bloom sb) keys" and off: "\<not> sb_enable_bloom sb \<longrightarrow> sb_bloom sb = None"
    and empty: "sb_bloom sb = None \<Longrightarrow> sb_enable_bloom sb \<Longrightarrow> keys = {}"
  obtains bf where "add_to_bloom k sb = Ok (sb\<lparr>sb_bloom := bf\<rparr>)" "bloom_covers bf (insert k keys)"
    "\<not> sb_enable_bloom sb \<longrightarrow> bf = None" "sb_enable_bloom sb \<longrightarrow> bf \<noteq> None"
proof (cases "sb_enable_bloom sb")
  case True
  let ?f = "case sb_bloom sb of None \<Rightarrow> default_with_keys 10000 | Some f \<Rightarrow> f"
  have "bloom_covers (Some ?f) keys"
    using covers empty True default_with_keys_wf[of 10000] by (auto simp: bloom_covers_def split: option.splits)
  then obtain f' where "BloomFilter_add k ?f = Ok f'" "bloom_covers (Some f') (insert k keys)"
    by (rule bloom_covers_add)
  then show ?thesis using True by (intro that[of "Some f'"]) (simp_all add: add_to_bloom_def)
next
  case False
  then show ?thesis using off by (intro that[of "None"]) (simp_all add: add_to_bloom_def bloom_covers_def)
qed

lemma add_rep:
  assumes rep: "sb_rep x sb bs cur" and sorted: "kv_sorted (stored_entries bs @ cur @ [(k, v)])"
    and snap: "sb_compression sb = Snappy \<longrightarrow> snappy_law x"
    and size: "kv_size (cur @ [(k, v)]) + 8 < 2 ^ 32"
  obtains sb' bs' cur' where "SSTableBuilder_add x k v sb = (Ok (), sb')" "sb_rep x sb' bs' cur'"
    "stored_entries bs' @ cur' = stored_entries bs @ cur @ [(k, v)]"
    "sb_compression sb' = sb_compression sb" "sb_enable_bloom sb' = sb_enable_bloom sb"
    "kv_size cur' \<le> kv_size (cur @ [(k, v)])"
proof -
  let ?keys = "fst ` set (stored_entries bs @ cur)"
  obtain sb1 where sb1: "add_pending_entry sb = Ok sb1" "sb_rep x sb1 bs cur" "sb_pending sb1 = None"
    "sb_last_key sb1 = sb_last_key sb" "sb_compression sb1 = sb_compression sb"
    "sb_enable_bloom sb1 = sb_enable_bloom sb"
    by (rule add_pending_rep[OF rep])
  have srt: "kv_sorted (cur @ [(k, v)])" using sorted unfolding kv_sorted_append by blast
  then have k: "k \<noteq> []" by (rule kv_sorted_snoc(2))
  have "sb_last_key sb \<noteq> [] \<Longrightarrow> sb_last_key sb < k"
    using rep sorted kv_sorted_snoc(3)[of "stored_entries bs @ cur" k v]
    by (auto simp: sb_rep_def split: if_splits)
  then have guard: "\<not> (sb_last_key sb \<noteq> [] \<and> k \<le> sb_last_key sb)" by (auto simp: not_le)
  have "block_rep (sb_data sb1) cur" using sb1(2) by (simp add: sb_rep_def)
  then obtain b where b: "BlockBuilder_add k v (sb_data sb1) = Ok b" "block_rep b (cur @ [(k, v)])"
    using block_rep_add[OF _ srt] by blast
  define sb2 where "sb2 = sb1\<lparr>sb_data := b, sb_last_key := k, sb_num_entries := sb_num_entries sb1 + 1\<rparr>"
  have "bloom_covers (sb_bloom sb2) ?keys" "\<not> sb_enable_bloom sb2 \<longrightarrow> sb_bloom sb2 = None"
    "sb_bloom sb2 = None \<Longrightarrow> sb_enable_bloom sb2 \<Longrightarrow> ?keys = {}"
    using sb1(2) by (auto simp: sb2_def sb_rep_def)
  then obtain bf where bf: "add_to_bloom k sb2 = Ok (sb2\<lparr>sb_bloom := bf\<rparr>)" "bloom_covers bf (insert k ?keys)"
    "\<not> sb_enable_bloom sb2 \<longrightarrow> bf = None" "sb_enable_bloom sb2 \<longrightarrow> bf \<noteq> None"
    by (rule add_to_bloom_rep)
  define sb3 where "sb3 = sb2\<lparr>sb_bloom := bf\<rparr>"
  have "insert k ?keys = fst ` set (stored_entries bs @ cur @ [(k, v)])" by auto
  then have rep3: "sb_rep x sb3 bs (cur @ [(k, v)])"
    using sb1(2,3) b(2) bf(2-4) sorted by (auto simp: sb_rep_def sb3_def sb2_def)
  have same: "sb_compression sb3 = sb_compression sb" "sb_enable_bloom sb3 = sb_enable_bloom sb" "sb_pending sb3 = None"
    using sb1 by (simp_all add: sb3_def sb2_def)
  have add: "SSTableBuilder_add x k v sb =
      (if sb_block_size sb3 \<le> BlockBuilder_current_size (sb_data sb3)
       then flush_data_block x sb3 else (Ok (), sb3))"
    unfolding SSTableBuilder_add_def if_not_P[OF k] if_not_P[OF guard]
    using sb1(1) b(1) bf(1) by (simp add: Let_def sb2_def sb3_def)
  show ?thesis
  proof (cases "sb_block_size sb3 \<le> BlockBuilder_current_size (sb_data sb3)")
    case False
    show ?thesis by (rule that[OF _ rep3]) (use add False same in simp_all)
  next
    case True
    obtain sb' bs' where fl: "flush_data_block x sb3 = (Ok (), sb')" "sb_rep x sb' bs' []"
      "stored_entries bs' = stored_entries bs @ cur @ [(k, v)]" "sb_compression sb' = sb_compression sb3"
      "sb_enable_bloom sb' = sb_enable_bloom sb3"
      by (rule flush_rep[OF rep3 same(3)]) (use same snap size in simp_all)
    show ?thesis by (rule that[OF _ fl(2)]) (use add True same fl in simp_all)
  qed
qed

text \<open>A table is built by adding its entries one after the other.\<close>

fun SSTableBuilder_add_all :: "ext \<Rightarrow> kv list \<Rightarrow> SSTableBuilder \<Rightarrow> unit res \<times> SSTableBuilder" where
  "SSTableBuilder_add_all x [] sb = (Ok (), sb)"
| "SSTableBuilder_add_all x ((k, v) # es) sb =
     try_st (SSTableBuilder_add x k v sb) (\<lambda>_. SSTableBuilder_add_all x es)"

lemma add_all_rep:
  assumes "sb_rep x sb bs cur" and "kv_sorted (stored_entries bs @ cur @ es)"
    and "sb_compression sb = Snappy \<longrightarrow> snappy_law x"
    and "kv_size cur + kv_size es + 8 < 2 ^ 32"
  shows "\<exists>sb' bs' cur'. SSTableBuilder_add_all x es sb = (Ok (), sb') \<and> sb_rep x sb' bs' cur' \<and>
    stored_entries bs' @ cur' = stored_entries bs @ cur @ es \<and>
    sb_compression sb' = sb_compression sb \<and> sb_enable_bloom sb' = sb_enable_bloom sb \<and>
    kv_size cur' + 8 < 2 ^ 32"
  using assms
proof (induction es arbitrary: sb bs cur)
  case Nil
  then show ?case by auto
next
  case (Cons e es)
  obtain k v where e: "e = (k, v)" by (cases e)
  have srt: "kv_sorted (stored_entries bs @ cur @ [(k, v)])"
    using Cons.prems(2) by (simp add: e kv_sorted_append) (simp add: kv_sorted_def)
  obtain sb1 bs1 cur1 where s1: "SSTableBuilder_add x k v sb = (Ok (), sb1)" "sb_rep x sb1 bs1 cur1"
    "stored_entries bs1 @ cur1 = stored_entries bs @ cur @ [(k, v)]"
    "sb_compression sb1 = sb_compression sb" "sb_enable_bloom sb1 = sb_enable_bloom sb"
    "kv_size cur1 \<le> kv_size (cur @ [(k, v)])"
    by (rule add_rep[OF Cons.prems(1) srt Cons.prems(3)]) (use Cons.prems(4) in \<open>auto simp: e\<close>)
  have "kv_sorted (stored_entries bs1 @ cur1 @ es)"
    using Cons.prems(2) s1(3) by (metis append.assoc append_Cons append_Nil e)
  moreover have "kv_size cur1 + kv_size es + 8 < 2 ^ 32" using Cons.prems(4) s1(6) by (simp add: e)
  ultimately obtain sb' bs' cur' where "SSTableBuilder_add_all x es sb1 = (Ok (), sb')"
    "sb_rep x sb' bs' cur'" "stored_entries bs' @ cur' = (stored_entries bs1 @ cur1) @ es"
    "sb_compression sb' = sb_compression sb1" "sb_enable_bloom sb' = sb_enable_bloom sb1" "kv_size cur' + 8 < 2 ^ 32"
    using Cons.IH[OF s1(2)] Cons.prems(3) s1(4) by auto
  then show ?case using s1 by (intro exI[of _ sb'] exI[of _ bs'] exI[of _ cur']) (simp add: e)
qed

definition meta_bytes :: "BloomFilter option \<Rightarrow> bytes" where
  "meta_bytes bf = (case bf of Some f \<Rightarrow> BloomFilter_encode f | None \<Rightarrow> replicate 8 0)"

lemma finish_rep:
  assumes rep: "sb_rep x sb bs cur" and pend: "cur \<noteq> [] \<Longrightarrow> sb_pending sb = None"
    and snap: "sb_compression sb = Snappy \<longrightarrow> snappy_law x" and size: "kv_size cur + 8 < 2 ^ 32"
  obtains sz f bs' where "SSTableBuilder_finish x sb = (Ok sz, f)"
    "table_layout x (sb_compression sb) bs' (meta_bytes (sb_bloom sb)) (wf_data f)"
    "stored_entries bs' = stored_entries bs @ cur" "\<forall>b \<in> set bs'. block_stored x (sb_compression sb) b"
    "sz = of_nat (length (wf_data f))" "wf_faults f = []"
proof -
  obtain sb1 bs' where sb1: "flush_data_block x sb = (Ok (), sb1)" "sb_rep x sb1 bs' []"
    "stored_entries bs' = stored_entries bs @ cur" "sb_compression sb1 = sb_compression sb" "sb_bloom sb1 = sb_bloom sb"
    by (rule flush_rep[OF rep pend snap size])
  obtain sb2 where sb2: "add_pending_entry sb1 = Ok sb2" "sb_rep x sb2 bs' []" "sb_pending sb2 = None"
    "sb_compression sb2 = sb_compression sb1" "sb_bloom sb2 = sb_bloom sb1"
    by (rule add_pending_rep[OF sb1(2)])
  let ?c = "sb_compression sb" and ?meta = "meta_bytes (sb_bloom sb)"
  let ?ix = "IndexBlockBuilder_finish (sb_index sb2)"
  have w0: "fault_free (sb_writer sb2)" "bw_stream (sb_writer sb2) = data_section x ?c bs'"
    and off: "sb_offset sb2 = of_nat (length (data_section x ?c bs'))"
    and ih: "index_holds (sb_index sb2) (index_of 0 bs')"
    and st: "\<forall>b \<in> set bs'. block_stored x ?c b"
    using sb2 sb1(4) by (auto simp: sb_rep_def)
  obtain w1 where w1: "write_block x ?meta CompressionNone (sb_writer sb2) = (Ok (), w1)"
    "bw_stream w1 = bw_stream (sb_writer sb2) @ raw_block x CompressionNone ?meta" "fault_free w1"
    using write_block_ok[OF w0(1)] by blast
  obtain w2 where w2: "write_block x (replicate 8 0) CompressionNone w1 = (Ok (), w2)"
    "bw_stream w2 = bw_stream w1 @ raw_block x CompressionNone (replicate 8 0)" "fault_free w2"
    using write_block_ok[OF w1(3)] by blast
  obtain w3 where w3: "write_block x ?ix CompressionNone w2 = (Ok (), w3)"
    "bw_stream w3 = bw_stream w2 @ raw_block x CompressionNone ?ix" "fault_free w3"
    using write_block_ok[OF w2(3)] by blast
  define mi where "mi = BlockHandle_new (sb_offset sb2 + (of_nat (length ?meta) + 5)) (of_nat (length (replicate 8 (0::u8))) + 5)"
  define ix where "ix = BlockHandle_new (sb_offset sb2 + (of_nat (length ?meta) + 5) + (of_nat (length (replicate 8 (0::u8))) + 5))
    (of_nat (length ?ix) + 5)"
  obtain w4 where w4: "BufWriter_write_all (Footer_encode (Footer_new mi ix)) w3 = (Ok (), w4)"
    "bw_stream w4 = bw_stream w3 @ Footer_encode (Footer_new mi ix)" "fault_free w4"
    using BufWriter_write_all_ok[OF w3(3)] by blast
  obtain w5 where w5: "BufWriter_flush w4 = (Ok (), w5)" "wf_data (bw_file w5) = bw_stream w4" "bw_buf w5 = []"
    "fault_free w5" using BufWriter_flush_ok[OF w4(3)] by blast
  have drop: "bw_file (snd (BufWriter_flush_buf w5)) = bw_file w5"
    using w5(3) by (simp add: BufWriter_flush_buf_def file_write_all_def)
  define sz where "sz = sb_offset sb2 + (of_nat (length ?meta) + 5) + (of_nat (length (replicate 8 (0::u8))) + 5)
    + (of_nat (length ?ix) + 5) + of_nat FOOTER_SIZE"
  have fin: "SSTableBuilder_finish x sb = (Ok sz, bw_file w5)"
    using sb1(1,5) sb2(1,5) w1(1) w2(1) w3(1) w4(1) w5(1) drop
    by (simp only: SSTableBuilder_finish_def SSTableBuilder_finish_body_def bind_st_simps Let_def
        Footer_write_to_def meta_bytes_def[symmetric] sz_def mi_def ix_def prod.case)
  have handles: "mi = BlockHandle_new (of_nat (length (data_section x ?c bs') + length ?meta + 5)) 13"
    "ix = BlockHandle_new (of_nat (length (data_section x ?c bs') + length ?meta + 18)) (of_nat (length ?ix + 5))"
    by (simp_all add: mi_def ix_def off add_ac)
  have data: "wf_data (bw_file w5) = data_section x ?c bs' @ raw_block x CompressionNone ?meta @
      raw_block x CompressionNone (replicate 8 0) @ raw_block x CompressionNone ?ix @ Footer_encode (Footer_new mi ix)"
    using w0 w1 w2 w3 w4 w5 by simp
  have "table_layout x ?c bs' ?meta (wf_data (bw_file w5))"
    unfolding table_layout_def data handles using ih by blast
  moreover have "sz = of_nat (length (wf_data (bw_file w5)))"
    by (simp add: data sz_def off FOOTER_SIZE_def)
  moreover have "wf_faults (bw_file w5) = []" using w5(4) by (simp add: fault_free_def)
  ultimately show ?thesis using that[OF fin] sb1(3) st by simp
qed

text \<open>Everything together: a builder without write failures, ascending keys, then \<^verbatim>\<open>finish\<close>.\<close>

lemma build_table:
  assumes rep: "sb_rep x sb [] []" and sorted: "kv_sorted es" and size: "kv_size es + 8 < 2 ^ 32"
    and snap: "sb_compression sb = Snappy \<longrightarrow> snappy_law x"
  obtains sb' sz f bs where "SSTableBuilder_add_all x es sb = (Ok (), sb')"
    "SSTableBuilder_finish x sb' = (Ok sz, f)" "sz = of_nat (length (wf_data f))" "wf_faults f = []"
    "table_layout x (sb_compression sb) bs (meta_bytes (sb_bloom sb')) (wf_data f)"
    "stored_entries bs = es" "\<forall>b \<in> set bs. block_stored x (sb_compression sb) b"
    "bloom_covers (sb_bloom sb') (fst ` set es)"
proof -
  obtain sb' bs' cur' where a: "SSTableBuilder_add_all x es sb = (Ok (), sb')" "sb_rep x sb' bs' cur'"
    "stored_entries bs' @ cur' = es" "sb_compression sb' = sb_compression sb" "kv_size cur' + 8 < 2 ^ 32"
    using add_all_rep[OF rep, of es] sorted size snap by auto
  have pend: "cur' \<noteq> [] \<Longrightarrow> sb_pending sb' = None"
    using a(2) by (auto simp: sb_rep_def split: option.splits)
  have covers: "bloom_covers (sb_bloom sb') (fst ` set es)"
    using a(2,3) by (auto simp: sb_rep_def)
  show ?thesis
  proof (rule finish_rep[OF a(2) pend])
    show "sb_compression sb' = Snappy \<longrightarrow> snappy_law x" using snap a(4) by simp
    show "kv_size cur' + 8 < 2 ^ 32" by (rule a(5))
  next
    fix sz f bs
    assume "SSTableBuilder_finish x sb' = (Ok sz, f)"
      "table_layout x (sb_compression sb') bs (meta_bytes (sb_bloom sb')) (wf_data f)"
      "stored_entries bs = stored_entries bs' @ cur'" "\<forall>b \<in> set bs. block_stored x (sb_compression sb') b"
      "sz = of_nat (length (wf_data f))" "wf_faults f = []"
    then show ?thesis using that[of sb' sz f bs] a covers by simp
  qed
qed

lemma sb_rep_new:
  assumes "wf_data f = []" and "wf_faults f = []" and "SSTableBuilder_new (Ok f) = Ok sb"
  shows "sb_rep x sb [] []"
  using assms
  by (auto simp: SSTableBuilder_new_def sb_rep_def BufWriter_new_def fault_free_def bw_stream_def block_rep_new
      kv_sorted_def index_holds_def index_kvs_def IndexBlockBuilder_new_def bloom_covers_def)
     (simp add: BlockBuilder_new_def)

lemma sb_rep_config:
  assumes "sb_rep x sb [] []"
  shows "sb_rep x (SSTableBuilder_set_block_size n sb) [] []"
    and "sb_rep x (SSTableBuilder_set_compression c sb) [] []"
    and "(\<And>m. x_ln_bits x m < 2 ^ 64) \<Longrightarrow> sb_rep x (SSTableBuilder_set_expected_keys x n sb) [] []"
  using assms BloomFilter_new_wf[of "\<lambda>n _. x_ln_bits x n" n "()" "x_ln_hashes x"]
  by (auto simp: sb_rep_def SSTableBuilder_set_block_size_def SSTableBuilder_set_compression_def
      SSTableBuilder_set_expected_keys_def bloom_covers_def split: option.splits)

end
