(* ===== verification/LRU_Cache.thy ===== *)
theory LRU_Cache
  imports Errors
begin

text \<open>
  \<^verbatim>\<open>src/src/cache/lru.rs\<close>: the block cache. Each operation is modelled as one atomic step (a
  thread running alone); the locks inside an operation are not modelled. The hash map is a partial
  map, the queue a list with the most recently used key last. The eviction loop is a partial
  function: \<open>None\<close> means that it does not end. The specification \<open>lru_abs\<close> is the list of cached
  blocks in order of use; the operations are shown to refine operations on it. The interface
  \<open>lookaside_cache\<close> is what the SSTable reader relies on.
\<close>

section \<open>Definitions\<close>

record CacheKey =
  file_id :: u64
  ck_offset :: u64

definition CacheKey_new :: "u64 \<Rightarrow> u64 \<Rightarrow> CacheKey" where
  "CacheKey_new fid off = \<lparr>file_id = fid, ck_offset = off\<rparr>"

record CacheStats =
  lookups :: u64
  hits :: u64
  misses :: u64
  insertions :: u64
  evictions :: u64

definition CacheStats_reset :: CacheStats where
  "CacheStats_reset = \<lparr>lookups = 0, hits = 0, misses = 0, insertions = 0, evictions = 0\<rparr>"

record BlockCache =
  bc_capacity :: nat
  bc_current_size :: u64
  bc_cache :: "CacheKey \<rightharpoonup> bytes"
  bc_queue :: "CacheKey list"
  bc_stats :: CacheStats

definition BlockCache_new :: "nat \<Rightarrow> BlockCache" where
  "BlockCache_new capacity =
     \<lparr>bc_capacity = capacity, bc_current_size = 0, bc_cache = Map.empty, bc_queue = [],
      bc_stats = CacheStats_reset\<rparr>"

definition BlockCache_touch :: "CacheKey \<Rightarrow> BlockCache \<Rightarrow> BlockCache" where
  "BlockCache_touch key c = c\<lparr>bc_queue := remove1 key (bc_queue c) @ [key]\<rparr>"

definition BlockCache_get :: "CacheKey \<Rightarrow> BlockCache \<Rightarrow> bytes option \<times> BlockCache" where
  "BlockCache_get key c0 =
     (let c = c0\<lparr>bc_stats := (bc_stats c0)\<lparr>lookups := lookups (bc_stats c0) + 1\<rparr>\<rparr> in
      if bc_capacity c = 0 then (None, c)
      else case bc_cache c key of
        Some value \<Rightarrow>
          (let c1 = BlockCache_touch key c
           in (Some value, c1\<lparr>bc_stats := (bc_stats c1)\<lparr>hits := hits (bc_stats c1) + 1\<rparr>\<rparr>))
      | None \<Rightarrow> (None, c\<lparr>bc_stats := (bc_stats c)\<lparr>misses := misses (bc_stats c) + 1\<rparr>\<rparr>))"

definition BlockCache_evict_one :: "BlockCache \<Rightarrow> BlockCache" where
  "BlockCache_evict_one c =
     (case bc_queue c of
        [] \<Rightarrow> c
      | key # queue \<Rightarrow>
          (let c1 = c\<lparr>bc_queue := queue\<rparr> in
           case bc_cache c1 key of
             None \<Rightarrow> c1
           | Some value \<Rightarrow>
               c1\<lparr>bc_cache := (bc_cache c1)(key := None),
                  bc_current_size := bc_current_size c1 - of_nat (length value),
                  bc_stats := (bc_stats c1)\<lparr>evictions := evictions (bc_stats c1) + 1\<rparr>\<rparr>))"

partial_function (option) BlockCache_evict_loop :: "nat \<Rightarrow> BlockCache \<Rightarrow> BlockCache option" where
  "BlockCache_evict_loop value_size c =
     (if bc_capacity c < unat (bc_current_size c + of_nat value_size)
      then BlockCache_evict_loop value_size (BlockCache_evict_one c) else Some c)"

definition BlockCache_insert :: "CacheKey \<Rightarrow> bytes \<Rightarrow> BlockCache \<Rightarrow> BlockCache option" where
  "BlockCache_insert key value c0 =
     (if bc_capacity c0 = 0 then Some c0
      else if bc_capacity c0 < length value then Some c0
      else case BlockCache_evict_loop (length value) c0 of
        None \<Rightarrow> None
      | Some c \<Rightarrow>
          (let c1 = (case bc_cache c key of
                 Some old \<Rightarrow> c\<lparr>bc_current_size := bc_current_size c - of_nat (length old),
                               bc_queue := filter (\<lambda>k. k \<noteq> key) (bc_queue c)\<rparr>
               | None \<Rightarrow> c)
           in Some (c1\<lparr>bc_cache := (bc_cache c1)(key \<mapsto> value),
                       bc_queue := bc_queue c1 @ [key],
                       bc_current_size := bc_current_size c1 + of_nat (length value),
                       bc_stats := (bc_stats c1)\<lparr>insertions := insertions (bc_stats c1) + 1\<rparr>\<rparr>)))"

definition BlockCache_reset_stats :: "BlockCache \<Rightarrow> BlockCache" where
  "BlockCache_reset_stats c = c\<lparr>bc_stats := CacheStats_reset\<rparr>"

definition BlockCache_clear :: "BlockCache \<Rightarrow> BlockCache" where
  "BlockCache_clear c = c\<lparr>bc_cache := Map.empty, bc_queue := [], bc_current_size := 0\<rparr>"

definition BlockCache_size :: "BlockCache \<Rightarrow> nat" where
  "BlockCache_size c = unat (bc_current_size c)"

definition BlockCache_len :: "BlockCache \<Rightarrow> nat" where
  "BlockCache_len c = card (dom (bc_cache c))"

definition BlockCache_is_empty :: "BlockCache \<Rightarrow> bool" where
  "BlockCache_is_empty c \<longleftrightarrow> BlockCache_len c = 0"

section \<open>Specification\<close>

type_synonym lru_list = "(CacheKey \<times> bytes) list"

definition lru_total :: "lru_list \<Rightarrow> nat" where
  "lru_total xs = sum_list (map (length \<circ> snd) xs)"

fun lru_evict :: "nat \<Rightarrow> nat \<Rightarrow> lru_list \<Rightarrow> lru_list" where
  "lru_evict cap need [] = []"
| "lru_evict cap need (x # xs) =
     (if cap < lru_total (x # xs) + need then lru_evict cap need xs else x # xs)"

definition lru_insert :: "nat \<Rightarrow> CacheKey \<Rightarrow> bytes \<Rightarrow> lru_list \<Rightarrow> lru_list" where
  "lru_insert cap key value xs =
     (if cap = 0 \<or> cap < length value then xs
      else filter (\<lambda>x. fst x \<noteq> key) (lru_evict cap (length value) xs) @ [(key, value)])"

definition lru_get :: "CacheKey \<Rightarrow> lru_list \<Rightarrow> bytes option \<times> lru_list" where
  "lru_get key xs =
     (case map_of xs key of
        None \<Rightarrow> (None, xs)
      | Some v \<Rightarrow> (Some v, filter (\<lambda>x. fst x \<noteq> key) xs @ [(key, v)]))"

definition lru_abs :: "BlockCache \<Rightarrow> lru_list" where
  "lru_abs c = map (\<lambda>k. (k, the (bc_cache c k))) (bc_queue c)"

definition BlockCache_inv :: "BlockCache \<Rightarrow> bool" where
  "BlockCache_inv c \<longleftrightarrow>
     bc_capacity c < 2 ^ 63 \<and> distinct (bc_queue c) \<and> set (bc_queue c) = dom (bc_cache c) \<and>
     lru_total (lru_abs c) \<le> bc_capacity c \<and>
     bc_current_size c = of_nat (lru_total (lru_abs c))"

section \<open>Lemmas on the specification\<close>

lemma lru_total_simps [simp]:
  "lru_total [] = 0" "lru_total (x # xs) = length (snd x) + lru_total xs"
  "lru_total (xs @ ys) = lru_total xs + lru_total ys"
  by (simp_all add: lru_total_def)

lemma lru_total_filter: "lru_total (filter P xs) \<le> lru_total xs"
  by (induction xs) auto

lemma lru_total_remove:
  "distinct (map fst xs) \<Longrightarrow> map_of xs key = Some v \<Longrightarrow>
     lru_total (filter (\<lambda>x. fst x \<noteq> key) xs) + length v = lru_total xs"
proof (induction xs)
  case Nil
  then show ?case by simp
next
  case (Cons x xs)
  show ?case
  proof (cases "fst x = key")
    case True
    with Cons.prems have "key \<notin> fst ` set xs" by simp
    then have "filter (\<lambda>x. fst x \<noteq> key) xs = xs" by (intro filter_True ballI) (metis image_eqI)
    with Cons True show ?thesis by auto
  next
    case False
    with Cons show ?thesis by auto
  qed
qed

lemma lru_evict_fits: "need \<le> cap \<Longrightarrow> lru_total (lru_evict cap need xs) + need \<le> cap"
  by (induction xs) auto

lemma lru_evict_suffix: "\<exists>ys. xs = ys @ lru_evict cap need xs"
proof (induction xs)
  case Nil
  then show ?case by simp
next
  case (Cons x xs)
  then obtain ys where "xs = ys @ lru_evict cap need xs" by blast
  then have "x # xs = (x # ys) @ lru_evict cap need xs" by simp
  then show ?case by (metis append_Nil lru_evict.simps(2))
qed

section \<open>Refinement\<close>

lemma map_fst_lru_abs [simp]: "map fst (lru_abs c) = bc_queue c"
  by (simp add: lru_abs_def comp_def)

lemma map_of_lru_abs:
  assumes "BlockCache_inv c"
  shows "map_of (lru_abs c) = bc_cache c"
proof
  fix k
  have "map_of (map (\<lambda>k. (k, the (bc_cache c k))) q) k = (if k \<in> set q then Some (the (bc_cache c k)) else None)" for q
    by (induction q) auto
  then show "map_of (lru_abs c) k = bc_cache c k"
    using assms by (auto simp: lru_abs_def BlockCache_inv_def)
qed

lemma size_no_wrap:
  assumes "BlockCache_inv c" and "n \<le> bc_capacity c"
  shows "unat (bc_current_size c + of_nat n) = lru_total (lru_abs c) + n"
proof -
  have "lru_total (lru_abs c) + n < 2 ^ 64" using assms by (simp add: BlockCache_inv_def)
  then have "unat (of_nat (lru_total (lru_abs c) + n) :: u64) = lru_total (lru_abs c) + n"
    by (rule unat_of_nat_u64)
  then show ?thesis using assms by (simp add: BlockCache_inv_def)
qed

lemma lru_abs_Cons:
  "bc_queue c = key # queue \<Longrightarrow> lru_abs c = (key, the (bc_cache c key)) # map (\<lambda>k. (k, the (bc_cache c k))) queue"
  by (simp add: lru_abs_def)

lemma of_nat_diff_u64: "of_nat (a + b) - of_nat a = (of_nat b :: u64)"
  by simp

lemma evict_one_refines:
  assumes inv: "BlockCache_inv c" and q: "bc_queue c = key # queue"
  shows "BlockCache_inv (BlockCache_evict_one c) \<and> lru_abs (BlockCache_evict_one c) = tl (lru_abs c)
    \<and> bc_capacity (BlockCache_evict_one c) = bc_capacity c"
proof -
  obtain v where v: "bc_cache c key = Some v"
    using inv q by (force simp: BlockCache_inv_def)
  have notin: "key \<notin> set queue" using inv q by (simp add: BlockCache_inv_def)
  let ?c = "BlockCache_evict_one c"
  have c: "bc_queue ?c = queue" "bc_cache ?c = (bc_cache c)(key := None)"
    "bc_current_size ?c = bc_current_size c - of_nat (length v)" "bc_capacity ?c = bc_capacity c"
    by (simp_all add: BlockCache_evict_one_def q v)
  have abs: "lru_abs ?c = tl (lru_abs c)"
    using notin by (simp add: lru_abs_def c q)
  have total: "lru_total (lru_abs c) = length v + lru_total (lru_abs ?c)"
    unfolding abs by (simp add: lru_abs_Cons[OF q] v)
  have "BlockCache_inv ?c"
    using inv notin unfolding BlockCache_inv_def c total by (auto simp: q)
  with abs c show ?thesis by simp
qed

lemma evict_loop_refines:
  assumes "BlockCache_inv c" and "n \<le> bc_capacity c"
  shows "\<exists>c'. BlockCache_evict_loop n c = Some c' \<and> BlockCache_inv c' \<and>
    lru_abs c' = lru_evict (bc_capacity c) n (lru_abs c) \<and> bc_capacity c' = bc_capacity c"
  using assms
proof (induction "bc_queue c" arbitrary: c)
  case Nil
  then have "lru_abs c = []" by (simp add: lru_abs_def)
  with Nil show ?case
    using size_no_wrap[OF Nil.prems] by (subst BlockCache_evict_loop.simps) simp
next
  case (Cons key queue)
  note q = Cons.hyps(2)[symmetric]
  show ?case
  proof (cases "bc_capacity c < lru_total (lru_abs c) + n")
    case True
    let ?c = "BlockCache_evict_one c"
    note ev = evict_one_refines[OF Cons.prems(1) q]
    have "queue = bc_queue ?c" using ev q map_fst_lru_abs[of ?c] by (simp add: lru_abs_def comp_def)
    then obtain c' where "BlockCache_evict_loop n ?c = Some c'" "BlockCache_inv c'"
      "lru_abs c' = lru_evict (bc_capacity c) n (lru_abs ?c)" "bc_capacity c' = bc_capacity c"
      using Cons.hyps(1)[of ?c] ev Cons.prems by auto
    moreover have "lru_evict (bc_capacity c) n (lru_abs c) = lru_evict (bc_capacity c) n (lru_abs ?c)"
      using True ev lru_abs_Cons[OF q] by simp
    ultimately show ?thesis
      using True size_no_wrap[OF Cons.prems] by (subst BlockCache_evict_loop.simps) simp
  next
    case False
    then show ?thesis
      using size_no_wrap[OF Cons.prems] Cons.prems lru_abs_Cons[OF q]
      by (subst BlockCache_evict_loop.simps) simp
  qed
qed

lemma lru_abs_filter:
  "filter (\<lambda>x. fst x \<noteq> key) (lru_abs c) = map (\<lambda>k. (k, the (bc_cache c k))) (filter (\<lambda>k. k \<noteq> key) (bc_queue c))"
  by (simp add: lru_abs_def filter_map comp_def)

lemma insert_refines:
  assumes inv: "BlockCache_inv c0"
  shows "\<exists>c'. BlockCache_insert key value c0 = Some c' \<and> BlockCache_inv c' \<and>
    lru_abs c' = lru_insert (bc_capacity c0) key value (lru_abs c0) \<and> bc_capacity c' = bc_capacity c0"
proof (cases "bc_capacity c0 = 0 \<or> bc_capacity c0 < length value")
  case True
  then show ?thesis using inv by (auto simp: BlockCache_insert_def lru_insert_def)
next
  case False
  then obtain c where ev: "BlockCache_evict_loop (length value) c0 = Some c" and invc: "BlockCache_inv c"
    and absc: "lru_abs c = lru_evict (bc_capacity c0) (length value) (lru_abs c0)"
    and cap: "bc_capacity c = bc_capacity c0"
    using evict_loop_refines[OF inv, of "length value"] by auto
  let ?q = "filter (\<lambda>k. k \<noteq> key) (bc_queue c)"
  let ?rest = "filter (\<lambda>x. fst x \<noteq> key) (lru_abs c)"
  define c' where "c' = the (BlockCache_insert key value c0)"
  have ins: "BlockCache_insert key value c0 = Some c'"
    using False ev by (simp add: c'_def BlockCache_insert_def Let_def)
  have noold: "bc_cache c key = None \<Longrightarrow> ?q = bc_queue c"
    using invc by (auto simp: BlockCache_inv_def filter_id_conv)
  have fields: "bc_capacity c' = bc_capacity c0" "bc_cache c' = (bc_cache c)(key \<mapsto> value)"
    "bc_queue c' = ?q @ [key]"
    using False ev cap noold
    by (auto simp: c'_def BlockCache_insert_def Let_def split: option.splits)
  have abs: "lru_abs c' = ?rest @ [(key, value)]"
    unfolding lru_abs_filter by (auto simp: lru_abs_def fields)
  have "bc_current_size c' = of_nat (lru_total ?rest + length value)"
  proof (cases "bc_cache c key")
    case None
    then have "?rest = lru_abs c" using noold by (simp only: lru_abs_filter) (simp add: lru_abs_def)
    with None show ?thesis
      using False ev invc by (simp add: c'_def BlockCache_insert_def BlockCache_inv_def Let_def)
  next
    case (Some old)
    have "lru_total ?rest + length old = lru_total (lru_abs c)"
      using lru_total_remove[of "lru_abs c" key old] Some map_of_lru_abs[OF invc] invc
      by (simp add: BlockCache_inv_def)
    then have "bc_current_size c - of_nat (length old) = of_nat (lru_total ?rest)"
      using invc by (simp add: BlockCache_inv_def flip: of_nat_add)
        (metis add.commute of_nat_diff_u64)
    with Some show ?thesis
      using False ev by (simp add: c'_def BlockCache_insert_def Let_def)
  qed
  moreover have "lru_total ?rest + length value \<le> bc_capacity c0"
    using lru_evict_fits[of "length value" "bc_capacity c0" "lru_abs c0"] False absc
      lru_total_filter[of "\<lambda>x. fst x \<noteq> key" "lru_abs c"] by simp
  ultimately have "BlockCache_inv c'"
    using invc cap by (auto simp: BlockCache_inv_def fields abs)
  moreover have "lru_abs c' = lru_insert (bc_capacity c0) key value (lru_abs c0)"
    using False absc abs by (auto simp: lru_insert_def)
  ultimately show ?thesis using ins fields(1) by blast
qed

lemma get_refines:
  assumes inv: "BlockCache_inv c" and cap: "bc_capacity c \<noteq> 0"
  shows "BlockCache_inv (snd (BlockCache_get key c)) \<and>
    (fst (BlockCache_get key c), lru_abs (snd (BlockCache_get key c))) = lru_get key (lru_abs c)"
proof (cases "bc_cache c key")
  case None
  then show ?thesis
    using inv cap map_of_lru_abs[OF inv]
    by (simp add: BlockCache_get_def BlockCache_inv_def lru_get_def lru_abs_def Let_def)
next
  case (Some v)
  have q: "remove1 key (bc_queue c) = filter (\<lambda>k. k \<noteq> key) (bc_queue c)"
    using inv by (auto simp: BlockCache_inv_def distinct_remove1_removeAll removeAll_filter_not_eq intro!: filter_cong)
  let ?c = "snd (BlockCache_get key c)"
  have c: "bc_queue ?c = filter (\<lambda>k. k \<noteq> key) (bc_queue c) @ [key]" "bc_cache ?c = bc_cache c"
    "bc_capacity ?c = bc_capacity c" "bc_current_size ?c = bc_current_size c"
    "fst (BlockCache_get key c) = Some v"
    using Some cap q by (simp_all add: BlockCache_get_def BlockCache_touch_def Let_def)
  have abs: "lru_abs ?c = filter (\<lambda>x. fst x \<noteq> key) (lru_abs c) @ [(key, v)]"
    unfolding lru_abs_filter by (simp add: lru_abs_def c Some)
  have total: "lru_total (lru_abs ?c) = lru_total (lru_abs c)"
    using lru_total_remove[of "lru_abs c" key v] Some map_of_lru_abs[OF inv] inv
    by (simp add: abs BlockCache_inv_def)
  have "BlockCache_inv ?c"
    using inv Some total by (auto simp: BlockCache_inv_def c)
  then show ?thesis using Some map_of_lru_abs[OF inv] abs c(5) by (simp add: lru_get_def)
qed

lemma get_disabled: "bc_capacity c = 0 \<Longrightarrow> fst (BlockCache_get key c) = None"
  by (simp add: BlockCache_get_def Let_def)

lemma get_cache [simp]: "bc_cache (snd (BlockCache_get key c)) = bc_cache c"
  by (simp add: BlockCache_get_def BlockCache_touch_def Let_def split: option.splits)

lemma get_capacity [simp]: "bc_capacity (snd (BlockCache_get key c)) = bc_capacity c"
  by (simp add: BlockCache_get_def BlockCache_touch_def Let_def split: option.splits)

lemma get_inv: "BlockCache_inv c \<Longrightarrow> BlockCache_inv (snd (BlockCache_get key c))"
  using get_refines[of c key]
  by (cases "bc_capacity c = 0") (auto simp: BlockCache_get_def BlockCache_inv_def lru_abs_def Let_def)

lemma lru_evict_subset: "set (lru_evict cap n xs) \<subseteq> set xs"
  using lru_evict_suffix[of xs cap n] by (metis set_append sup_ge2)

lemma insert_contents:
  assumes inv: "BlockCache_inv c" and ins: "BlockCache_insert key value c = Some c'"
    and hit: "bc_cache c' k = Some v"
  shows "k = key \<and> v = value \<or> bc_cache c k = Some v"
proof -
  from ins insert_refines[OF inv, of key "value"] have inv': "BlockCache_inv c'"
    and abs: "lru_abs c' = lru_insert (bc_capacity c) key value (lru_abs c)" by auto
  have "(k, v) \<in> set (lru_abs c')"
    using hit map_of_lru_abs[OF inv'] by (metis map_of_SomeD)
  then have "(k, v) \<in> set (lru_abs c) \<or> k = key \<and> v = value"
    using lru_evict_subset unfolding abs lru_insert_def by (fastforce split: if_splits)
  moreover have "distinct (map fst (lru_abs c))" using inv by (simp add: BlockCache_inv_def)
  ultimately show ?thesis
    using map_of_lru_abs[OF inv] by (metis map_of_is_SomeI)
qed

section \<open>The interface of a look-aside cache\<close>

text \<open>
  A cache in front of a store \<open>load\<close>: it may forget, but what it returns for a key was inserted
  for it. A client that inserts only what it loaded sees no difference from reading the store.
\<close>

locale lookaside_cache =
  fixes inv :: "'c \<Rightarrow> bool" and get :: "'k \<Rightarrow> 'c \<Rightarrow> 'v option \<times> 'c"
    and insert :: "'k \<Rightarrow> 'v \<Rightarrow> 'c \<Rightarrow> 'c option" and contents :: "'c \<Rightarrow> 'k \<rightharpoonup> 'v"
  assumes get_hit: "fst (get k c) = Some v \<Longrightarrow> contents c k = Some v"
    and get_keeps: "inv c \<Longrightarrow> inv (snd (get k c)) \<and> contents (snd (get k c)) = contents c"
    and insert_ends: "inv c \<Longrightarrow> \<exists>c'. insert k v c = Some c' \<and> inv c'"
    and insert_adds: "inv c \<Longrightarrow> insert k v c = Some c' \<Longrightarrow> contents c' k' = Some v' \<Longrightarrow>
      k' = k \<and> v' = v \<or> contents c k' = Some v'"
begin

lemma get_coherent:
  assumes "inv c" and "\<And>k v. contents c k = Some v \<Longrightarrow> load k = Some v"
  shows "fst (get k c) = Some v \<Longrightarrow> load k = Some v"
    and "contents (snd (get k c)) k' = Some v' \<Longrightarrow> load k' = Some v'"
    and "inv (snd (get k c))"
  using assms get_hit get_keeps by auto

lemma insert_coherent:
  assumes "inv c" and "\<And>k v. contents c k = Some v \<Longrightarrow> load k = Some v" and "load k = Some v"
  obtains c' where "insert k v c = Some c'" "inv c'" "\<And>k v. contents c' k = Some v \<Longrightarrow> load k = Some v"
  using insert_ends[OF assms(1), of k v] insert_adds[OF assms(1), of k v] assms(2,3) by blast

end

interpretation block_cache: lookaside_cache BlockCache_inv BlockCache_get BlockCache_insert bc_cache
proof unfold_locales
  fix k c v
  show "fst (BlockCache_get k c) = Some v \<Longrightarrow> bc_cache c k = Some v"
    by (auto simp: BlockCache_get_def Let_def split: if_splits option.splits)
next
  fix k :: CacheKey and v c
  show "BlockCache_inv c \<Longrightarrow> \<exists>c'. BlockCache_insert k v c = Some c' \<and> BlockCache_inv c'"
    using insert_refines by blast
qed (use get_inv insert_contents in auto)

section \<open>Properties\<close>

text \<open>
  C26. Insertion always ends, keeps the cache consistent and within its capacity, and has exactly
  the effect of the least-recently-used policy: the longest-unused blocks are evicted until the
  new block fits, an older block of the same key is replaced, and the new block becomes the most
  recently used; blocks larger than the capacity are not cached.
\<close>

theorem BlockCache_insert_lru:
  assumes "BlockCache_inv c"
  shows "\<exists>c'. BlockCache_insert key value c = Some c' \<and> BlockCache_inv c' \<and>
    BlockCache_size c' \<le> bc_capacity c' \<and>
    lru_abs c' = lru_insert (bc_capacity c) key value (lru_abs c)"
proof -
  obtain c' where c': "BlockCache_insert key value c = Some c'" "BlockCache_inv c'"
    "lru_abs c' = lru_insert (bc_capacity c) key value (lru_abs c)"
    using insert_refines[OF assms] by blast
  moreover have "BlockCache_size c' \<le> bc_capacity c'"
    using size_no_wrap[OF c'(2), of 0] c'(2) by (simp add: BlockCache_size_def BlockCache_inv_def)
  ultimately show ?thesis by blast
qed

definition small_cache :: BlockCache where
  "small_cache = (BlockCache_new 4)\<lparr>bc_current_size := 4,
     bc_cache := [CacheKey_new 1 0 \<mapsto> [7, 7], CacheKey_new 1 9 \<mapsto> [8, 8]],
     bc_queue := [CacheKey_new 1 0, CacheKey_new 1 9]\<rparr>"

lemma small_cache_inv: "BlockCache_inv small_cache"
  by (auto simp: small_cache_def BlockCache_new_def BlockCache_inv_def lru_abs_def CacheKey_new_def)

theorem BlockCache_insert_lru_witness:
  "\<exists>c'. BlockCache_insert (CacheKey_new 2 0) [5, 5, 5] small_cache = Some c' \<and>
     lru_abs c' = [(CacheKey_new 2 0, [5, 5, 5])]"
  using BlockCache_insert_lru[OF small_cache_inv, of "CacheKey_new 2 0" "[5, 5, 5]"]
  by (auto simp: lru_insert_def small_cache_def BlockCache_new_def lru_abs_def)

text \<open>
  A lookup in an enabled cache returns the block of the key if it is cached and makes it the
  most recently used one; nothing else changes in the cached blocks.
\<close>

theorem BlockCache_get_lru:
  assumes "BlockCache_inv c" and "bc_capacity c \<noteq> 0"
  shows "BlockCache_inv (snd (BlockCache_get key c)) \<and>
    (fst (BlockCache_get key c), lru_abs (snd (BlockCache_get key c))) = lru_get key (lru_abs c)"
  by (rule get_refines[OF assms])

theorem BlockCache_get_lru_witness:
  "fst (BlockCache_get (CacheKey_new 1 0) small_cache) = Some [7, 7] \<and>
   lru_abs (snd (BlockCache_get (CacheKey_new 1 0) small_cache)) =
     [(CacheKey_new 1 9, [8, 8]), (CacheKey_new 1 0, [7, 7])]"
  using BlockCache_get_lru[OF small_cache_inv, of "CacheKey_new 1 0"]
  by (auto simp: lru_get_def small_cache_def BlockCache_new_def lru_abs_def CacheKey_new_def)

end
