(* ===== verification/SST_Reader.thy ===== *)
theory SST_Reader
  imports SST_Builder LRU_Cache
begin

text \<open>
  \<^verbatim>\<open>src/src/sstable/reader.rs\<close>: opening a table file, point lookups with the Bloom filter and
  the block cache, the key range of a table, its key list and its iterator. A reader holds the
  bytes of its file. The cache is shared between readers, so operations that use it take it and
  return it; a reader opened without a cache leaves it alone. Read failures other than reaching
  the end of the file are not modelled; the allocation of a buffer of \<open>2 ^ 63\<close> bytes or more
  panics, and a seek beyond the largest file offset is rejected.
\<close>

section \<open>Definitions\<close>

record SSTableReader =
  sr_file :: bytes
  sr_file_number :: u64
  sr_index :: IndexBlock
  sr_bloom :: "BloomFilter option"
  sr_footer :: Footer
  sr_file_size :: u64
  sr_path :: string
  sr_cached :: bool

definition path_file_name :: "string \<Rightarrow> string option" where
  "path_file_name path =
     (let name = rev (takeWhile (\<lambda>c. c \<noteq> CHR ''/'') (rev path)) in
      if name = [] \<or> name = ''.'' \<or> name = ''..'' then None else Some name)"

definition decompress_block :: "ext \<Rightarrow> CompressionType \<Rightarrow> bytes \<Rightarrow> bytes res" where
  "decompress_block x c data =
     (case c of
        CompressionNone \<Rightarrow> Ok data
      | Snappy \<Rightarrow> (case x_decompress x data of
            Inl msg \<Rightarrow> Err (Internal (''Decompression failed: '' @ msg))
          | Inr d \<Rightarrow> Ok d))"

definition read_block_data :: "ext \<Rightarrow> bytes \<Rightarrow> BlockHandle \<Rightarrow> bytes res" where
  "read_block_data x file handle =
     (if 2 ^ 63 \<le> unat (bh_offset handle) then Err (Io (IoError KOther ''Invalid argument (os error 22)''))
      else
        let total_size = unat (bh_size handle) in
        if total_size < 5 then Err (Corruption ''Block size too small'')
        else if 2 ^ 63 \<le> total_size then Panic
        else bind_res (file_read_exact file (unat (bh_offset handle)) total_size) (\<lambda>buffer.
          let data_size = total_size - 5;
              data = take data_size buffer;
              compression_type = buffer ! data_size;
              stored_checksum = le_u32 (slice (data_size + 1) (data_size + 5) buffer);
              computed_checksum = x_crc x data
          in if computed_checksum \<noteq> stored_checksum
             then Err (ChecksumMismatch stored_checksum computed_checksum)
             else case CompressionType_from_u8 compression_type of
               None \<Rightarrow> Err (Corruption ''Invalid compression type'')
             | Some ct \<Rightarrow> decompress_block x ct data))"

text \<open>The end of the last data block according to the index; entries that do not decode are skipped.\<close>

function last_data_block_end :: "BlockIterator \<Rightarrow> u64 \<Rightarrow> u64 res" where
  "last_data_block_end it acc =
     (case BlockIterator_advance it of
        (False, _) \<Rightarrow> Ok acc
      | (True, it') \<Rightarrow>
          (case IndexIterator_entry it' of
             Ok e \<Rightarrow> last_data_block_end it' (bh_offset (ie_handle e) + bh_size (ie_handle e))
           | Err _ \<Rightarrow> last_data_block_end it' acc
           | Panic \<Rightarrow> Panic))"
  by pat_completeness auto
termination
  by (relation "measure (\<lambda>(it, acc). blk_restart_offset (it_block it) - it_current it)")
     (auto dest!: advance_progress[OF sym])

declare last_data_block_end.simps [simp del]

definition try_read_bloom_filter :: "ext \<Rightarrow> bytes \<Rightarrow> Footer \<Rightarrow> BloomFilter option res" where
  "try_read_bloom_filter x file footer =
     bind_res (read_block_data x file (index_handle footer)) (\<lambda>index_data.
     bind_res (IndexBlock_new index_data) (\<lambda>ib.
     bind_res (last_data_block_end (IndexBlock_first ib) 0) (\<lambda>last_end.
       if last_end = 0 then Ok None
       else
         let meta_block_size = bh_offset (meta_index_handle footer) - last_end in
         if \<not> (5 \<le> meta_block_size \<and> meta_block_size \<le> 100000000) then Ok None
         else bind_res (read_block_data x file (BlockHandle_new last_end meta_block_size)) (\<lambda>meta_data.
           if 12 < length meta_data then
             (case BloomFilter_decode meta_data of
                Ok f \<Rightarrow> Ok (Some f)
              | Err _ \<Rightarrow> Ok None
              | Panic \<Rightarrow> Panic)
           else Ok None))))"

definition table_file_number :: "ext \<Rightarrow> string \<Rightarrow> u64" where
  "table_file_number x path =
     (case Option.bind (path_file_name path) (\<lambda>n. Option.bind (strip_suffix ''.sst'' n) parse_u64) of
        Some n \<Rightarrow> n
      | None \<Rightarrow> x_path_hash x path)"

definition SSTableReader_open_with_cache :: "ext \<Rightarrow> string \<Rightarrow> bytes res \<Rightarrow> bool \<Rightarrow> SSTableReader res" where
  "SSTableReader_open_with_cache x path opened cached =
     bind_res opened (\<lambda>file.
       if length file < FOOTER_SIZE then Err (Corruption ''File too small to be a valid SSTable'')
       else
         bind_res (Footer_read_from file (length file - FOOTER_SIZE)) (\<lambda>footer.
         bind_res (read_block_data x file (index_handle footer)) (\<lambda>index_data.
         bind_res (IndexBlock_new index_data) (\<lambda>index_block.
         bind_res (if 5 < bh_size (meta_index_handle footer) then
                     (case try_read_bloom_filter x file footer of
                        Ok bf \<Rightarrow> Ok bf
                      | Err _ \<Rightarrow> Ok None
                      | Panic \<Rightarrow> Panic)
                   else Ok None) (\<lambda>bloom_filter.
           Ok \<lparr>sr_file = file, sr_file_number = table_file_number x path, sr_index = index_block,
               sr_bloom = bloom_filter, sr_footer = footer, sr_file_size = of_nat (length file),
               sr_path = path, sr_cached = cached\<rparr>)))))"

definition SSTableReader_open :: "ext \<Rightarrow> string \<Rightarrow> bytes res \<Rightarrow> SSTableReader res" where
  "SSTableReader_open x path opened = SSTableReader_open_with_cache x path opened False"

definition read_block_cached ::
  "ext \<Rightarrow> SSTableReader \<Rightarrow> BlockHandle \<Rightarrow> BlockCache \<Rightarrow> bytes res \<times> BlockCache" where
  "read_block_cached x rd handle cache =
     (if sr_cached rd then
        let cache_key = CacheKey_new (sr_file_number rd) (bh_offset handle) in
        case BlockCache_get cache_key cache of
          (Some cached_data, cache1) \<Rightarrow> (Ok cached_data, cache1)
        | (None, cache1) \<Rightarrow>
            try_st (read_block_data x (sr_file rd) handle, cache1) (\<lambda>data cache1.
              case BlockCache_insert cache_key data cache1 of
                Some cache2 \<Rightarrow> (Ok data, cache2)
              | None \<Rightarrow> (Panic, cache1))
      else (read_block_data x (sr_file rd) handle, cache))"

text \<open>The loop of \<^verbatim>\<open>get\<close> over the entries of a block.\<close>

function block_get :: "bytes \<Rightarrow> BlockIterator \<Rightarrow> bytes option res" where
  "block_get key it =
     (case BlockIterator_advance it of
        (False, _) \<Rightarrow> Ok None
      | (True, it') \<Rightarrow>
          bind_res (BlockIterator_key it') (\<lambda>k.
            if k = key then
              bind_res (BlockIterator_value it') (\<lambda>v. if v = [] then Ok None else Ok (Some v))
            else if key < k then Ok None
            else block_get key it'))"
  by pat_completeness auto
termination
  by (relation "measure (\<lambda>(key, it). blk_restart_offset (it_block it) - it_current it)")
     (auto dest!: advance_progress[OF sym])

declare block_get.simps [simp del]

definition block_lookup :: "bytes \<Rightarrow> bytes \<Rightarrow> bytes option res" where
  "block_lookup key block_data =
     bind_res (Block_new block_data) (\<lambda>b. block_get key (BlockIterator_seek_to_first (Block_iter b)))"

definition SSTableReader_get ::
  "ext \<Rightarrow> SSTableReader \<Rightarrow> bytes \<Rightarrow> BlockCache \<Rightarrow> bytes option res \<times> BlockCache" where
  "SSTableReader_get x rd key cache =
     try_st (case sr_bloom rd of None \<Rightarrow> Ok True | Some f \<Rightarrow> may_contain f key, cache) (\<lambda>maybe cache.
       if \<not> maybe then (Ok None, cache)
       else try_st (IndexBlock_find_block (sr_index rd) key, cache) (\<lambda>h cache.
         case h of
           None \<Rightarrow> (Ok None, cache)
         | Some handle \<Rightarrow>
             try_st (read_block_cached x rd handle cache) (\<lambda>block_data cache.
               (block_lookup key block_data, cache))))"

definition SSTableReader_num_blocks :: "SSTableReader \<Rightarrow> nat" where
  "SSTableReader_num_blocks rd = IndexBlock_len (sr_index rd)"

definition SSTableReader_file_number :: "SSTableReader \<Rightarrow> u64 option" where
  "SSTableReader_file_number rd =
     Option.bind (path_file_name (sr_path rd)) (\<lambda>n. Option.bind (strip_suffix ''.sst'' n) parse_u64)"

definition SSTableReader_smallest_key ::
  "ext \<Rightarrow> SSTableReader \<Rightarrow> BlockCache \<Rightarrow> bytes option res \<times> BlockCache" where
  "SSTableReader_smallest_key x rd cache =
     (case BlockIterator_advance (IndexBlock_first (sr_index rd)) of
        (False, _) \<Rightarrow> (Ok None, cache)
      | (True, it) \<Rightarrow>
          try_st (IndexIterator_entry it, cache) (\<lambda>entry cache.
          try_st (read_block_cached x rd (ie_handle entry) cache) (\<lambda>block_data cache.
          try_st (Block_new block_data, cache) (\<lambda>b cache.
            case BlockIterator_advance (BlockIterator_seek_to_first (Block_iter b)) of
              (False, _) \<Rightarrow> (Ok None, cache)
            | (True, it1) \<Rightarrow> (bind_res (BlockIterator_key it1) (\<lambda>k. Ok (Some k)), cache)))))"

function last_index_entry :: "BlockIterator \<Rightarrow> IndexEntry option \<Rightarrow> IndexEntry option res" where
  "last_index_entry it acc =
     (case BlockIterator_advance it of
        (False, _) \<Rightarrow> Ok acc
      | (True, it') \<Rightarrow> bind_res (IndexIterator_entry it') (\<lambda>e. last_index_entry it' (Some e)))"
  by pat_completeness auto
termination
  by (relation "measure (\<lambda>(it, acc). blk_restart_offset (it_block it) - it_current it)")
     (auto dest!: advance_progress[OF sym])

declare last_index_entry.simps [simp del]

definition SSTableReader_largest_key :: "SSTableReader \<Rightarrow> bytes option res" where
  "SSTableReader_largest_key rd =
     bind_res (last_index_entry (IndexBlock_first (sr_index rd)) None) (\<lambda>e. Ok (map_option ie_key e))"

definition SSTableReader_has_bloom_filter :: "SSTableReader \<Rightarrow> bool" where
  "SSTableReader_has_bloom_filter rd \<longleftrightarrow> sr_bloom rd \<noteq> None"

section \<open>The table iterator\<close>

record SSTableIterator =
  si_file :: bytes
  si_entries :: "(bytes \<times> BlockHandle) list"
  si_block_index :: nat
  si_block :: "Block option"
  si_iter :: "BlockIterator option"

function index_entries :: "BlockIterator \<Rightarrow> (bytes \<times> BlockHandle) list" where
  "index_entries it =
     (case BlockIterator_advance it of
        (False, _) \<Rightarrow> []
      | (True, it') \<Rightarrow>
          (case IndexIterator_entry it' of Ok e \<Rightarrow> [(ie_key e, ie_handle e)] | _ \<Rightarrow> []) @ index_entries it')"
  by pat_completeness auto
termination
  by (relation "measure (\<lambda>it. blk_restart_offset (it_block it) - it_current it)")
     (auto dest!: advance_progress[OF sym])

declare index_entries.simps [simp del]

definition SSTableIterator_new :: "SSTableReader \<Rightarrow> SSTableIterator" where
  "SSTableIterator_new rd =
     \<lparr>si_file = sr_file rd, si_entries = index_entries (IndexBlock_first (sr_index rd)),
      si_block_index = 0, si_block = None, si_iter = None\<rparr>"

definition load_current_block :: "ext \<Rightarrow> SSTableIterator \<Rightarrow> unit res \<times> SSTableIterator" where
  "load_current_block x si =
     (if length (si_entries si) \<le> si_block_index si then (Ok (), si\<lparr>si_block := None, si_iter := None\<rparr>)
      else
        try_st (read_block_data x (si_file si) (snd (si_entries si ! si_block_index si)), si) (\<lambda>block_data si.
        try_st (Block_new block_data, si) (\<lambda>b si.
          (Ok (), si\<lparr>si_block := Some b, si_iter := Some (BlockIterator_seek_to_first (Block_iter b))\<rparr>))))"

definition SSTableIterator_seek_to_first :: "ext \<Rightarrow> SSTableIterator \<Rightarrow> unit res \<times> SSTableIterator" where
  "SSTableIterator_seek_to_first x si = load_current_block x (si\<lparr>si_block_index := 0\<rparr>)"

definition SSTableIterator_advance :: "ext \<Rightarrow> SSTableIterator \<Rightarrow> bool res \<times> SSTableIterator" where
  "SSTableIterator_advance x si0 =
     (let (moved, si) =
        (case si_iter si0 of
           None \<Rightarrow> (False, si0)
         | Some it \<Rightarrow> (case BlockIterator_advance it of (b, it') \<Rightarrow> (b, si0\<lparr>si_iter := Some it'\<rparr>)))
      in if moved then (Ok True, si)
         else try_st (load_current_block x (si\<lparr>si_block_index := si_block_index si + 1\<rparr>)) (\<lambda>_ si.
           case si_iter si of
             None \<Rightarrow> (Ok False, si)
           | Some it \<Rightarrow> (case BlockIterator_advance it of (b, it') \<Rightarrow> (Ok b, si\<lparr>si_iter := Some it'\<rparr>))))"

definition SSTableIterator_valid :: "SSTableIterator \<Rightarrow> bool" where
  "SSTableIterator_valid si = (case si_iter si of None \<Rightarrow> False | Some it \<Rightarrow> it_valid it)"

definition SSTableIterator_key :: "SSTableIterator \<Rightarrow> bytes res" where
  "SSTableIterator_key si = (case si_iter si of None \<Rightarrow> Panic | Some it \<Rightarrow> BlockIterator_key it)"

definition SSTableIterator_value :: "SSTableIterator \<Rightarrow> bytes res" where
  "SSTableIterator_value si = (case si_iter si of None \<Rightarrow> Panic | Some it \<Rightarrow> BlockIterator_value it)"

definition si_left :: "SSTableIterator \<Rightarrow> nat" where
  "si_left si =
     (case si_iter si of
        None \<Rightarrow> 0
      | Some it \<Rightarrow> if it_valid it then Suc (blk_restart_offset (it_block it) - it_current it) else 0)"

lemma load_current_block_fields:
  assumes "load_current_block x si = (r, si')"
  shows "si_entries si' = si_entries si" "si_block_index si' = si_block_index si"
    "length (si_entries si) \<le> si_block_index si \<Longrightarrow> si_iter si' = None"
  using assms by (auto simp: load_current_block_def bind_st_def split: if_splits res.splits)

lemma table_advance_progress:
  assumes valid: "SSTableIterator_valid si" and adv: "SSTableIterator_advance x si = (Ok b, si')"
  shows "length (si_entries si') - si_block_index si' < length (si_entries si) - si_block_index si \<or>
    length (si_entries si') - si_block_index si' = length (si_entries si) - si_block_index si \<and>
    si_left si' < si_left si"
proof -
  obtain it where it: "si_iter si = Some it" "it_valid it"
    using valid by (auto simp: SSTableIterator_valid_def split: option.splits)
  obtain m it' where m: "BlockIterator_advance it = (m, it')" by fastforce
  show ?thesis
  proof (cases m)
    case True
    then have "si' = si\<lparr>si_iter := Some it'\<rparr>"
      using adv it m by (simp add: SSTableIterator_advance_def)
    moreover have "BlockIterator_advance it = (True, it')" using m True by simp
    ultimately show ?thesis using it advance_progress[of it it'] by (auto simp: si_left_def)
  next
    case False
    let ?si = "si\<lparr>si_iter := Some it', si_block_index := si_block_index si + 1\<rparr>"
    obtain r si2 where ld: "load_current_block x ?si = (r, si2)" by fastforce
    have si': "si_entries si' = si_entries si2" "si_block_index si' = si_block_index si2"
      "si_iter si2 = None \<Longrightarrow> si_iter si' = None"
      using adv it m False ld
      by (auto simp: SSTableIterator_advance_def bind_st_def split: res.splits option.splits prod.splits)
    have "si_left si > 0" using it by (simp add: si_left_def)
    then show ?thesis
      using load_current_block_fields[OF ld] si' by (cases "si_block_index si < length (si_entries si)")
        (auto simp: si_left_def)
  qed
qed

text \<open>The loop of \<^verbatim>\<open>keys\<close>.\<close>

function keys_loop :: "ext \<Rightarrow> SSTableIterator \<Rightarrow> bytes list \<Rightarrow> bytes list res" where
  "keys_loop x si acc =
     (if SSTableIterator_valid si then
        (case SSTableIterator_key si of
           Ok k \<Rightarrow>
             (case SSTableIterator_advance x si of
                (Ok _, si') \<Rightarrow> keys_loop x si' (acc @ [k])
              | (Err e, _) \<Rightarrow> Err e
              | (Panic, _) \<Rightarrow> Panic)
         | Err e \<Rightarrow> Err e
         | Panic \<Rightarrow> Panic)
      else Ok acc)"
  by pat_completeness auto
termination
  by (relation "measures [\<lambda>(x, si, acc). length (si_entries si) - si_block_index si, \<lambda>(x, si, acc). si_left si]")
     (auto dest!: table_advance_progress[OF _ sym])

declare keys_loop.simps [simp del]

definition SSTableReader_keys :: "ext \<Rightarrow> SSTableReader \<Rightarrow> bytes list res" where
  "SSTableReader_keys x rd =
     (case SSTableIterator_seek_to_first x (SSTableIterator_new rd) of
        (Ok _, si) \<Rightarrow> keys_loop x si []
      | (Err e, _) \<Rightarrow> Err e
      | (Panic, _) \<Rightarrow> Panic)"

end
