(* ===== verification/SST_Table.thy ===== *)
theory SST_Table
  imports SST_Reader
begin

text \<open>
  Tables end to end: what the builder writes, the reader reads. \<open>table_rep\<close> says that a reader
  represents a list of stored blocks; a file produced by the builder opens to such a reader, and
  every read operation of a reader is described by the entries it represents. Lookups are shown
  correct for every content of a shared cache that is coherent with the tables in use.
\<close>

section \<open>Reading stored blocks\<close>

definition block_holds :: "bytes \<Rightarrow> kv list \<Rightarrow> bool" where
  "block_holds d es \<longleftrightarrow>
     (\<exists>blk. Block_new d = Ok blk \<and> yields (BlockIterator_seek_to_first (Block_iter blk)) es \<and>
        it_key (BlockIterator_seek_to_first (Block_iter blk)) = [] \<and>
        (it_valid (BlockIterator_seek_to_first (Block_iter blk)) \<longleftrightarrow> es \<noteq> []))"

lemma CompressionType_from_as [simp]: "CompressionType_from_u8 (CompressionType_as_u8 c) = Some c"
  by (cases c) (simp_all add: CompressionType_from_u8_def)

lemma read_raw_block:
  assumes f: "file = pre @ raw_block x c raw @ suf" and len: "length file < 2 ^ 63"
  shows "read_block_data x file (BlockHandle_new (of_nat (length pre)) (of_nat (length raw) + 5)) =
    decompress_block x c raw"
proof -
  have "of_nat (length raw) + 5 = (of_nat (length raw + 5) :: u64)" by simp
  then have sz: "unat (of_nat (length raw) + 5 :: u64) = length raw + 5"
    using len f unat_of_nat_u64[of "length raw + 5"] by simp
  have off: "unat (of_nat (length pre) :: u64) = length pre"
    using len f by (intro unat_of_nat_u64) simp
  have read: "file_read_exact file (length pre) (length raw + 5) = Ok (raw_block x c raw)"
    using file_read_exact_middle[of pre "raw_block x c raw" suf] f by simp
  have "raw_block x c raw ! length raw = CompressionType_as_u8 c"
    "take (length raw) (raw_block x c raw) = raw"
    "slice (length raw + 1) (length raw + 5) (raw_block x c raw) = u32_le (x_crc x raw)"
    by (simp_all add: raw_block_def slice_def)
  moreover have "length pre < 2 ^ 63" "length raw + 5 < 2 ^ 63" using len f by simp_all
  ultimately show ?thesis
    by (simp add: read_block_data_def BlockHandle_new_def sz off read Let_def)
qed

lemma decompress_compress:
  assumes "compress_block x c d = Ok z" and "c = Snappy \<longrightarrow> snappy_law x" and "length d < 2 ^ 32"
  shows "decompress_block x c z = Ok d"
proof (cases c)
  case CompressionNone
  then show ?thesis using assms(1) by (simp add: compress_block_def decompress_block_def)
next
  case Snappy
  then obtain z' where "x_compress x d = Inr z'" "x_decompress x z' = Inr d"
    using assms(2,3) by (auto simp: snappy_law_def)
  then show ?thesis using assms(1) Snappy by (simp add: compress_block_def decompress_block_def)
qed

lemma stored_block_holds:
  assumes st: "block_stored x c (es, raw)" and snap: "c = Snappy \<longrightarrow> snappy_law x"
    and size: "kv_size es + 8 < 2 ^ 32"
  obtains d where "decompress_block x c raw = Ok d" "block_holds d es"
proof -
  obtain b where b: "block_rep b es" "compress_block x c (BlockBuilder_finish b) = Ok raw"
    using st by (auto simp: block_stored_def)
  have "length (BlockBuilder_finish b) < 2 ^ 32" using finish_length[OF b(1)] size by simp
  then have dec: "decompress_block x c raw = Ok (BlockBuilder_finish b)"
    by (rule decompress_compress[OF b(2) snap])
  have "length es + 1 < 2 ^ 32" using length_le_kv_size[of es] size by simp
  moreover have "entries_fit es" using size by (intro entries_fit_kv_size) simp
  ultimately show ?thesis
    by (intro that[OF dec]) (rule built_block_yields[OF b(1)], auto simp: block_holds_def)
qed

lemma index_of_handle:
  assumes "i < length bs"
  shows "ie_handle (index_of off bs ! i) =
    BlockHandle_new (of_nat (off + length (data_section x c (take i bs)))) (of_nat (length (snd (bs ! i))) + 5)"
  using assms
proof (induction off bs arbitrary: i rule: index_of.induct)
  case (1 off)
  then show ?case by simp
next
  case (2 off es raw bs)
  show ?case
  proof (cases i)
    case 0
    then show ?thesis by (simp add: IndexEntry_new_def)
  next
    case (Suc j)
    then show ?thesis using 2(1)[of j] 2(2) by (simp add: add_ac)
  qed
qed

lemma data_section_split:
  assumes "i < length bs"
  shows "data_section x c bs =
    data_section x c (take i bs) @ raw_block x c (snd (bs ! i)) @ data_section x c (drop (Suc i) bs)"
  using arg_cong[OF id_take_nth_drop[OF assms], of "data_section x c"] by simp

lemma kv_size_nth: "i < length bs \<Longrightarrow> kv_size (fst (bs ! i)) \<le> kv_size (stored_entries bs)"
  by (induction bs arbitrary: i) (auto simp: nth_Cons split: nat.splits intro: le_SucI trans_le_add2)

definition table_rep :: "ext \<Rightarrow> SSTableReader \<Rightarrow> stored_block list \<Rightarrow> bool" where
  "table_rep x rd bs \<longleftrightarrow>
     index_rep (sr_index rd) (index_of 0 bs) \<and> kv_sorted (stored_entries bs) \<and>
     bloom_covers (sr_bloom rd) (fst ` set (stored_entries bs)) \<and>
     (\<forall>i < length bs. fst (bs ! i) \<noteq> [] \<and>
        (\<exists>d. read_block_data x (sr_file rd) (ie_handle (index_of 0 bs ! i)) = Ok d \<and> block_holds d (fst (bs ! i))))"

text \<open>A reader on a file with the layout of a table can read every block.\<close>

lemma layout_blocks:
  assumes layout: "table_layout x c bs meta file" and len: "length file < 2 ^ 63"
    and st: "\<forall>b \<in> set bs. block_stored x c b" and snap: "c = Snappy \<longrightarrow> snappy_law x"
    and size: "kv_size (stored_entries bs) + 8 < 2 ^ 32" and i: "i < length bs"
  shows "\<exists>d. read_block_data x file (ie_handle (index_of 0 bs ! i)) = Ok d \<and> block_holds d (fst (bs ! i))"
proof -
  obtain es raw where b: "bs ! i = (es, raw)" by (cases "bs ! i")
  obtain suf where "file = data_section x c bs @ suf" using layout by (auto simp: table_layout_def)
  then have f: "file = data_section x c (take i bs) @ raw_block x c raw @ (data_section x c (drop (Suc i) bs) @ suf)"
    using data_section_split[OF i, of x c] b by simp
  have "block_stored x c (es, raw)" using st i b by (metis nth_mem)
  moreover have "kv_size es + 8 < 2 ^ 32" using kv_size_nth[OF i] b size by simp
  ultimately obtain d where "decompress_block x c raw = Ok d" "block_holds d es"
    using stored_block_holds[OF _ snap] by blast
  then show ?thesis
    using read_raw_block[OF f len] index_of_handle[OF i, of 0 x c] b by simp
qed

section \<open>Opening a table\<close>

lemma yields_index_ConsE:
  assumes "yields it (index_kvs (e # es))"
  obtains it' where "BlockIterator_advance it = (True, it')" "yields it' (index_kvs es)"
    "IndexIterator_entry it' = Ok e"
proof -
  have "yields it ((ie_key e, BlockHandle_encode (ie_handle e)) # index_kvs es)"
    using assms by (simp add: index_kvs_def)
  then show ?thesis
    by (elim yields_ConsE) (rule that, auto simp: IndexIterator_entry_def IndexEntry_new_def)
qed

lemma yields_index_NilE:
  assumes "yields it (index_kvs [])"
  obtains it' where "BlockIterator_advance it = (False, it')"
proof -
  have "yields it []" using assms by (simp add: index_kvs_def)
  then show ?thesis by (elim yields_NilE) (rule that)
qed

lemma last_data_block_end_yields:
  "yields it (index_kvs es) \<Longrightarrow> last_data_block_end it acc =
     Ok (if es = [] then acc else BlockHandle_end_offset (ie_handle (last es)))"
proof (induction es arbitrary: it acc)
  case Nil
  then show ?case by (elim yields_index_NilE) (simp add: last_data_block_end.simps[of it])
next
  case (Cons e es)
  then show ?case
    by (elim yields_index_ConsE) (simp add: last_data_block_end.simps[of it] BlockHandle_end_offset_def)
qed

lemma last_handle_end:
  assumes "bs \<noteq> []"
  shows "BlockHandle_end_offset (ie_handle (last (index_of 0 bs))) = of_nat (length (data_section x c bs))"
proof -
  have i: "length bs - 1 < length bs" using assms by simp
  have ne: "index_of 0 bs \<noteq> []" using assms by (metis length_0_conv length_index_of)
  have "last (index_of 0 bs) = index_of 0 bs ! (length bs - 1)" using ne by (simp add: last_conv_nth)
  moreover have "length (data_section x c bs) =
      length (data_section x c (take (length bs - 1) bs)) + length (snd (bs ! (length bs - 1))) + 5"
    using data_section_split[OF i, of x c] assms by simp
  ultimately show ?thesis
    using index_of_handle[OF i, of 0 x c] by (simp add: BlockHandle_end_offset_def BlockHandle_new_def)
qed

lemma meta_readable:
  assumes f: "file = data @ raw_block x CompressionNone meta @ suf" and len: "length file < 2 ^ 63"
  shows "read_block_data x file (BlockHandle_new (of_nat (length data)) (of_nat (length meta) + 5)) = Ok meta"
  using read_raw_block[OF f len] by (simp add: decompress_block_def)

lemma try_read_bloom_covers:
  assumes ix: "read_block_data x file (index_handle footer) = Ok ixdata" "IndexBlock_new ixdata = Ok ib"
    and rep: "index_rep ib (index_of 0 bs)"
    and f: "file = data_section x c bs @ raw_block x CompressionNone (meta_bytes bf) @ suf"
    and len: "length file < 2 ^ 63" and covers: "bloom_covers bf keys"
    and footer: "bh_offset (meta_index_handle footer) = of_nat (length (data_section x c bs) + length (meta_bytes bf) + 5)"
    and none: "bs = [] \<Longrightarrow> keys = {}"
  shows "\<exists>bf'. try_read_bloom_filter x file footer = Ok bf' \<and> bloom_covers bf' keys"
proof -
  let ?d = "length (data_section x c bs)" and ?m = "meta_bytes bf"
  have le: "last_data_block_end (IndexBlock_first ib) 0 = Ok (if bs = [] then 0 else of_nat ?d)"
    using last_data_block_end_yields[of "IndexBlock_first ib" "index_of 0 bs" 0] rep last_handle_end[of bs x c]
    by (cases bs) (auto simp: index_rep_def)
  show ?thesis
  proof (cases "bs = [] \<or> (of_nat ?d :: u64) = 0")
    case True
    then show ?thesis using ix le by (auto simp: try_read_bloom_filter_def bloom_covers_def)
  next
    case False
    have sz: "bh_offset (meta_index_handle footer) - of_nat ?d = of_nat (length ?m) + 5"
      by (simp add: footer)
    have read: "read_block_data x file (BlockHandle_new (of_nat ?d) (of_nat (length ?m) + 5)) = Ok ?m"
      by (rule meta_readable[OF f len])
    define r where "r = (if 12 < length ?m then
        (case BloomFilter_decode ?m of Ok f \<Rightarrow> Ok (Some f) | Err _ \<Rightarrow> Ok None | Panic \<Rightarrow> Panic) else Ok None)"
    have "\<exists>bf'. r = Ok bf' \<and> bloom_covers bf' keys"
    proof (cases bf)
      case None
      then show ?thesis by (simp add: r_def meta_bytes_def bloom_covers_def)
    next
      case (Some g)
      then have "BloomFilter_decode ?m = Ok g"
        using covers BloomFilter_decode_encode[of g] by (simp add: meta_bytes_def bloom_covers_def)
      then show ?thesis using covers Some by (auto simp: r_def bloom_covers_def)
    qed
    moreover have "try_read_bloom_filter x file footer =
        (if \<not> (5 \<le> of_nat (length ?m) + (5 :: u64) \<and> of_nat (length ?m) + (5 :: u64) \<le> 100000000) then Ok None else r)"
      unfolding try_read_bloom_filter_def ix bind_res_simps le Let_def r_def
      using False by (simp add: sz read)
    ultimately show ?thesis by (auto simp: bloom_covers_def)
  qed
qed

text \<open>The index of a table within the size limits can be read back.\<close>

lemma layout_index:
  assumes ih: "index_holds ib (index_of 0 bs)" and kv_ne: "\<forall>b \<in> set bs. fst b \<noteq> []"
    and sorted: "kv_sorted (stored_entries bs)" and size: "kv_size (stored_entries bs) + 8 < 2 ^ 32"
  obtains ixb where "IndexBlock_new (IndexBlockBuilder_finish ib) = Ok ixb" "index_rep ixb (index_of 0 bs)"
proof -
  have isort: "kv_sorted (index_kvs (index_of 0 bs))" by (rule index_sorted[OF sorted kv_ne])
  have keys: "length (ie_key e) < 2 ^ 32" if e: "e \<in> set (index_of 0 bs)" for e
  proof -
    have "ie_key e \<in> set (map (fst \<circ> last \<circ> fst) bs)"
      using e unfolding keys_index_of[of 0 bs, symmetric] by simp
    then obtain b where b: "b \<in> set bs" "ie_key e = fst (last (fst b))" by auto
    have "last (fst b) \<in> set (stored_entries bs)" using b(1) kv_ne
      by (auto simp: stored_entries_def intro!: bexI[of _ b])
    then show ?thesis
      using entries_fit_kv_size[of "stored_entries bs"] size b(2) by (auto simp: entries_fit_def)
  qed
  have nb: "length bs + 1 < 2 ^ 32"
  proof -
    have "length bs \<le> length (stored_entries bs)"
      using kv_ne by (induction bs) (auto simp: Suc_le_eq length_greater_0_conv[symmetric] simp del: length_greater_0_conv)
    then show ?thesis using length_le_kv_size[of "stored_entries bs"] size by simp
  qed
  show ?thesis
  proof (rule index_built[of ib "index_of 0 bs"])
    show "sorted_wrt (<) (map ie_key (index_of 0 bs))"
      using isort by (simp add: kv_sorted_def index_kvs_def comp_def)
  qed (use ih keys nb that in \<open>simp_all add: index_holds_def\<close>)
qed

lemma open_layout:
  assumes layout: "table_layout x c bs (meta_bytes bf) file" and len: "length file < 2 ^ 63"
    and st: "\<forall>b \<in> set bs. block_stored x c b" and snap: "c = Snappy \<longrightarrow> snappy_law x"
    and sorted: "kv_sorted (stored_entries bs)"
    and size: "kv_size (stored_entries bs) + 8 < 2 ^ 32"
    and covers: "bloom_covers bf (fst ` set (stored_entries bs))"
  obtains rd where "SSTableReader_open_with_cache x path (Ok file) cached = Ok rd" "table_rep x rd bs"
    "sr_path rd = path" "sr_file_number rd = table_file_number x path" "sr_cached rd = cached"
    "sr_file rd = file"
proof -
  let ?d = "data_section x c bs" and ?m = "meta_bytes bf"
  obtain ib where ih: "index_holds ib (index_of 0 bs)" and
    f: "file = ?d @ raw_block x CompressionNone ?m @ raw_block x CompressionNone (replicate 8 0) @
         raw_block x CompressionNone (IndexBlockBuilder_finish ib) @
         Footer_encode (Footer_new (BlockHandle_new (of_nat (length ?d + length ?m + 5)) 13)
           (BlockHandle_new (of_nat (length ?d + length ?m + 18)) (of_nat (length (IndexBlockBuilder_finish ib) + 5))))"
    using layout by (auto simp: table_layout_def)
  let ?ix = "IndexBlockBuilder_finish ib"
  define footer where "footer = Footer_new (BlockHandle_new (of_nat (length ?d + length ?m + 5)) 13)
      (BlockHandle_new (of_nat (length ?d + length ?m + 18)) (of_nat (length ?ix + 5)))"
  let ?pre = "?d @ raw_block x CompressionNone ?m @ raw_block x CompressionNone (replicate 8 0)"
  have f2: "file = ?pre @ raw_block x CompressionNone ?ix @ Footer_encode footer"
    using f by (simp add: footer_def)
  have foot: "Footer_read_from file (length file - FOOTER_SIZE) = Ok footer" "\<not> length file < FOOTER_SIZE"
    using file_read_exact_middle[of "?pre @ raw_block x CompressionNone ?ix" "Footer_encode footer" "[]"]
    by (simp_all add: f2 Footer_read_from_def FOOTER_SIZE_def add_ac)
  have ixr: "read_block_data x file (index_handle footer) = Ok ?ix"
    using read_raw_block[OF f2 len] by (simp add: footer_def Footer_new_def decompress_block_def add_ac)
  have kv_ne: "\<forall>b \<in> set bs. fst b \<noteq> []" using st by (auto simp: block_stored_def)
  obtain ixb where ixb: "IndexBlock_new ?ix = Ok ixb" "index_rep ixb (index_of 0 bs)"
    by (rule layout_index[OF ih kv_ne sorted size])
  obtain bf' where bf': "try_read_bloom_filter x file footer = Ok bf'"
    "bloom_covers bf' (fst ` set (stored_entries bs))"
    using try_read_bloom_covers[OF ixr ixb, of c bf _ "fst ` set (stored_entries bs)"] f len covers
    by (auto simp: footer_def Footer_new_def BlockHandle_new_def)
  have big: "5 < bh_size (meta_index_handle footer)"
    by (simp add: footer_def Footer_new_def BlockHandle_new_def)
  define rd where "rd = \<lparr>sr_file = file, sr_file_number = table_file_number x path, sr_index = ixb,
    sr_bloom = bf', sr_footer = footer, sr_file_size = of_nat (length file), sr_path = path, sr_cached = cached\<rparr>"
  have op: "SSTableReader_open_with_cache x path (Ok file) cached = Ok rd"
    using foot ixr ixb(1) bf'(1) big by (simp add: SSTableReader_open_with_cache_def rd_def)
  have rep: "table_rep x rd bs"
    using ixb(2) bf'(2) sorted layout_blocks[OF layout len st snap size] kv_ne
    by (auto simp: table_rep_def rd_def)
  show ?thesis by (rule that[OF op rep]) (simp_all add: rd_def)
qed

section \<open>Lookups\<close>

definition sst_lookup :: "kv list \<Rightarrow> bytes \<Rightarrow> bytes option" where
  "sst_lookup es key = (case map_of es key of Some v \<Rightarrow> if v = [] then None else Some v | None \<Rightarrow> None)"

lemma map_of_below:
  "\<forall>e \<in> set es. key < fst e \<Longrightarrow> map_of es key = (None :: 'b option)" for key :: "'a::linorder"
  by (induction es) auto

lemma map_of_above:
  "\<forall>e \<in> set es. fst e < key \<Longrightarrow> map_of es key = (None :: 'b option)" for key :: "'a::linorder"
  by (induction es) auto

lemma kv_sorted_Cons: "kv_sorted (e # es) \<longleftrightarrow> fst e \<noteq> [] \<and> kv_sorted es \<and> (\<forall>b \<in> set es. fst e < fst b)"
  by (auto simp: kv_sorted_def)

lemma block_get_yields:
  assumes "yields it es" and "kv_sorted es"
  shows "block_get key it = Ok (sst_lookup es key)"
  using assms
proof (induction es arbitrary: it)
  case Nil
  then show ?case by (elim yields_NilE) (simp add: block_get.simps[of key it] sst_lookup_def)
next
  case (Cons e es)
  obtain it' where it': "BlockIterator_advance it = (True, it')" "yields it' es"
    "BlockIterator_key it' = Ok (fst e)" "BlockIterator_value it' = Ok (snd e)"
    using Cons.prems(1) by (elim yields_ConsE) blast
  have srt: "kv_sorted es" "\<forall>b \<in> set es. fst e < fst b" using Cons.prems(2) by (simp_all add: kv_sorted_Cons)
  have step: "block_get key it =
      (if fst e = key then (if snd e = [] then Ok None else Ok (Some (snd e)))
       else if key < fst e then Ok None else block_get key it')"
    using it' by (subst block_get.simps) simp
  consider "fst e = key" | "fst e \<noteq> key" "key < fst e" | "fst e \<noteq> key" "\<not> key < fst e" by blast
  then show ?case
  proof cases
    case 1
    then show ?thesis by (simp add: step sst_lookup_def)
  next
    case 2
    then have "\<forall>b \<in> set es. key < fst b" using srt(2) by (meson order.strict_trans)
    then have "map_of es key = None" by (rule map_of_below)
    with 2 show ?thesis by (simp add: step sst_lookup_def)
  next
    case 3
    then show ?thesis using Cons.IH[OF it'(2) srt(1)] by (simp add: step sst_lookup_def)
  qed
qed

lemma block_lookup_holds:
  assumes "block_holds d es" and "kv_sorted es"
  shows "block_lookup key d = Ok (sst_lookup es key)"
  using assms block_get_yields by (auto simp: block_holds_def block_lookup_def)

text \<open>The block that the index selects is the only one that can hold the key.\<close>

lemma selected_block:
  assumes "kv_sorted (stored_entries bs)" and "\<forall>b \<in> set bs. fst b \<noteq> []" and "bs \<noteq> []"
  shows "\<exists>i < length bs. index_lookup key (index_of off bs) = Some (ie_handle (index_of off bs ! i)) \<and>
    map_of (stored_entries bs) key = map_of (fst (bs ! i)) key"
  using assms
proof (induction bs arbitrary: off)
  case Nil
  then show ?case by simp
next
  case (Cons b bs)
  obtain es raw where b: "b = (es, raw)" by (cases b)
  let ?e = "IndexEntry_new (fst (last es)) (BlockHandle_new (of_nat off) (of_nat (length raw) + 5))"
  have ix: "index_of off (b # bs) = ?e # index_of (off + length raw + 5) bs" by (simp add: b)
  have es: "es \<noteq> []" "kv_sorted es" and srt: "kv_sorted (stored_entries bs)"
    and sep: "\<forall>a \<in> set es. \<forall>c \<in> set (stored_entries bs). fst a < fst c"
    using Cons.prems by (simp_all add: b kv_sorted_append)
  show ?case
  proof (cases "fst (last es) < key")
    case False
    then have le: "key \<le> fst (last es)" by (simp add: not_less)
    have "\<forall>c \<in> set (stored_entries bs). key < fst c"
      using le sep es(1) by (meson last_in_set order.strict_trans1)
    then have "map_of (stored_entries bs) key = None" by (rule map_of_below)
    then have "map_of (stored_entries (b # bs)) key = map_of es key"
      by (simp add: b map_of_append map_add_def split: option.splits)
    moreover have "index_lookup key (index_of off (b # bs)) = Some (ie_handle ?e)"
      using False by (simp add: index_lookup_def ix IndexEntry_new_def)
    ultimately show ?thesis by (intro exI[of _ 0]) (simp add: b)
  next
    case True
    have "\<forall>a \<in> set es. fst a < key"
    proof
      fix a assume a: "a \<in> set es"
      have "fst a \<le> fst (last es)"
        using es a by (cases es rule: rev_cases) (auto simp: kv_sorted_append)
      then show "fst a < key" using True by simp
    qed
    then have none: "map_of es key = None" by (rule map_of_above)
    show ?thesis
    proof (cases "bs = []")
      case nil: True
      then show ?thesis using True none
        by (intro exI[of _ 0]) (simp add: b index_lookup_def IndexEntry_new_def)
    next
      case False
      then obtain i where i: "i < length bs"
        "index_lookup key (index_of (off + length raw + 5) bs) = Some (ie_handle (index_of (off + length raw + 5) bs ! i))"
        "map_of (stored_entries bs) key = map_of (fst (bs ! i)) key"
        using Cons.IH[OF srt, of "off + length raw + 5"] Cons.prems(2) by auto
      have ne: "index_of (off + length raw + 5) bs \<noteq> []" using False by (metis length_0_conv length_index_of)
      have "index_lookup key (index_of off (b # bs)) = index_lookup key (index_of (off + length raw + 5) bs)"
        using True ne
        by (auto simp: ix index_lookup_def IndexEntry_new_def dropWhile_eq_Nil_conv[symmetric]
            simp del: dropWhile_eq_Nil_conv split: list.splits)
      moreover have "map_of (stored_entries (b # bs)) key = map_of (stored_entries bs) key"
        using none by (simp add: b map_of_append map_add_def split: option.splits)
      ultimately show ?thesis using i by (intro exI[of _ "Suc i"]) (simp add: ix)
    qed
  qed
qed

section \<open>The shared cache\<close>

text \<open>
  \<open>store\<close> is what the tables in use have on disk under a cache key. A cache is coherent with it if
  it holds nothing else; a reader is served by it if it finds its own blocks there.
\<close>

definition coherent :: "(CacheKey \<rightharpoonup> bytes) \<Rightarrow> BlockCache \<Rightarrow> bool" where
  "coherent store cache \<longleftrightarrow> BlockCache_inv cache \<and> (\<forall>k v. bc_cache cache k = Some v \<longrightarrow> store k = Some v)"

definition served :: "ext \<Rightarrow> (CacheKey \<rightharpoonup> bytes) \<Rightarrow> SSTableReader \<Rightarrow> stored_block list \<Rightarrow> bool" where
  "served x store rd bs \<longleftrightarrow>
     (sr_cached rd \<longrightarrow> (\<forall>i < length bs. \<forall>d.
        read_block_data x (sr_file rd) (ie_handle (index_of 0 bs ! i)) = Ok d \<longrightarrow>
        store (CacheKey_new (sr_file_number rd) (bh_offset (ie_handle (index_of 0 bs ! i)))) = Some d))"

lemma read_block_cached_coherent:
  assumes coh: "coherent store cache" and read: "read_block_data x (sr_file rd) h = Ok d"
    and st: "sr_cached rd \<Longrightarrow> store (CacheKey_new (sr_file_number rd) (bh_offset h)) = Some d"
  obtains cache' where "read_block_cached x rd h cache = (Ok d, cache')" "coherent store cache'"
proof (cases "sr_cached rd")
  case False
  then show ?thesis using coh read that by (simp add: read_block_cached_def)
next
  case True
  let ?k = "CacheKey_new (sr_file_number rd) (bh_offset h)"
  have inv: "BlockCache_inv cache" and sub: "\<And>k v. bc_cache cache k = Some v \<Longrightarrow> store k = Some v"
    using coh by (auto simp: coherent_def)
  obtain r c1 where g: "BlockCache_get ?k cache = (r, c1)" by fastforce
  have c1: "BlockCache_inv c1" "\<And>k v. bc_cache c1 k = Some v \<Longrightarrow> store k = Some v"
    using block_cache.get_coherent(2,3)[where c = cache and k = ?k and load = store, OF inv sub] g by auto
  show ?thesis
  proof (cases r)
    case (Some v)
    then have "v = d"
      using block_cache.get_coherent(1)[where c = cache and k = ?k and v = v and load = store, OF inv sub] g st[OF True] by simp
    with Some g True c1 show ?thesis
      by (intro that[of c1]) (auto simp: read_block_cached_def coherent_def)
  next
    case None
    obtain c2 where c2: "BlockCache_insert ?k d c1 = Some c2" "BlockCache_inv c2"
      "\<And>k v. bc_cache c2 k = Some v \<Longrightarrow> store k = Some v"
      using block_cache.insert_coherent[where c = c1 and load = store and k = ?k and v = d, OF c1 st[OF True]] by blast
    with None g True read show ?thesis
      by (intro that[of c2]) (auto simp: read_block_cached_def coherent_def)
  qed
qed

lemma table_get:
  assumes rep: "table_rep x rd bs" and coh: "coherent store cache" and srv: "served x store rd bs"
  obtains cache' where "SSTableReader_get x rd key cache = (Ok (sst_lookup (stored_entries bs) key), cache')"
    "coherent store cache'"
proof -
  let ?es = "stored_entries bs"
  have ir: "index_rep (sr_index rd) (index_of 0 bs)" and srt: "kv_sorted ?es"
    and cov: "bloom_covers (sr_bloom rd) (fst ` set ?es)"
    using rep by (simp_all add: table_rep_def)
  have ne: "\<forall>b \<in> set bs. fst b \<noteq> []" using rep unfolding table_rep_def by (metis in_set_conv_nth)
  define m where "m = (case sr_bloom rd of None \<Rightarrow> Ok True | Some f \<Rightarrow> may_contain f key)"
  have m: "m = Ok True \<or> m = Ok False \<and> key \<notin> fst ` set ?es"
  proof (cases "sr_bloom rd")
    case (Some f)
    then obtain b where "may_contain f key = Ok b" using cov may_contain_wf by (auto simp: bloom_covers_def)
    then show ?thesis using cov Some by (cases b) (auto simp: m_def bloom_covers_def)
  qed (simp add: m_def)
  show ?thesis
  proof (cases "m = Ok True")
    case False
    then have "map_of ?es key = None" using m by (simp add: map_of_eq_None_iff)
    moreover have "m = Ok False" using m False by simp
    ultimately show ?thesis
      using coh that[of cache] by (simp add: SSTableReader_get_def m_def[symmetric] sst_lookup_def)
  next
    case maybe: True
    show ?thesis
    proof (cases "bs = []")
      case True
      then show ?thesis
        using maybe coh that[of cache] find_block_correct[OF ir, of key]
        by (simp add: SSTableReader_get_def m_def[symmetric] sst_lookup_def index_lookup_def)
    next
      case False
      obtain i where i: "i < length bs"
        "index_lookup key (index_of 0 bs) = Some (ie_handle (index_of 0 bs ! i))"
        "map_of ?es key = map_of (fst (bs ! i)) key"
        using selected_block[OF srt ne False, of key 0] by blast
      let ?h = "ie_handle (index_of 0 bs ! i)"
      obtain d where d: "read_block_data x (sr_file rd) ?h = Ok d" "block_holds d (fst (bs ! i))"
        using rep i(1) by (auto simp: table_rep_def)
      have "sr_cached rd \<Longrightarrow> store (CacheKey_new (sr_file_number rd) (bh_offset ?h)) = Some d"
        using srv i(1) d(1) by (simp add: served_def)
      then obtain cache' where c: "read_block_cached x rd ?h cache = (Ok d, cache')" "coherent store cache'"
        using read_block_cached_coherent[OF coh d(1)] by blast
      have "kv_sorted (fst (bs ! i))"
        using arg_cong[OF id_take_nth_drop[OF i(1)], of stored_entries] srt by (simp add: kv_sorted_append)
      then have "block_lookup key d = Ok (sst_lookup ?es key)"
        using block_lookup_holds[OF d(2)] i(3) by (simp add: sst_lookup_def)
      then show ?thesis
        using maybe c find_block_correct[OF ir, of key] i(2)
        by (intro that[OF _ c(2)]) (simp add: SSTableReader_get_def m_def[symmetric])
    qed
  qed
qed

section \<open>Key range\<close>

lemma last_index_entry_yields:
  "yields it (index_kvs es) \<Longrightarrow> last_index_entry it acc = Ok (if es = [] then acc else Some (last es))"
proof (induction es arbitrary: it acc)
  case Nil
  then show ?case by (elim yields_index_NilE) (simp add: last_index_entry.simps[of it])
next
  case (Cons e es)
  then show ?case by (elim yields_index_ConsE) (simp add: last_index_entry.simps[of it])
qed

lemma last_key_index:
  assumes "bs \<noteq> []" and "\<forall>b \<in> set bs. fst b \<noteq> []"
  shows "ie_key (last (index_of 0 bs)) = fst (last (stored_entries bs))"
proof -
  have ne: "index_of 0 bs \<noteq> []" using assms(1) by (metis length_0_conv length_index_of)
  have "ie_key (last (index_of 0 bs)) = last (map ie_key (index_of 0 bs))"
    using ne by (simp add: last_map)
  also have "\<dots> = fst (last (fst (last bs)))" using assms(1) by (simp add: keys_index_of last_map)
  also have "\<dots> = fst (last (stored_entries bs))"
    using assms by (cases bs rule: rev_cases) auto
  finally show ?thesis .
qed

lemma table_largest_key:
  assumes rep: "table_rep x rd bs"
  shows "SSTableReader_largest_key rd =
    Ok (if bs = [] then None else Some (fst (last (stored_entries bs))))"
proof -
  have ys: "yields (IndexBlock_first (sr_index rd)) (index_kvs (index_of 0 bs))"
    using rep by (simp add: table_rep_def index_rep_def)
  have ne: "\<forall>b \<in> set bs. fst b \<noteq> []" using rep unfolding table_rep_def by (metis in_set_conv_nth)
  have "index_of 0 bs = [] \<longleftrightarrow> bs = []" by (metis length_0_conv length_index_of)
  then show ?thesis
    using last_index_entry_yields[OF ys, of None] last_key_index[OF _ ne]
    by (simp add: SSTableReader_largest_key_def)
qed

lemma table_smallest_key:
  assumes rep: "table_rep x rd bs" and coh: "coherent store cache" and srv: "served x store rd bs"
  obtains cache' where "SSTableReader_smallest_key x rd cache =
      (Ok (if bs = [] then None else Some (fst (hd (stored_entries bs)))), cache')" "coherent store cache'"
proof (cases bs)
  case Nil
  have "yields (IndexBlock_first (sr_index rd)) (index_kvs [])"
    using rep by (simp add: table_rep_def index_rep_def Nil)
  then show ?thesis
    using coh Nil that[of cache] by (elim yields_index_NilE) (simp add: SSTableReader_smallest_key_def)
next
  case (Cons b bs')
  obtain e es where ix: "index_of 0 bs = e # es"
    by (metis Cons length_index_of length_Suc_conv list.distinct(1) list.exhaust length_0_conv)
  have "yields (IndexBlock_first (sr_index rd)) (index_kvs (e # es))"
    using rep ix by (simp add: table_rep_def index_rep_def)
  then obtain it where it: "BlockIterator_advance (IndexBlock_first (sr_index rd)) = (True, it)"
    "IndexIterator_entry it = Ok e" by (elim yields_index_ConsE) blast
  have "fst b \<noteq> []" and "\<exists>d. read_block_data x (sr_file rd) (ie_handle e) = Ok d \<and> block_holds d (fst b)"
    using rep Cons ix by (auto simp: table_rep_def dest: spec[of _ 0])
  then obtain kv kvs d where b: "fst b = kv # kvs"
    and d: "read_block_data x (sr_file rd) (ie_handle e) = Ok d" "block_holds d (kv # kvs)"
    by (metis list.exhaust)
  have "sr_cached rd \<Longrightarrow> store (CacheKey_new (sr_file_number rd) (bh_offset (ie_handle e))) = Some d"
    using srv d(1) Cons ix by (auto simp: served_def dest: spec[of _ 0])
  then obtain cache' where c: "read_block_cached x rd (ie_handle e) cache = (Ok d, cache')" "coherent store cache'"
    using read_block_cached_coherent[OF coh d(1)] by blast
  obtain blk where blk: "Block_new d = Ok blk" "yields (BlockIterator_seek_to_first (Block_iter blk)) (kv # kvs)"
    using d(2) by (auto simp: block_holds_def)
  obtain it1 where "BlockIterator_advance (BlockIterator_seek_to_first (Block_iter blk)) = (True, it1)"
    "BlockIterator_key it1 = Ok (fst kv)"
    using blk(2) by (elim yields_ConsE) blast
  then show ?thesis
    using it c blk(1) Cons b by (intro that[OF _ c(2)]) (simp add: SSTableReader_smallest_key_def)
qed

section \<open>Iteration\<close>

fun table_yields :: "ext \<Rightarrow> SSTableIterator \<Rightarrow> kv list \<Rightarrow> bool" where
  "table_yields x si [] \<longleftrightarrow>
     (\<exists>si'. SSTableIterator_advance x si = (Ok False, si') \<and> \<not> SSTableIterator_valid si')"
| "table_yields x si (e # es) \<longleftrightarrow>
     (\<exists>si'. SSTableIterator_advance x si = (Ok True, si') \<and> SSTableIterator_valid si' \<and>
        SSTableIterator_key si' = Ok (fst e) \<and> SSTableIterator_value si' = Ok (snd e) \<and> table_yields x si' es)"

definition iterates :: "SSTableReader \<Rightarrow> stored_block list \<Rightarrow> SSTableIterator \<Rightarrow> bool" where
  "iterates rd bs si \<longleftrightarrow> si_file si = sr_file rd \<and>
     si_entries si = map (\<lambda>e. (ie_key e, ie_handle e)) (index_of 0 bs)"

lemma index_entries_yields:
  "yields it (index_kvs es) \<Longrightarrow> index_entries it = map (\<lambda>e. (ie_key e, ie_handle e)) es"
proof (induction es arbitrary: it)
  case Nil
  then show ?case by (elim yields_index_NilE) (simp add: index_entries.simps[of it])
next
  case (Cons e es)
  then show ?case by (elim yields_index_ConsE) (simp add: index_entries.simps[of it])
qed

lemma load_block:
  assumes rep: "table_rep x rd bs" and it: "iterates rd bs si" and j: "si_block_index si < length bs"
  obtains b it0 where
    "load_current_block x si = (Ok (), si\<lparr>si_block := Some b, si_iter := Some it0\<rparr>)"
    "yields it0 (fst (bs ! si_block_index si))" "it_key it0 = []" "it_valid it0"
proof -
  let ?j = "si_block_index si"
  obtain d where d: "read_block_data x (sr_file rd) (ie_handle (index_of 0 bs ! ?j)) = Ok d"
    "block_holds d (fst (bs ! ?j))" "fst (bs ! ?j) \<noteq> []"
    using rep j by (auto simp: table_rep_def)
  obtain blk where "Block_new d = Ok blk"
    "yields (BlockIterator_seek_to_first (Block_iter blk)) (fst (bs ! ?j))"
    "it_key (BlockIterator_seek_to_first (Block_iter blk)) = []"
    "it_valid (BlockIterator_seek_to_first (Block_iter blk))"
    using d(2,3) by (auto simp: block_holds_def)
  then show ?thesis using d(1) it j
    by (intro that[of "BlockIterator_seek_to_first (Block_iter blk)" blk])
       (simp_all add: load_current_block_def iterates_def)
qed

lemma table_yields_from:
  assumes rep: "table_rep x rd bs"
  shows "iterates rd bs si \<Longrightarrow> si_block_index si = j \<Longrightarrow> j < length bs \<Longrightarrow> si_iter si = Some it \<Longrightarrow>
    yields it es \<Longrightarrow> table_yields x si (es @ stored_entries (drop (Suc j) bs))"
proof (induction "length bs - j" arbitrary: j si it es rule: less_induct)
  case less
  show ?case
    using less.prems
  proof (induction es arbitrary: si it)
    case Nil
    obtain it' where it': "BlockIterator_advance it = (False, it')" using Nil(5) by (elim yields_NilE) blast
    let ?j = "Suc j"
    let ?si = "si\<lparr>si_iter := Some it', si_block_index := ?j\<rparr>"
    have adv: "SSTableIterator_advance x si = try_st (load_current_block x ?si) (\<lambda>_ si.
           case si_iter si of
             None \<Rightarrow> (Ok False, si)
           | Some it \<Rightarrow> (case BlockIterator_advance it of (b, it') \<Rightarrow> (Ok b, si\<lparr>si_iter := Some it'\<rparr>)))"
      using Nil(2,4) it' by (simp add: SSTableIterator_advance_def)
    show ?case
    proof (cases "?j < length bs")
      case False
      then have "load_current_block x ?si = (Ok (), ?si\<lparr>si_block := None, si_iter := None\<rparr>)"
        using Nil(1) by (simp add: load_current_block_def iterates_def)
      with False show ?thesis by (simp add: adv SSTableIterator_valid_def)
    next
      case True
      have "iterates rd bs ?si" "si_block_index ?si < length bs" using Nil(1) True by (simp_all add: iterates_def)
      then obtain b it0 where ld0: "load_current_block x ?si = (Ok (), ?si\<lparr>si_block := Some b, si_iter := Some it0\<rparr>)"
        "yields it0 (fst (bs ! si_block_index ?si))"
        by (rule load_block[OF rep])
      then have ld: "load_current_block x ?si = (Ok (), ?si\<lparr>si_block := Some b, si_iter := Some it0\<rparr>)"
        "yields it0 (fst (bs ! ?j))" by simp_all
      obtain e es' where e: "fst (bs ! ?j) = e # es'" using rep True by (auto simp: table_rep_def neq_Nil_conv)
      obtain it1 where it1: "BlockIterator_advance it0 = (True, it1)" "it_valid it1" "yields it1 es'"
        "BlockIterator_key it1 = Ok (fst e)" "BlockIterator_value it1 = Ok (snd e)"
        using ld(2) unfolding e by (elim yields_ConsE) blast
      define si1 where "si1 = ?si\<lparr>si_block := Some b, si_iter := Some it1\<rparr>"
      have "table_yields x si1 (es' @ stored_entries (drop (Suc ?j) bs))"
        by (rule less.hyps) (use Nil(1) True it1 in \<open>simp_all add: si1_def iterates_def\<close>)
      moreover have "SSTableIterator_advance x si = (Ok True, si1)"
        using adv ld(1) it1(1) by (simp add: si1_def)
      moreover have "stored_entries (drop ?j bs) = (e # es') @ stored_entries (drop (Suc ?j) bs)"
        using True e by (simp add: Cons_nth_drop_Suc[symmetric])
      ultimately show ?thesis
        using it1 by (simp add: SSTableIterator_valid_def SSTableIterator_key_def SSTableIterator_value_def si1_def)
    qed
  next
    case (Cons e es)
    obtain it1 where it1: "BlockIterator_advance it = (True, it1)" "it_valid it1" "yields it1 es"
      "BlockIterator_key it1 = Ok (fst e)" "BlockIterator_value it1 = Ok (snd e)"
      using Cons.prems(5) by (elim yields_ConsE) blast
    define si1 where "si1 = si\<lparr>si_iter := Some it1\<rparr>"
    have "table_yields x si1 (es @ stored_entries (drop (Suc j) bs))"
      by (rule Cons.IH) (use Cons.prems it1 in \<open>simp_all add: si1_def iterates_def\<close>)
    moreover have "SSTableIterator_advance x si = (Ok True, si1)"
      using Cons.prems(4) it1(1) by (simp add: SSTableIterator_advance_def si1_def)
    ultimately show ?case
      using it1 by (auto simp: SSTableIterator_valid_def SSTableIterator_key_def SSTableIterator_value_def si1_def)
  qed
qed

lemma table_iteration:
  assumes rep: "table_rep x rd bs"
  obtains si where "SSTableIterator_seek_to_first x (SSTableIterator_new rd) = (Ok (), si)"
    "table_yields x si (stored_entries bs)" "SSTableIterator_valid si \<longleftrightarrow> bs \<noteq> []"
    "bs \<noteq> [] \<Longrightarrow> SSTableIterator_key si = Ok []"
proof -
  let ?si = "SSTableIterator_new rd"
  have it: "iterates rd bs ?si" "si_block_index ?si = 0"
    using rep index_entries_yields[of "IndexBlock_first (sr_index rd)" "index_of 0 bs"]
    by (simp_all add: table_rep_def index_rep_def iterates_def SSTableIterator_new_def)
  have seek: "SSTableIterator_seek_to_first x ?si = load_current_block x ?si"
    by (simp add: SSTableIterator_seek_to_first_def SSTableIterator_new_def)
  show ?thesis
  proof (cases "bs = []")
    case True
    have "load_current_block x ?si = (Ok (), ?si\<lparr>si_block := None, si_iter := None\<rparr>)"
      using it True by (simp add: load_current_block_def iterates_def)
    moreover have "table_yields x (?si\<lparr>si_block := None, si_iter := None\<rparr>) []"
      using it True by (auto simp: SSTableIterator_advance_def load_current_block_def iterates_def SSTableIterator_valid_def)
    ultimately show ?thesis using True seek
      by (intro that[of "?si\<lparr>si_block := None, si_iter := None\<rparr>"]) (simp_all add: SSTableIterator_valid_def)
  next
    case False
    then have j0: "si_block_index ?si < length bs" using it(2) by simp
    obtain b it0 where ld: "load_current_block x ?si = (Ok (), ?si\<lparr>si_block := Some b, si_iter := Some it0\<rparr>)"
      "yields it0 (fst (bs ! 0))" "it_key it0 = []" "it_valid it0"
      by (rule load_block[OF rep it(1) j0, unfolded it(2)])
    let ?si0 = "?si\<lparr>si_block := Some b, si_iter := Some it0\<rparr>"
    have "table_yields x ?si0 (fst (bs ! 0) @ stored_entries (drop (Suc 0) bs))"
      by (rule table_yields_from[OF rep, of ?si0 0 it0]) (use it ld False in \<open>auto simp: iterates_def\<close>)
    moreover have "fst (bs ! 0) @ stored_entries (drop (Suc 0) bs) = stored_entries bs"
      using False by (cases bs) simp_all
    ultimately show ?thesis
      using False seek ld by (intro that[of ?si0]) (simp_all add: SSTableIterator_valid_def SSTableIterator_key_def BlockIterator_key_def)
  qed
qed

lemma keys_loop_yields:
  assumes "table_yields x si es" and "SSTableIterator_valid si" and "SSTableIterator_key si = Ok k"
  shows "keys_loop x si acc = Ok (acc @ k # map fst es)"
  using assms
proof (induction es arbitrary: si k acc)
  case Nil
  then show ?case by (subst keys_loop.simps) (auto simp: keys_loop.simps)
next
  case (Cons e es)
  then show ?case by (subst keys_loop.simps) auto
qed

section \<open>The length of a table file\<close>

lemma stored_length:
  assumes st: "block_stored x c b" and snap: "c = Snappy \<longrightarrow> snappy_law x"
    and size: "kv_size (fst b) + 8 < 2 ^ 32"
  shows "length (snd b) + 5 \<le> 6 * kv_size (fst b)"
proof -
  obtain bb where bb: "block_rep bb (fst b)" "compress_block x c (BlockBuilder_finish bb) = Ok (snd b)"
    and ne: "fst b \<noteq> []" using st by (auto simp: block_stored_def)
  let ?n = "length (BlockBuilder_finish bb)"
  have n: "?n \<le> kv_size (fst b) + 8" by (rule finish_length[OF bb(1)])
  have big: "16 \<le> kv_size (fst b)" using ne by (cases "fst b") auto
  have "length (snd b) \<le> 32 + ?n + ?n div 6"
  proof (cases c)
    case CompressionNone
    then show ?thesis using bb(2) by (simp add: compress_block_def)
  next
    case Snappy
    have "?n < 2 ^ 32" using n size by simp
    then obtain z where "x_compress x (BlockBuilder_finish bb) = Inr z" "length z \<le> 32 + ?n + ?n div 6"
      using snap Snappy by (auto simp: snappy_law_def)
    then show ?thesis using bb(2) Snappy by (simp add: compress_block_def)
  qed
  then show ?thesis using n big by simp
qed

lemma data_section_length:
  assumes "\<forall>b \<in> set bs. block_stored x c b" and "c = Snappy \<longrightarrow> snappy_law x"
    and "kv_size (stored_entries bs) + 8 < 2 ^ 32"
  shows "length (data_section x c bs) \<le> 6 * kv_size (stored_entries bs)"
  using assms
proof (induction bs)
  case Nil
  then show ?case by simp
next
  case (Cons b bs)
  then show ?case using stored_length[of x c b] by simp
qed

lemma index_size:
  "\<forall>b \<in> set bs. fst b \<noteq> [] \<Longrightarrow> kv_size (index_kvs (index_of off bs)) \<le> 2 * kv_size (stored_entries bs)"
proof (induction off bs rule: index_of.induct)
  case (1 off)
  then show ?case by (simp add: index_kvs_def)
next
  case (2 off es raw bs)
  have "length (fst (last es)) + 16 \<le> kv_size es"
    using 2(2) by (cases es rule: rev_cases) auto
  moreover have "kv_size (index_kvs (index_of (off + length raw + 5) bs)) \<le> 2 * kv_size (stored_entries bs)"
    using 2 by simp
  ultimately show ?case by (simp add: index_kvs_def IndexEntry_new_def)
qed

lemma layout_length:
  assumes layout: "table_layout x c bs (meta_bytes bf) file"
    and st: "\<forall>b \<in> set bs. block_stored x c b" and snap: "c = Snappy \<longrightarrow> snappy_law x"
    and size: "kv_size (stored_entries bs) + 8 < 2 ^ 32" and covers: "bloom_covers bf keys"
  shows "length file < 2 ^ 63"
proof -
  obtain ib where ih: "index_holds ib (index_of 0 bs)" and
    f: "length file = length (data_section x c bs) + length (meta_bytes bf) + length (IndexBlockBuilder_finish ib) + 71"
    using layout by (auto simp: table_layout_def)
  have "\<forall>b \<in> set bs. fst b \<noteq> []" using st by (auto simp: block_stored_def)
  then have "length (IndexBlockBuilder_finish ib) \<le> 2 * kv_size (stored_entries bs) + 8"
    using finish_length[of ib "index_kvs (index_of 0 bs)"] ih index_size[of bs 0]
    by (simp add: index_holds_def IndexBlockBuilder_finish_def)
  moreover have "length (meta_bytes bf) \<le> 12 + 2 ^ 61"
  proof (cases bf)
    case (Some g)
    then have "length (bf_bits g) \<le> (2 ^ 64 + 6) div 8"
      using covers div_le_mono[of "bf_num_bits g + 7" "2 ^ 64 + 6" 8]
      by (simp add: bloom_covers_def BloomFilter_wf_def)
    then show ?thesis using Some by (simp add: meta_bytes_def BloomFilter_encode_def)
  qed (simp add: meta_bytes_def)
  ultimately show ?thesis
    using f data_section_length[OF st snap size] size by simp
qed

section \<open>From entries to a reader\<close>

text \<open>The builder as the engine configures it, and the whole path from entries to an open table.\<close>

definition table_builder :: "ext \<Rightarrow> nat \<Rightarrow> CompressionType \<Rightarrow> nat \<Rightarrow> SSTableBuilder" where
  "table_builder x bsize c n =
     SSTableBuilder_set_expected_keys x n (SSTableBuilder_set_compression c
       (SSTableBuilder_set_block_size bsize (case SSTableBuilder_new (Ok (file_of [])) of Ok sb \<Rightarrow> sb)))"

definition ext_ok :: "ext \<Rightarrow> CompressionType \<Rightarrow> bool" where
  "ext_ok x c \<longleftrightarrow> (c = Snappy \<longrightarrow> snappy_law x) \<and> (\<forall>m. x_ln_bits x m < 2 ^ 64)"

lemma table_builder_rep: "ext_ok x c \<Longrightarrow> sb_rep x (table_builder x bsize c n) [] []"
  using sb_rep_new[of "file_of []" _ x] sb_rep_config
  by (simp add: table_builder_def SSTableBuilder_new_def file_of_def ext_ok_def)

lemma table_builder_compression [simp]: "sb_compression (table_builder x bsize c n) = c"
  by (simp add: table_builder_def SSTableBuilder_set_expected_keys_def SSTableBuilder_set_compression_def)

lemma build_and_open_from:
  assumes rep: "sb_rep x sb0 [] []" and snap: "sb_compression sb0 = Snappy \<longrightarrow> snappy_law x"
    and sorted: "kv_sorted es" and size: "kv_size es + 8 < 2 ^ 32"
  obtains sb sz f rd bs where
    "SSTableBuilder_add_all x es sb0 = (Ok (), sb)"
    "SSTableBuilder_finish x sb = (Ok sz, f)" "sz = of_nat (length (wf_data f))"
    "SSTableReader_open_with_cache x path (Ok (wf_data f)) cached = Ok rd"
    "table_rep x rd bs" "stored_entries bs = es" "sr_cached rd = cached"
    "sr_file_number rd = table_file_number x path" "length (wf_data f) < 2 ^ 63" "sr_path rd = path"
    "length (data_section x (sb_compression sb0) bs) < 2 ^ 64"
proof -
  let ?c = "sb_compression sb0"
  obtain sb sz f bs where b: "SSTableBuilder_add_all x es sb0 = (Ok (), sb)"
    "SSTableBuilder_finish x sb = (Ok sz, f)" "sz = of_nat (length (wf_data f))"
    "table_layout x ?c bs (meta_bytes (sb_bloom sb)) (wf_data f)" "stored_entries bs = es"
    "\<forall>b \<in> set bs. block_stored x ?c b" "bloom_covers (sb_bloom sb) (fst ` set es)"
    by (rule build_table[OF rep sorted size snap])
  have len: "length (wf_data f) < 2 ^ 63"
    using layout_length[OF b(4,6) snap] b(5,7) size by blast
  obtain rd where "SSTableReader_open_with_cache x path (Ok (wf_data f)) cached = Ok rd" "table_rep x rd bs"
    "sr_path rd = path" "sr_file_number rd = table_file_number x path" "sr_cached rd = cached"
    using open_layout[OF b(4) len b(6) snap, of path cached] b(5,7) sorted size by blast
  moreover have "length (data_section x ?c bs) < 2 ^ 64"
    using b(4) len by (auto simp: table_layout_def)
  ultimately show ?thesis using b len by (intro that) simp_all
qed

lemma build_and_open:
  assumes ext: "ext_ok x c" and sorted: "kv_sorted es" and size: "kv_size es + 8 < 2 ^ 32"
  obtains sb sz f rd bs where
    "SSTableBuilder_add_all x es (table_builder x bsize c n) = (Ok (), sb)"
    "SSTableBuilder_finish x sb = (Ok sz, f)" "sz = of_nat (length (wf_data f))"
    "SSTableReader_open_with_cache x path (Ok (wf_data f)) cached = Ok rd"
    "table_rep x rd bs" "stored_entries bs = es" "sr_cached rd = cached"
    "sr_file_number rd = table_file_number x path" "length (wf_data f) < 2 ^ 63" "sr_path rd = path"
    "length (data_section x c bs) < 2 ^ 64"
  using build_and_open_from[OF table_builder_rep[OF ext, of bsize n] _ sorted size] ext
  by (simp add: ext_ok_def) blast

lemma read_uncached: "\<not> sr_cached rd \<Longrightarrow> read_block_cached x rd h cache = (read_block_data x (sr_file rd) h, cache)"
  by (simp add: read_block_cached_def)

lemma get_uncached:
  assumes "\<not> sr_cached rd"
  shows "SSTableReader_get x rd key cache = (fst (SSTableReader_get x rd key cache'), cache)"
  by (simp add: SSTableReader_get_def read_uncached[OF assms] bind_st_def split: res.split option.split)

lemma table_keys:
  assumes "table_rep x rd bs"
  shows "SSTableReader_keys x rd = Ok (if bs = [] then [] else [] # map fst (stored_entries bs))"
proof (rule table_iteration[OF assms])
  fix si assume si: "SSTableIterator_seek_to_first x (SSTableIterator_new rd) = (Ok (), si)"
    "table_yields x si (stored_entries bs)" "SSTableIterator_valid si \<longleftrightarrow> bs \<noteq> []"
    "bs \<noteq> [] \<Longrightarrow> SSTableIterator_key si = Ok []"
  show ?thesis
  proof (cases "bs = []")
    case True
    then show ?thesis using si by (simp add: SSTableReader_keys_def keys_loop.simps)
  next
    case False
    then show ?thesis using si keys_loop_yields by (force simp: SSTableReader_keys_def)
  qed
qed

lemma coherent_new: "coherent store (BlockCache_new 0)"
  by (simp add: coherent_def BlockCache_new_def BlockCache_inv_def lru_abs_def)

lemma table_get_uncached:
  assumes "table_rep x rd bs" and "\<not> sr_cached rd"
  shows "SSTableReader_get x rd key cache = (Ok (sst_lookup (stored_entries bs) key), cache)"
proof -
  have "served x Map.empty rd bs" using assms(2) by (simp add: served_def)
  then obtain c where "SSTableReader_get x rd key (BlockCache_new 0) = (Ok (sst_lookup (stored_entries bs) key), c)"
    using table_get[OF assms(1) coherent_new] by blast
  then show ?thesis using get_uncached[OF assms(2), of x key cache "BlockCache_new 0"] by simp
qed

lemma stored_nonempty: "table_rep x rd bs \<Longrightarrow> bs = [] \<longleftrightarrow> stored_entries bs = []"
  by (cases bs) (auto simp: table_rep_def dest: spec[of _ 0])

section \<open>Properties\<close>

text \<open>
  C20. The table format works end to end: strictly ascending non-empty keys (at most 4 GiB in all)
  are accepted by a builder with any block size, compression and expected number of keys; the
  finished file has the reported size and opens; and a lookup of any key returns its value, or
  nothing if the key is absent or its value is empty (a tombstone).
\<close>

theorem SSTable_roundtrip:
  assumes "ext_ok x c" and "kv_sorted es" and "kv_size es + 8 < 2 ^ 32"
  shows "\<exists>sb sz f rd.
    SSTableBuilder_add_all x es (table_builder x bsize c n) = (Ok (), sb) \<and>
    SSTableBuilder_finish x sb = (Ok sz, f) \<and> sz = of_nat (length (wf_data f)) \<and>
    SSTableReader_open x path (Ok (wf_data f)) = Ok rd \<and>
    (\<forall>key cache. SSTableReader_get x rd key cache = (Ok (sst_lookup es key), cache))"
  by (rule build_and_open[OF assms, of bsize n path False])
     (metis SSTableReader_open_def table_get_uncached)

definition sample_ext :: ext where
  "sample_ext = \<lparr>x_crc = (\<lambda>bs. of_nat (length bs)), x_compress = Inr, x_decompress = Inr,
     x_path_hash = (\<lambda>_. 0), x_ln_bits = (\<lambda>n. 10 * (n mod 1000)), x_ln_hashes = (\<lambda>_ _. 7)\<rparr>"

definition sample_entries :: "kv list" where
  "sample_entries = [([1], [7]), ([1, 2], []), ([3], [8])]"

lemma sample_ok: "ext_ok sample_ext Snappy" "kv_sorted sample_entries" "kv_size sample_entries + 8 < 2 ^ 32"
  by (auto simp: ext_ok_def snappy_law_def sample_ext_def sample_entries_def kv_sorted_def
      intro: le_less_trans[of _ 10000])

theorem SSTable_roundtrip_witness:
  "\<exists>sb sz f rd.
    SSTableBuilder_add_all sample_ext sample_entries (table_builder sample_ext 20 Snappy 3) = (Ok (), sb) \<and>
    SSTableBuilder_finish sample_ext sb = (Ok sz, f) \<and>
    SSTableReader_open sample_ext ''000002.sst'' (Ok (wf_data f)) = Ok rd \<and>
    fst (SSTableReader_get sample_ext rd [3] (BlockCache_new 0)) = Ok (Some [8]) \<and>
    fst (SSTableReader_get sample_ext rd [1, 2] (BlockCache_new 0)) = Ok None \<and>
    fst (SSTableReader_get sample_ext rd [2] (BlockCache_new 0)) = Ok None"
proof -
  obtain sb sz f rd where "SSTableBuilder_add_all sample_ext sample_entries (table_builder sample_ext 20 Snappy 3) = (Ok (), sb)"
    "SSTableBuilder_finish sample_ext sb = (Ok sz, f)"
    "SSTableReader_open sample_ext ''000002.sst'' (Ok (wf_data f)) = Ok rd"
    "\<forall>key cache. SSTableReader_get sample_ext rd key cache = (Ok (sst_lookup sample_entries key), cache)"
    using SSTable_roundtrip[OF sample_ok, of 20 3 "''000002.sst''"] by blast
  then show ?thesis
    by (intro exI[of _ sb] exI[of _ sz] exI[of _ f] exI[of _ rd]) (simp add: sst_lookup_def sample_entries_def)
qed

text \<open>
  C24. The shared block cache is invisible: with any cache that is coherent with the tables in
  use, a lookup returns the same as without a cache, and leaves the cache coherent.
\<close>

theorem SSTable_cache_transparent:
  assumes "table_rep x rd bs" and "coherent store cache" and "served x store rd bs"
  shows "\<exists>cache'. SSTableReader_get x rd key cache = (Ok (sst_lookup (stored_entries bs) key), cache') \<and>
    coherent store cache'"
  using table_get[OF assms] by metis

lemma sample_table:
  obtains rd bs where "table_rep sample_ext rd bs" "stored_entries bs = sample_entries" "sr_cached rd = cached"
    "bs \<noteq> []"
proof (rule build_and_open[OF sample_ok, of 20 3 "''000002.sst''" cached])
  fix rd bs
  assume "table_rep sample_ext rd bs" "stored_entries bs = sample_entries" "sr_cached rd = cached"
  moreover have "bs \<noteq> []" using \<open>stored_entries bs = sample_entries\<close> by (auto simp: sample_entries_def)
  ultimately show thesis by (rule that)
qed

lemma block_offsets_distinct:
  assumes "length (data_section x c bs) < 2 ^ 64" and "i < length bs" and "j < length bs"
    and "bh_offset (ie_handle (index_of 0 bs ! i)) = bh_offset (ie_handle (index_of 0 bs ! j))"
  shows "i = j"
proof -
  have less: "length (data_section x c (take i bs)) < length (data_section x c (take j bs))"
    if "i < j" "j < length bs" for i j
  proof -
    have eq: "take j bs = take i bs @ bs ! i # drop (Suc i) (take j bs)"
      using id_take_nth_drop[of i "take j bs"] that by simp
    show ?thesis using arg_cong[OF eq, of "\<lambda>b. length (data_section x c b)"] by simp
  qed
  have bound: "length (data_section x c (take i bs)) < 2 ^ 64" if "i < length bs" for i
    using data_section_split[OF that, of x c] assms(1) by simp
  have "length (data_section x c (take i bs)) = length (data_section x c (take j bs))"
    using assms(2-4) index_of_handle[of i bs 0 x c] index_of_handle[of j bs 0 x c] bound
    by (metis BlockHandle.select_convs(1) BlockHandle_new_def add_0 unat_of_nat_u64)
  then show ?thesis using less assms(2,3) by (metis less_irrefl nat_neq_iff)
qed

text \<open>The blocks of one open table as a store of cached blocks.\<close>

definition table_store :: "ext \<Rightarrow> SSTableReader \<Rightarrow> stored_block list \<Rightarrow> CacheKey \<rightharpoonup> bytes" where
  "table_store x rd bs k =
     map_of (map (\<lambda>e. (CacheKey_new (sr_file_number rd) (bh_offset (ie_handle e)),
        case read_block_data x (sr_file rd) (ie_handle e) of Ok d \<Rightarrow> d | _ \<Rightarrow> [])) (index_of 0 bs)) k"

lemma map_of_nth_distinct: "distinct (map fst xs) \<Longrightarrow> i < length xs \<Longrightarrow> map_of xs (fst (xs ! i)) = Some (snd (xs ! i))"
  by (metis map_of_is_SomeI nth_mem prod.collapse)

lemma table_store_serves:
  assumes "length (data_section x c bs) < 2 ^ 64"
  shows "served x (table_store x rd bs) rd bs"
proof -
  let ?key = "\<lambda>e. CacheKey_new (sr_file_number rd) (bh_offset (ie_handle e))"
  let ?kv = "\<lambda>e. (?key e, case read_block_data x (sr_file rd) (ie_handle e) of Ok d \<Rightarrow> d | _ \<Rightarrow> [])"
  have "distinct (map fst (map ?kv (index_of 0 bs)))"
    using block_offsets_distinct[OF assms]
    by (auto simp: distinct_conv_nth CacheKey_new_def)
  then have "table_store x rd bs (?key (index_of 0 bs ! i)) = Some (snd (?kv (index_of 0 bs ! i)))" if "i < length bs" for i
    using map_of_nth_distinct[of "map ?kv (index_of 0 bs)" i] that by (simp add: table_store_def)
  then show ?thesis by (auto simp: served_def)
qed

theorem SSTable_cache_transparent_witness:
  "\<exists>rd bs. table_rep sample_ext rd bs \<and> sr_cached rd \<and>
     (\<exists>cache'. SSTableReader_get sample_ext rd [3] (BlockCache_new 100) = (Ok (Some [8]), cache') \<and>
        coherent (table_store sample_ext rd bs) cache')"
proof (rule build_and_open[OF sample_ok, of 20 3 "''000002.sst''" True])
  fix sb sz f rd bs
  assume a: "SSTableBuilder_add_all sample_ext sample_entries (table_builder sample_ext 20 Snappy 3) = (Ok (), sb)"
    "table_rep sample_ext rd bs" "stored_entries bs = sample_entries" "sr_cached rd = True"
    "length (data_section sample_ext Snappy bs) < 2 ^ 64"
  have "coherent (table_store sample_ext rd bs) (BlockCache_new 100)"
    by (simp add: coherent_def BlockCache_new_def BlockCache_inv_def lru_abs_def)
  moreover have "served sample_ext (table_store sample_ext rd bs) rd bs"
    by (rule table_store_serves[OF a(5)])
  ultimately show ?thesis
    using SSTable_cache_transparent[OF a(2), of "table_store sample_ext rd bs" "BlockCache_new 100" "[3]"] a
    by (auto simp: sst_lookup_def sample_entries_def)
qed

text \<open>
  The key range of a table: \<^verbatim>\<open>smallest_key\<close> and \<^verbatim>\<open>largest_key\<close> return the first and the last
  of its keys, nothing for an empty table.
\<close>

theorem SSTable_key_range:
  assumes "table_rep x rd bs" and "coherent store cache" and "served x store rd bs"
  shows "fst (SSTableReader_smallest_key x rd cache) =
      Ok (if stored_entries bs = [] then None else Some (fst (hd (stored_entries bs)))) \<and>
    SSTableReader_largest_key rd =
      Ok (if stored_entries bs = [] then None else Some (fst (last (stored_entries bs))))"
proof -
  obtain cache' where "SSTableReader_smallest_key x rd cache =
      (Ok (if bs = [] then None else Some (fst (hd (stored_entries bs)))), cache')"
    by (rule table_smallest_key[OF assms])
  then show ?thesis
    using table_largest_key[OF assms(1)] by (simp only: stored_nonempty[OF assms(1)] fst_conv simp_thms)
qed

theorem SSTable_key_range_witness:
  "\<exists>rd bs. table_rep sample_ext rd bs \<and>
     fst (SSTableReader_smallest_key sample_ext rd (BlockCache_new 0)) = Ok (Some [1]) \<and>
     SSTableReader_largest_key rd = Ok (Some [3])"
proof -
  obtain rd bs where rd: "table_rep sample_ext rd bs" "stored_entries bs = sample_entries" "sr_cached rd = False"
    by (rule sample_table[of False])
  then have "served sample_ext Map.empty rd bs" by (simp add: served_def)
  then show ?thesis
    using SSTable_key_range[OF rd(1) coherent_new, of Map.empty] rd
    by (intro exI[of _ rd] exI[of _ bs]) (simp add: sample_entries_def)
qed

text \<open>
  C30. The table iterator: after \<^verbatim>\<open>seek_to_first\<close>, repeated \<^verbatim>\<open>advance\<close> visits all entries of all
  blocks in key order and then reports the end.
\<close>

theorem SSTable_iteration:
  assumes "table_rep x rd bs"
  shows "\<exists>si. SSTableIterator_seek_to_first x (SSTableIterator_new rd) = (Ok (), si) \<and>
    table_yields x si (stored_entries bs)"
  using table_iteration[OF assms] by metis

theorem SSTable_iteration_witness:
  "\<exists>rd si. SSTableIterator_seek_to_first sample_ext (SSTableIterator_new rd) = (Ok (), si) \<and>
     table_yields sample_ext si [([1], [7]), ([1, 2], []), ([3], [8])]"
proof -
  obtain rd bs where rd: "table_rep sample_ext rd bs" "stored_entries bs = sample_entries"
    by (rule sample_table[of False])
  show ?thesis using SSTable_iteration[OF rd(1)] unfolding rd(2) sample_entries_def by blast
qed

text \<open>
  \<^verbatim>\<open>keys\<close> reads the key before the first \<^verbatim>\<open>advance\<close>: for a non-empty table its result starts
  with the empty key, which no table contains, followed by the keys of the table.
\<close>

theorem SSTable_keys_spurious:
  assumes "table_rep x rd bs" and "stored_entries bs \<noteq> []"
  shows "SSTableReader_keys x rd = Ok ([] # map fst (stored_entries bs)) \<and>
    [] \<notin> set (map fst (stored_entries bs))"
proof -
  have ne: "bs \<noteq> []" using assms(2) by auto
  have "[] \<notin> fst ` set (stored_entries bs)" using assms(1) by (simp add: table_rep_def kv_sorted_def)
  moreover have "SSTableReader_keys x rd = Ok ([] # map fst (stored_entries bs))" using table_keys[OF assms(1)] ne by simp
  ultimately show ?thesis by simp
qed

theorem SSTable_keys_spurious_witness:
  "\<exists>rd. SSTableReader_keys sample_ext rd = Ok [[], [1], [1, 2], [3]]"
proof -
  obtain rd bs where rd: "table_rep sample_ext rd bs" "stored_entries bs = sample_entries"
    by (rule sample_table[of False])
  then show ?thesis using SSTable_keys_spurious[OF rd(1)] by (auto simp: sample_entries_def)
qed

end
