(* ===== verification/Internal_Key.thy ===== *)
theory Internal_Key
  imports Errors
begin

text \<open>
  \<^verbatim>\<open>src/src/memtable/internal_key.rs\<close>: value types, internal keys, their byte encoding and
  their total order (user key ascending, sequence number descending, value type descending).
  The comparison function of the source is the order of the type: the instance of
  \<^theory_text>\<open>linorder\<close> is proved from it, so the sorted containers that hold internal keys can be
  reasoned about with the library's lemmas. The \<open>byte_codec\<close> interface collects what a client
  of an encoder and a decoder relies on; internal keys are an instance of it.
\<close>

section \<open>Definitions\<close>

datatype ordering = Less | Equal | Greater

definition cmp :: "'a::linorder \<Rightarrow> 'a \<Rightarrow> ordering" where
  "cmp x y = (if x < y then Less else if x = y then Equal else Greater)"

datatype ValueType = Deletion | Value

instantiation ValueType :: linorder
begin

definition less_eq_ValueType :: "ValueType \<Rightarrow> ValueType \<Rightarrow> bool" where
  "less_eq_ValueType a b \<longleftrightarrow> a = Deletion \<or> b = Value"

definition less_ValueType :: "ValueType \<Rightarrow> ValueType \<Rightarrow> bool" where
  "less_ValueType a b \<longleftrightarrow> a = Deletion \<and> b = Value"

instance
proof
  fix x y z :: ValueType
  show "(x < y) = (x \<le> y \<and> \<not> y \<le> x)"
    by (cases x; cases y) (simp_all add: less_eq_ValueType_def less_ValueType_def)
  show "x \<le> x" by (cases x) (simp_all add: less_eq_ValueType_def)
  show "x \<le> y \<Longrightarrow> y \<le> z \<Longrightarrow> x \<le> z" by (auto simp: less_eq_ValueType_def)
  show "x \<le> y \<Longrightarrow> y \<le> x \<Longrightarrow> x = y" by (auto simp: less_eq_ValueType_def)
  show "x \<le> y \<or> y \<le> x" by (cases x) (simp_all add: less_eq_ValueType_def)
qed

end

definition ValueType_from_u8 :: "u8 \<Rightarrow> ValueType option" where
  "ValueType_from_u8 v = (if v = 0 then Some Deletion else if v = 1 then Some Value else None)"

fun ValueType_as_u8 :: "ValueType \<Rightarrow> u8" where
  "ValueType_as_u8 Deletion = 0"
| "ValueType_as_u8 Value = 1"

datatype InternalKey =
  InternalKey (user_key: bytes) (sequence: u64) (value_type: ValueType)

definition InternalKey_encode :: "InternalKey \<Rightarrow> bytes" where
  "InternalKey_encode k =
     user_key k @ u64_le (sequence k) @ [ValueType_as_u8 (value_type k)]"

definition InternalKey_decode :: "bytes \<Rightarrow> InternalKey option" where
  "InternalKey_decode data =
     (if length data < 9 then None
      else
        let user_key_len = length data - 9;
            sequence_bytes = slice user_key_len (user_key_len + 8) data
        in case ValueType_from_u8 (data ! (user_key_len + 8)) of
             None \<Rightarrow> None
           | Some t \<Rightarrow> Some (InternalKey (take user_key_len data) (le_u64 sequence_bytes) t))"

definition InternalKey_encoded_size :: "InternalKey \<Rightarrow> nat" where
  "InternalKey_encoded_size k = length (user_key k) + 9"

definition InternalKey_cmp :: "InternalKey \<Rightarrow> InternalKey \<Rightarrow> ordering" where
  "InternalKey_cmp self other =
     (case cmp (user_key self) (user_key other) of
        Equal \<Rightarrow>
          (case cmp (sequence other) (sequence self) of
             Equal \<Rightarrow> cmp (value_type other) (value_type self)
           | other_ordering \<Rightarrow> other_ordering)
      | other_ordering \<Rightarrow> other_ordering)"

section \<open>The order of internal keys\<close>

lemma cmp_Less [simp]: "cmp x y = Less \<longleftrightarrow> x < y"
  by (auto simp: cmp_def)

lemma cmp_Equal [simp]: "cmp x y = Equal \<longleftrightarrow> x = y"
  by (auto simp: cmp_def)

lemma cmp_Greater [simp]: "cmp x y = Greater \<longleftrightarrow> y < x"
  by (auto simp: cmp_def)

lemma InternalKey_cmp_Less:
  "InternalKey_cmp a b = Less \<longleftrightarrow>
     user_key a < user_key b \<or>
     user_key a = user_key b \<and>
       (sequence b < sequence a \<or> sequence a = sequence b \<and> value_type b < value_type a)"
  by (auto simp: InternalKey_cmp_def split: ordering.splits)

lemma InternalKey_cmp_Equal: "InternalKey_cmp a b = Equal \<longleftrightarrow> a = b"
  by (auto simp: InternalKey_cmp_def InternalKey.expand split: ordering.splits)

instantiation InternalKey :: linorder
begin

definition less_InternalKey :: "InternalKey \<Rightarrow> InternalKey \<Rightarrow> bool" where
  "less_InternalKey a b \<longleftrightarrow> InternalKey_cmp a b = Less"

definition less_eq_InternalKey :: "InternalKey \<Rightarrow> InternalKey \<Rightarrow> bool" where
  "less_eq_InternalKey a b \<longleftrightarrow> InternalKey_cmp a b = Less \<or> InternalKey_cmp a b = Equal"

instance
proof
  fix x y z :: InternalKey
  show "(x < y) = (x \<le> y \<and> \<not> y \<le> x)"
    unfolding less_InternalKey_def less_eq_InternalKey_def InternalKey_cmp_Less
      InternalKey_cmp_Equal by auto
  show "x \<le> x"
    unfolding less_eq_InternalKey_def InternalKey_cmp_Equal by simp
  show "x \<le> y \<Longrightarrow> y \<le> z \<Longrightarrow> x \<le> z"
    unfolding less_eq_InternalKey_def InternalKey_cmp_Less InternalKey_cmp_Equal by auto
  show "x \<le> y \<Longrightarrow> y \<le> x \<Longrightarrow> x = y"
    unfolding less_eq_InternalKey_def InternalKey_cmp_Less InternalKey_cmp_Equal by auto
  show "x \<le> y \<or> y \<le> x"
    unfolding less_eq_InternalKey_def InternalKey_cmp_Less InternalKey_cmp_Equal
    by (cases x; cases y) (auto simp: not_less_iff_gr_or_eq)
qed

end

lemmas InternalKey_less_iff = less_InternalKey_def InternalKey_cmp_Less

lemma InternalKey_cmp_eq_cmp: "InternalKey_cmp a b = cmp a b"
proof (cases "InternalKey_cmp a b")
  case Less
  then show ?thesis by (simp add: cmp_def less_InternalKey_def)
next
  case Equal
  then show ?thesis by (simp add: InternalKey_cmp_Equal cmp_def)
next
  case Greater
  then have "\<not> a \<le> b" by (simp add: less_eq_InternalKey_def)
  with Greater show ?thesis by (auto simp: cmp_def)
qed

section \<open>Encoders and decoders\<close>

locale byte_codec =
  fixes encode :: "'a \<Rightarrow> bytes" and decode :: "bytes \<Rightarrow> 'a option" and valid :: "'a \<Rightarrow> bool"
  assumes decode_encode: "valid x \<Longrightarrow> decode (encode x) = Some x"
    and encode_decode: "decode bs = Some x \<Longrightarrow> encode x = bs \<and> valid x"
begin

lemma encode_inject: "valid x \<Longrightarrow> valid y \<Longrightarrow> encode x = encode y \<longleftrightarrow> x = y"
  by (metis decode_encode option.inject)

lemma decode_eq_Some_iff: "decode bs = Some x \<longleftrightarrow> valid x \<and> bs = encode x"
  using decode_encode encode_decode by blast

lemma decode_eq_None_iff: "decode bs = None \<longleftrightarrow> bs \<notin> encode ` {x. valid x}"
  by (cases "decode bs") (auto simp: decode_eq_Some_iff decode_encode)

end

lemma ValueType_from_as_u8 [simp]: "ValueType_from_u8 (ValueType_as_u8 t) = Some t"
  by (cases t) (simp_all add: ValueType_from_u8_def)

lemma ValueType_as_from_u8: "ValueType_from_u8 v = Some t \<Longrightarrow> ValueType_as_u8 t = v"
  by (auto simp: ValueType_from_u8_def split: if_splits)

lemma length_InternalKey_encode: "length (InternalKey_encode k) = InternalKey_encoded_size k"
  by (simp add: InternalKey_encode_def InternalKey_encoded_size_def)

lemma InternalKey_decode_encode: "InternalKey_decode (InternalKey_encode k) = Some k"
proof -
  have "InternalKey_encode k ! (length (user_key k) + 8) = ValueType_as_u8 (value_type k)"
    by (simp add: InternalKey_encode_def nth_append)
  then show ?thesis
    by (simp add: InternalKey_decode_def length_InternalKey_encode InternalKey_encoded_size_def
        Let_def) (simp add: InternalKey_encode_def slice_def)
qed

lemma InternalKey_encode_decode:
  assumes "InternalKey_decode bs = Some k"
  shows "InternalKey_encode k = bs"
proof -
  define n where "n = length bs - 9"
  from assms have len: "length bs = n + 9"
    by (auto simp: InternalKey_decode_def n_def split: if_splits)
  from assms obtain t where t: "ValueType_from_u8 (bs ! (n + 8)) = Some t"
    and k: "k = InternalKey (take n bs) (le_u64 (slice n (n + 8) bs)) t"
    by (auto simp: InternalKey_decode_def Let_def n_def split: if_splits option.splits)
  have "bs = take n bs @ take 8 (drop n bs) @ drop (n + 8) bs"
    using append_take_drop_id[of n bs] append_take_drop_id[of 8 "drop n bs"]
    by (simp add: add.commute)
  moreover have "drop (n + 8) bs = [bs ! (n + 8)]"
    using len by (intro nth_equalityI) simp_all
  moreover have "u64_le (le_u64 (slice n (n + 8) bs)) = take 8 (drop n bs)"
    using len by (simp add: slice_def u64_le_le_u64)
  ultimately show ?thesis
    using ValueType_as_from_u8[OF t] k by (simp add: InternalKey_encode_def)
qed

interpretation ikey: byte_codec InternalKey_encode InternalKey_decode "\<lambda>_. True"
  by unfold_locales (auto intro: InternalKey_decode_encode InternalKey_encode_decode)

section \<open>Properties\<close>

text \<open>
  C35. The key codec: the bytes that decode to an internal key are exactly its encoding, whatever
  bytes the user key holds; everything else is rejected.
\<close>

theorem InternalKey_codec: "InternalKey_decode bs = Some k \<longleftrightarrow> bs = InternalKey_encode k"
  by (simp add: ikey.decode_eq_Some_iff)

text \<open>
  The comparison of internal keys is a total order in which the versions of a user key are
  adjacent and come newest first: for \<open>a\<close> before \<open>c\<close>, a key between them with the same user key
  at both ends has that user key too, and its sequence number lies between theirs.
\<close>

theorem InternalKey_versions_adjacent:
  assumes "InternalKey_cmp a b = Less" and "InternalKey_cmp b c = Less" and "user_key a = user_key c"
  shows "user_key b = user_key a \<and> sequence c \<le> sequence b \<and> sequence b \<le> sequence a"
proof -
  have "user_key a \<le> user_key b" "user_key b \<le> user_key c"
    using assms(1,2) unfolding InternalKey_cmp_Less by (metis order.order_iff_strict)+
  then have "user_key b = user_key a" using assms(3) by (simp only: order.antisym)
  with assms show ?thesis by (simp only: InternalKey_cmp_Less) (metis less_irrefl order.order_iff_strict)
qed

theorem InternalKey_versions_adjacent_witness:
  "InternalKey_cmp (InternalKey [1] 9 Value) (InternalKey [1] 5 Deletion) = Less \<and>
   user_key (InternalKey [1] 5 Deletion) = [1]"
  using InternalKey_versions_adjacent[of "InternalKey [1] 9 Value" "InternalKey [1] 5 Deletion"
      "InternalKey [1] 5 Value"] InternalKey_versions_adjacent[of "InternalKey [1] 9 Value"
      "InternalKey [1] 5 Deletion" "InternalKey [1] 2 Value"]
  by (simp add: InternalKey_cmp_Less)

end
