(* ===== verification/Merge.thy ===== *)
theory Merge
  imports SST_Table Internal_Key
begin

text \<open>
  \<^verbatim>\<open>src/src/compaction/merge.rs\<close>: the multi-way merge of table iterators. The standard
  library's \<^verbatim>\<open>BinaryHeap\<close> is modelled by a list from which \<^verbatim>\<open>pop\<close> takes a greatest element in
  the order of \<^verbatim>\<open>MergeEntry\<close>. \<open>merges\<close> is the specification: from lists sorted by key, always
  take the smallest head, from the list with the smallest index if several heads have the same key.
\<close>

section \<open>Definitions\<close>

record MergeEntry =
  me_key :: bytes
  me_value :: bytes
  me_index :: nat

definition MergeEntry_cmp :: "MergeEntry \<Rightarrow> MergeEntry \<Rightarrow> ordering" where
  "MergeEntry_cmp self other =
     (case cmp (me_key other) (me_key self) of
        Equal \<Rightarrow> cmp (me_index other) (me_index self)
      | o' \<Rightarrow> o')"

fun heap_max :: "MergeEntry \<Rightarrow> MergeEntry list \<Rightarrow> MergeEntry" where
  "heap_max m [] = m"
| "heap_max m (e # es) = heap_max (if MergeEntry_cmp m e = Less then e else m) es"

definition heap_pop :: "MergeEntry list \<Rightarrow> (MergeEntry \<times> MergeEntry list) option" where
  "heap_pop h = (case h of [] \<Rightarrow> None | e # es \<Rightarrow> let m = heap_max e es in Some (m, remove1 m h))"

definition heap_push :: "MergeEntry \<Rightarrow> MergeEntry list \<Rightarrow> MergeEntry list" where
  "heap_push e h = e # h"

record MergeIterator =
  mi_heap :: "MergeEntry list"
  mi_iters :: "SSTableIterator list"

text \<open>\<^verbatim>\<open>if iter.advance()? && iter.valid() { heap.push(...) }\<close>\<close>

definition advance_and_push ::
  "ext \<Rightarrow> nat \<Rightarrow> SSTableIterator \<Rightarrow> MergeEntry list \<Rightarrow> MergeEntry list res \<times> SSTableIterator" where
  "advance_and_push x idx si heap =
     try_st (SSTableIterator_advance x si) (\<lambda>moved si'.
       if moved \<and> SSTableIterator_valid si' then
         try_st (SSTableIterator_key si', si') (\<lambda>k si'.
         try_st (SSTableIterator_value si', si') (\<lambda>v si'.
           (Ok (heap_push \<lparr>me_key = k, me_value = v, me_index = idx\<rparr> heap), si')))
       else (Ok heap, si'))"

fun MergeIterator_new_loop :: "ext \<Rightarrow> nat \<Rightarrow> SSTableReader list \<Rightarrow> MergeIterator \<Rightarrow> MergeIterator res" where
  "MergeIterator_new_loop x idx [] mi = Ok mi"
| "MergeIterator_new_loop x idx (rd # rds) mi =
     (case SSTableIterator_seek_to_first x (SSTableIterator_new rd) of
        (Ok _, si) \<Rightarrow>
          (case advance_and_push x idx si (mi_heap mi) of
             (Ok heap, si') \<Rightarrow>
               MergeIterator_new_loop x (Suc idx) rds \<lparr>mi_heap = heap, mi_iters = mi_iters mi @ [si']\<rparr>
           | (Err e, _) \<Rightarrow> Err e
           | (Panic, _) \<Rightarrow> Panic)
      | (Err e, _) \<Rightarrow> Err e
      | (Panic, _) \<Rightarrow> Panic)"

definition MergeIterator_new :: "ext \<Rightarrow> SSTableReader list \<Rightarrow> MergeIterator res" where
  "MergeIterator_new x readers = MergeIterator_new_loop x 0 readers \<lparr>mi_heap = [], mi_iters = []\<rparr>"

definition advance_iterator :: "ext \<Rightarrow> nat \<Rightarrow> MergeIterator \<Rightarrow> unit res \<times> MergeIterator" where
  "advance_iterator x index mi =
     (if length (mi_iters mi) \<le> index then (Ok (), mi)
      else case advance_and_push x index (mi_iters mi ! index) (mi_heap mi) of
        (Ok heap, si) \<Rightarrow> (Ok (), \<lparr>mi_heap = heap, mi_iters = (mi_iters mi)[index := si]\<rparr>)
      | (Err e, si) \<Rightarrow> (Err e, mi\<lparr>mi_iters := (mi_iters mi)[index := si]\<rparr>)
      | (Panic, si) \<Rightarrow> (Panic, mi\<lparr>mi_iters := (mi_iters mi)[index := si]\<rparr>))"

text \<open>An error of the iterator is only logged: the merge then ends.\<close>

definition MergeIterator_next :: "ext \<Rightarrow> MergeIterator \<Rightarrow> kv option res \<times> MergeIterator" where
  "MergeIterator_next x mi =
     (case heap_pop (mi_heap mi) of
        None \<Rightarrow> (Ok None, mi)
      | Some (entry, heap) \<Rightarrow>
          (case advance_iterator x (me_index entry) (mi\<lparr>mi_heap := heap\<rparr>) of
             (Ok _, mi') \<Rightarrow> (Ok (Some (me_key entry, me_value entry)), mi')
           | (Err e, mi') \<Rightarrow> (Ok None, mi')
           | (Panic, mi') \<Rightarrow> (Panic, mi')))"

section \<open>Specification\<close>

definition smallest_head :: "kv list list \<Rightarrow> nat \<Rightarrow> bool" where
  "smallest_head ls i \<longleftrightarrow> i < length ls \<and> ls ! i \<noteq> [] \<and>
     (\<forall>j < length ls. ls ! j \<noteq> [] \<longrightarrow>
        fst (hd (ls ! i)) < fst (hd (ls ! j)) \<or> fst (hd (ls ! i)) = fst (hd (ls ! j)) \<and> i \<le> j)"

inductive merges :: "kv list list \<Rightarrow> kv list \<Rightarrow> bool" where
  merges_done: "\<forall>l \<in> set ls. l = [] \<Longrightarrow> merges ls []"
| merges_take: "smallest_head ls i \<Longrightarrow> merges (ls[i := tl (ls ! i)]) out \<Longrightarrow> merges ls (hd (ls ! i) # out)"

inductive_cases merges_NilE: "merges ls []"
inductive_cases merges_ConsE: "merges ls (e # out)"

section \<open>The heap\<close>

lemma MergeEntry_cmp_Less:
  "MergeEntry_cmp a b = Less \<longleftrightarrow>
     me_key b < me_key a \<or> me_key b = me_key a \<and> me_index b < me_index a"
  by (auto simp: MergeEntry_cmp_def split: ordering.splits)

text \<open>\<open>before a b\<close>: \<open>a\<close> leaves the heap no later than \<open>b\<close>.\<close>

definition before :: "MergeEntry \<Rightarrow> MergeEntry \<Rightarrow> bool" where
  "before a b \<longleftrightarrow> me_key a < me_key b \<or> me_key a = me_key b \<and> me_index a \<le> me_index b"

lemma before_trans: "before a b \<Longrightarrow> before b c \<Longrightarrow> before a c"
  unfolding before_def by (metis order.strict_trans order_trans)

lemma before_cases: "\<not> MergeEntry_cmp m e = Less \<Longrightarrow> before m e" "MergeEntry_cmp m e = Less \<Longrightarrow> before e m"
  by (auto simp: MergeEntry_cmp_Less before_def)

lemma before_refl: "before a a"
  by (simp add: before_def)

lemma heap_max_least:
  "heap_max m es \<in> insert m (set es) \<and> (\<forall>e \<in> insert m (set es). before (heap_max m es) e)"
proof (induction es arbitrary: m)
  case Nil
  then show ?case by (simp add: before_refl)
next
  case (Cons e es)
  let ?m = "if MergeEntry_cmp m e = Less then e else m"
  have ih: "heap_max ?m es \<in> insert ?m (set es)" "before (heap_max ?m es) ?m"
    "\<And>e. e \<in> set es \<Longrightarrow> before (heap_max ?m es) e" using Cons[of ?m] by auto
  have "before ?m e" "before ?m m" using before_cases[of m e] before_refl by auto
  then have "before (heap_max ?m es) e" "before (heap_max ?m es) m" using ih(2) before_trans by blast+
  with ih show ?case by (auto split: if_splits)
qed

lemma heap_pop_Some:
  assumes "h \<noteq> []"
  obtains m where "heap_pop h = Some (m, remove1 m h)" "m \<in> set h" "\<forall>e \<in> set h. before m e"
proof -
  obtain e es where h: "h = e # es" using assms by (cases h) auto
  show ?thesis
    using heap_max_least[of e es] by (intro that[of "heap_max e es"]) (auto simp: h heap_pop_def Let_def)
qed

section \<open>The iterator implements the specification\<close>

definition head_entry :: "kv list list \<Rightarrow> nat \<Rightarrow> MergeEntry" where
  "head_entry ls i = \<lparr>me_key = fst (hd (ls ! i)), me_value = snd (hd (ls ! i)), me_index = i\<rparr>"

definition heads :: "kv list list \<Rightarrow> MergeEntry set" where
  "heads ls = {head_entry ls i |i. i < length ls \<and> ls ! i \<noteq> []}"

text \<open>The heap holds the head of every list that is left, the iterators yield the tails.\<close>

definition merge_rep :: "ext \<Rightarrow> MergeIterator \<Rightarrow> kv list list \<Rightarrow> bool" where
  "merge_rep x mi ls \<longleftrightarrow>
     length (mi_iters mi) = length ls \<and> distinct (mi_heap mi) \<and> set (mi_heap mi) = heads ls \<and>
     (\<forall>i < length ls. ls ! i \<noteq> [] \<longrightarrow> table_yields x (mi_iters mi ! i) (tl (ls ! i)))"

lemma advance_and_push_yields:
  assumes "table_yields x si es"
  obtains si' where "advance_and_push x idx si heap =
      (Ok (if es = [] then heap else \<lparr>me_key = fst (hd es), me_value = snd (hd es), me_index = idx\<rparr> # heap), si')"
    "es \<noteq> [] \<Longrightarrow> table_yields x si' (tl es)"
proof (cases es)
  case Nil
  then obtain si' where "SSTableIterator_advance x si = (Ok False, si')" using assms by auto
  then show ?thesis using Nil that[of si'] by (simp add: advance_and_push_def)
next
  case (Cons e es')
  then obtain si' where "SSTableIterator_advance x si = (Ok True, si')" "SSTableIterator_valid si'"
    "SSTableIterator_key si' = Ok (fst e)" "SSTableIterator_value si' = Ok (snd e)" "table_yields x si' es'"
    using assms by auto
  then show ?thesis using Cons that[of si'] by (simp add: advance_and_push_def heap_push_def)
qed

lemma heads_update:
  assumes i: "i < length ls"
  shows "heads (ls[i := l]) = (heads ls - {e \<in> heads ls. me_index e = i}) \<union>
    (if l = [] then {} else {\<lparr>me_key = fst (hd l), me_value = snd (hd l), me_index = i\<rparr>})" (is "?l = ?r")
proof (rule set_eqI)
  fix e
  have "e \<in> ?l \<longleftrightarrow> (\<exists>j. j < length ls \<and> ls[i := l] ! j \<noteq> [] \<and> e = head_entry (ls[i := l]) j)"
    by (auto simp: heads_def)
  also have "\<dots> \<longleftrightarrow> (\<exists>j. j \<noteq> i \<and> j < length ls \<and> ls ! j \<noteq> [] \<and> e = head_entry ls j) \<or>
      l \<noteq> [] \<and> e = \<lparr>me_key = fst (hd l), me_value = snd (hd l), me_index = i\<rparr>"
    using i by (auto simp: head_entry_def nth_list_update split: if_splits)
  also have "\<dots> \<longleftrightarrow> e \<in> ?r" by (auto simp: heads_def head_entry_def)
  finally show "e \<in> ?l \<longleftrightarrow> e \<in> ?r" .
qed

lemma head_in_heads: "e \<in> heads ls \<Longrightarrow> me_index e < length ls \<and> ls ! me_index e \<noteq> [] \<and> e = head_entry ls (me_index e)"
  by (auto simp: heads_def head_entry_def)

lemma smallest_from_heap:
  assumes "m \<in> heads ls" and "\<forall>e \<in> heads ls. before m e"
  shows "smallest_head ls (me_index m) \<and> hd (ls ! me_index m) = (me_key m, me_value m)"
proof -
  note m = head_in_heads[OF assms(1)]
  have "before m (head_entry ls j)" if "j < length ls" "ls ! j \<noteq> []" for j
    using assms(2) that by (auto simp: heads_def)
  moreover have "hd (ls ! me_index m) = (me_key m, me_value m)"
    using m by (metis MergeEntry.select_convs(1,2) head_entry_def prod.collapse)
  ultimately show ?thesis
    using m by (auto simp: smallest_head_def before_def head_entry_def)
qed

lemma MergeIterator_next_step:
  assumes rep: "merge_rep x mi ls" and ne: "\<exists>l \<in> set ls. l \<noteq> []"
  obtains mi' i where "MergeIterator_next x mi = (Ok (Some (hd (ls ! i))), mi')" "smallest_head ls i"
    "merge_rep x mi' (ls[i := tl (ls ! i)])"
proof -
  have "heads ls \<noteq> {}" using ne by (auto simp: heads_def in_set_conv_nth)
  then have "mi_heap mi \<noteq> []" using rep by (auto simp: merge_rep_def)
  then obtain m where m: "heap_pop (mi_heap mi) = Some (m, remove1 m (mi_heap mi))" "m \<in> set (mi_heap mi)"
    "\<forall>e \<in> set (mi_heap mi). before m e" by (rule heap_pop_Some)
  define i where "i = me_index m"
  have heap: "set (mi_heap mi) = heads ls" "distinct (mi_heap mi)" and len: "length (mi_iters mi) = length ls"
    using rep by (simp_all add: merge_rep_def)
  have min: "smallest_head ls i" "hd (ls ! i) = (me_key m, me_value m)"
    using smallest_from_heap[of m ls] m heap by (simp_all add: i_def)
  have i: "i < length ls" "ls ! i \<noteq> []" using min by (simp_all add: smallest_head_def)
  have "table_yields x (mi_iters mi ! i) (tl (ls ! i))" using rep i by (simp add: merge_rep_def)
  then obtain si' where adv: "advance_and_push x i (mi_iters mi ! i) (remove1 m (mi_heap mi)) =
      (Ok (if tl (ls ! i) = [] then remove1 m (mi_heap mi)
        else \<lparr>me_key = fst (hd (tl (ls ! i))), me_value = snd (hd (tl (ls ! i))), me_index = i\<rparr> # remove1 m (mi_heap mi)), si')"
    and si': "tl (ls ! i) \<noteq> [] \<Longrightarrow> table_yields x si' (tl (tl (ls ! i)))"
    using advance_and_push_yields[where idx = i and heap = "remove1 m (mi_heap mi)"] by blast
  define mi' where "mi' = \<lparr>mi_heap = (if tl (ls ! i) = [] then remove1 m (mi_heap mi)
        else \<lparr>me_key = fst (hd (tl (ls ! i))), me_value = snd (hd (tl (ls ! i))), me_index = i\<rparr> # remove1 m (mi_heap mi)),
      mi_iters = (mi_iters mi)[i := si']\<rparr>"
  have nxt: "MergeIterator_next x mi = (Ok (Some (hd (ls ! i))), mi')"
    using m(1) adv i len min(2)
    by (simp add: MergeIterator_next_def advance_iterator_def mi'_def i_def[symmetric])
  have same: "e = m" if "e \<in> heads ls" "me_index e = i" for e
    using head_in_heads[OF that(1)] head_in_heads[of m ls] m(2) heap that(2) by (simp add: i_def)
  have rest: "set (remove1 m (mi_heap mi)) = heads ls - {m}" using heap by simp
  have "{e \<in> heads ls. me_index e = i} = {m}" using same m(2) heap by (auto simp: i_def)
  then have "set (mi_heap mi') = heads (ls[i := tl (ls ! i)])"
    using heads_update[OF i(1), of "tl (ls ! i)"] rest by (auto simp: mi'_def)
  moreover have "distinct (mi_heap mi')"
  proof -
    have "\<lparr>me_key = k, me_value = v, me_index = i\<rparr> \<notin> set (remove1 m (mi_heap mi))" for k v
      using rest same[of "\<lparr>me_key = k, me_value = v, me_index = i\<rparr>"] by auto
    then show ?thesis using heap(2) by (simp add: mi'_def)
  qed
  ultimately have "merge_rep x mi' (ls[i := tl (ls ! i)])"
    using rep si' i(1) by (auto simp: merge_rep_def mi'_def nth_list_update)
  then show ?thesis by (rule that[OF nxt min(1)])
qed

lemma MergeIterator_next_end:
  assumes "merge_rep x mi ls" and "\<forall>l \<in> set ls. l = []"
  shows "MergeIterator_next x mi = (Ok None, mi)"
proof -
  have "heads ls = {}" using assms(2) by (auto simp: heads_def)
  then have "mi_heap mi = []" using assms(1) by (simp add: merge_rep_def)
  then show ?thesis by (simp add: MergeIterator_next_def heap_pop_def)
qed

text \<open>The loop of \<^verbatim>\<open>MergeIterator::new\<close>: after \<open>length ls1\<close> readers, the state represents their lists.\<close>

lemma heads_append: "heads (ls @ [l]) =
  (if l = [] then heads ls else insert \<lparr>me_key = fst (hd l), me_value = snd (hd l), me_index = length ls\<rparr> (heads ls))"
proof -
  have old: "(\<exists>i < length ls. ls ! i \<noteq> [] \<and> e = head_entry (ls @ [l]) i) \<longleftrightarrow> e \<in> heads ls" for e
    by (auto simp: heads_def head_entry_def nth_append)
  show ?thesis
    using old by (auto simp: heads_def less_Suc_eq nth_append head_entry_def)
qed

lemma heads_index_less: "e \<in> heads ls \<Longrightarrow> me_index e < length ls"
  by (auto simp: heads_def head_entry_def)

lemma merge_rep_snoc:
  assumes rep: "merge_rep x mi ls" and y: "l \<noteq> [] \<Longrightarrow> table_yields x si (tl l)"
  shows "merge_rep x \<lparr>mi_heap = (if l = [] then mi_heap mi
      else \<lparr>me_key = fst (hd l), me_value = snd (hd l), me_index = length ls\<rparr> # mi_heap mi),
    mi_iters = mi_iters mi @ [si]\<rparr> (ls @ [l])"
proof -
  have fresh: "\<lparr>me_key = k, me_value = v, me_index = length ls\<rparr> \<notin> set (mi_heap mi)" for k v
    using rep heads_index_less[of "\<lparr>me_key = k, me_value = v, me_index = length ls\<rparr>" ls]
    by (auto simp: merge_rep_def)
  then show ?thesis
    using rep y by (auto simp: merge_rep_def heads_append nth_append less_Suc_eq)
qed

lemma MergeIterator_new_loop_rep:
  assumes "list_all2 (\<lambda>rd es. \<exists>si. SSTableIterator_seek_to_first x (SSTableIterator_new rd) = (Ok (), si) \<and>
      table_yields x si es) rds ls2"
    and "merge_rep x mi ls1"
  shows "\<exists>mi'. MergeIterator_new_loop x (length ls1) rds mi = Ok mi' \<and> merge_rep x mi' (ls1 @ ls2)"
  using assms
proof (induction rds ls2 arbitrary: mi ls1 rule: list_all2_induct)
  case Nil
  then show ?case by simp
next
  case (Cons rd rds es ls2)
  obtain si where si: "SSTableIterator_seek_to_first x (SSTableIterator_new rd) = (Ok (), si)"
    "table_yields x si es" using Cons.hyps(1) by blast
  obtain si' where adv: "advance_and_push x (length ls1) si (mi_heap mi) =
      (Ok (if es = [] then mi_heap mi
        else \<lparr>me_key = fst (hd es), me_value = snd (hd es), me_index = length ls1\<rparr> # mi_heap mi), si')"
    and si': "es \<noteq> [] \<Longrightarrow> table_yields x si' (tl es)"
    using advance_and_push_yields[OF si(2), where idx = "length ls1" and heap = "mi_heap mi"] by blast
  show ?case
    using Cons.IH[OF merge_rep_snoc[OF Cons.prems si']] si(1) adv by auto
qed

lemma MergeIterator_new_rep:
  assumes "list_all2 (table_rep x) rds bss"
  shows "\<exists>mi. MergeIterator_new x rds = Ok mi \<and> merge_rep x mi (map stored_entries bss)"
proof -
  have "list_all2 (\<lambda>rd es. \<exists>si. SSTableIterator_seek_to_first x (SSTableIterator_new rd) = (Ok (), si) \<and>
      table_yields x si es) rds (map stored_entries bss)"
    using assms by (auto simp: list_all2_conv_all_nth) (metis table_iteration)
  moreover have "merge_rep x \<lparr>mi_heap = [], mi_iters = []\<rparr> []"
    by (simp add: merge_rep_def heads_def)
  ultimately show ?thesis
    using MergeIterator_new_loop_rep[of x rds "map stored_entries bss" _ "[]"]
    by (simp add: MergeIterator_new_def)
qed

section \<open>What the merge yields\<close>

lemma split_at: "i < length ls \<Longrightarrow> ls = take i ls @ ls ! i # drop (Suc i) ls"
  by (rule id_take_nth_drop)

lemma concat_update:
  "i < length ls \<Longrightarrow> concat (ls[i := l]) = concat (take i ls) @ l @ concat (drop (Suc i) ls)"
  by (simp add: upd_conv_take_nth_drop)

lemma concat_at: "i < length ls \<Longrightarrow> concat ls = concat (take i ls) @ ls ! i @ concat (drop (Suc i) ls)"
  using concat_update[of i ls "ls ! i"] by simp

definition runs :: "kv list list \<Rightarrow> bool" where
  "runs ls \<longleftrightarrow> (\<forall>l \<in> set ls. kv_sorted l)"

lemma kv_sorted_tl: "kv_sorted l \<Longrightarrow> kv_sorted (tl l)"
  by (cases l) (auto simp: kv_sorted_def)

lemma runs_update: "runs ls \<Longrightarrow> i < length ls \<Longrightarrow> runs (ls[i := tl (ls ! i)])"
  unfolding runs_def using kv_sorted_tl by (metis in_set_conv_nth insertE set_update_subset_insert subsetD)

text \<open>The smallest head is below every other entry, and strictly below the earlier lists.\<close>

lemma smallest_head_below:
  assumes "smallest_head ls i" and "runs ls" and j: "j < length ls" and e: "e \<in> set (ls ! j)"
  shows "fst (hd (ls ! i)) \<le> fst e" and "j < i \<Longrightarrow> fst (hd (ls ! i)) < fst e"
proof -
  have srt: "kv_sorted (ls ! j)" and ne: "ls ! j \<noteq> []" using assms by (auto simp: runs_def)
  have hd: "fst (hd (ls ! j)) \<le> fst e" using srt ne e by (cases "ls ! j") (auto simp: kv_sorted_def)
  have "fst (hd (ls ! i)) < fst (hd (ls ! j)) \<or> fst (hd (ls ! i)) = fst (hd (ls ! j)) \<and> i \<le> j"
    using assms(1) j ne by (simp add: smallest_head_def)
  then show "fst (hd (ls ! i)) \<le> fst e" "j < i \<Longrightarrow> fst (hd (ls ! i)) < fst e"
    using hd by (auto intro: order.trans[OF less_imp_le] order.strict_trans2)
qed

lemma merges_set: "merges ls out \<Longrightarrow> set out = set (concat ls)"
proof (induction rule: merges.induct)
  case (merges_done ls)
  then show ?case by simp
next
  case (merges_take ls i out)
  then have i: "i < length ls" "ls ! i \<noteq> []" by (simp_all add: smallest_head_def)
  have "set (ls ! i) = insert (hd (ls ! i)) (set (tl (ls ! i)))" using i(2) by (cases "ls ! i") auto
  then show ?case using merges_take.IH unfolding concat_update[OF i(1)] by (simp add: concat_at[OF i(1)] Un_ac del: set_concat)
qed

lemma merges_sorted: "merges ls out \<Longrightarrow> runs ls \<Longrightarrow> sorted (map fst out)"
proof (induction rule: merges.induct)
  case (merges_done ls)
  then show ?case by simp
next
  case (merges_take ls i out)
  then have i: "i < length ls" by (simp add: smallest_head_def)
  have "fst (hd (ls ! i)) \<le> fst e" if "e \<in> set out" for e
  proof -
    have "e \<in> set (concat (ls[i := tl (ls ! i)]))" using that merges_set[OF merges_take.hyps(2)] by simp
    then have "e \<in> set (concat ls)"
      unfolding concat_update[OF i] concat_at[OF i] by (cases "ls ! i") auto
    then obtain l where "l \<in> set ls" and "e \<in> set l" by auto
    then obtain j where "j < length ls" "e \<in> set (ls ! j)" by (auto simp: in_set_conv_nth[of l])
    then show ?thesis using smallest_head_below(1)[OF merges_take.hyps(1) merges_take.prems] by blast
  qed
  then show ?case using merges_take.IH runs_update[OF merges_take.prems i] by simp
qed

lemma merges_newest: "merges ls out \<Longrightarrow> runs ls \<Longrightarrow> map_of out = map_of (concat ls)"
proof (induction rule: merges.induct)
  case (merges_done ls)
  then have "concat ls = []" by simp
  then show ?case by simp
next
  case (merges_take ls i out)
  let ?e = "hd (ls ! i)"
  have i: "i < length ls" "ls ! i = ?e # tl (ls ! i)" using merges_take.hyps(1) by (simp_all add: smallest_head_def)
  have "fst ?e \<notin> fst ` set (concat (take i ls))"
  proof
    assume "fst ?e \<in> fst ` set (concat (take i ls))"
    then obtain e l where l: "l \<in> set (take i ls)" "e \<in> set l" and fe: "fst e = fst ?e" by auto
    then obtain j where j: "j < i" "e \<in> set (ls ! j)" using i(1) by (auto simp: in_set_conv_nth[of l])
    then have "fst ?e < fst e"
      using smallest_head_below(2)[OF merges_take.hyps(1) merges_take.prems, of j e] i(1) by simp
    with fe show False by simp
  qed
  then have fresh: "map_of (concat (take i ls)) (fst ?e) = None" by (simp add: map_of_eq_None_iff)
  have "map_of out = map_of (concat (take i ls) @ tl (ls ! i) @ concat (drop (Suc i) ls))"
    using merges_take.IH runs_update[OF merges_take.prems i(1)] by (simp only: concat_update[OF i(1)])
  moreover have "concat ls = concat (take i ls) @ ?e # tl (ls ! i) @ concat (drop (Suc i) ls)"
    using concat_at[OF i(1)] i(2) by (metis append_Cons)
  ultimately show ?case
    using fresh by (auto simp: map_add_def fun_eq_iff split: option.splits)
qed

end
