(* ===== verification/File_System.thy ===== *)
theory File_System
  imports Buf_Writer "HOL-Library.AList" "HOL-Library.Char_ord"
begin

text \<open>
  The part of \<^verbatim>\<open>std::fs\<close> and \<^verbatim>\<open>std::path\<close> that the source uses on the database directory.
  The directory is an association list from paths to contents, in the (arbitrary) order in which
  \<^verbatim>\<open>read_dir\<close> lists it. Two schedules describe failures: \<open>fs_faults\<close> has one element for
  each call that opens, creates, removes or lists something, \<open>fs_write_faults\<close> one schedule of
  failing writes for each file opened for writing; an exhausted schedule means success. A file
  opened for writing is a \<open>wfile\<close> owned by its handle; \<open>fs_store\<close> records what the handle
  has written so far.
\<close>

section \<open>Definitions\<close>

record fsys =
  fs_dir :: bool
  fs_files :: "(string \<times> bytes) list"
  fs_faults :: "io_error option list"
  fs_write_faults :: "(nat \<times> io_error) option list list"

definition path_join :: "string \<Rightarrow> string \<Rightarrow> string" where
  "path_join dir name = dir @ ''/'' @ name"

definition fs_exists :: "string \<Rightarrow> fsys \<Rightarrow> bool" where
  "fs_exists path fs = (map_of (fs_files fs) path \<noteq> None)"

definition fs_call :: "fsys \<Rightarrow> unit res \<times> fsys" where
  "fs_call fs =
     (case fs_faults fs of
        [] \<Rightarrow> (Ok (), fs)
      | None # q \<Rightarrow> (Ok (), fs\<lparr>fs_faults := q\<rparr>)
      | Some e # q \<Rightarrow> (Err (Io e), fs\<lparr>fs_faults := q\<rparr>))"

definition fs_store :: "string \<Rightarrow> bytes \<Rightarrow> fsys \<Rightarrow> fsys" where
  "fs_store path bs fs = fs\<lparr>fs_files := AList.update path bs (fs_files fs)\<rparr>"

text \<open>\<^verbatim>\<open>File::create\<close> and \<^verbatim>\<open>OpenOptions\<close> with \<^verbatim>\<open>create\<close>: truncating or appending.\<close>

definition fs_open_write :: "bool \<Rightarrow> string \<Rightarrow> fsys \<Rightarrow> wfile res \<times> fsys" where
  "fs_open_write trunc path fs0 =
     try_st (fs_call fs0) (\<lambda>_ fs.
       let bs = (if trunc then [] else case map_of (fs_files fs) path of None \<Rightarrow> [] | Some b \<Rightarrow> b);
           q = (case fs_write_faults fs of [] \<Rightarrow> [] | l # _ \<Rightarrow> l)
       in (Ok \<lparr>wf_data = bs, wf_synced = bs, wf_faults = q\<rparr>,
           (fs_store path bs fs)\<lparr>fs_write_faults := tl (fs_write_faults fs)\<rparr>))"

text \<open>\<^verbatim>\<open>File::open\<close>, with everything that can be read from it.\<close>

definition fs_open_read :: "string \<Rightarrow> fsys \<Rightarrow> bytes res \<times> fsys" where
  "fs_open_read path fs0 =
     try_st (fs_call fs0) (\<lambda>_ fs.
       (case map_of (fs_files fs) path of
          None \<Rightarrow> Err (Io (IoError KNotFound ''No such file or directory (os error 2)''))
        | Some bs \<Rightarrow> Ok bs, fs))"

definition fs_remove_file :: "string \<Rightarrow> fsys \<Rightarrow> unit res \<times> fsys" where
  "fs_remove_file path fs0 =
     try_st (fs_call fs0) (\<lambda>_ fs. (Ok (), fs\<lparr>fs_files := AList.delete path (fs_files fs)\<rparr>))"

definition fs_read_dir :: "fsys \<Rightarrow> string list res \<times> fsys" where
  "fs_read_dir fs0 = try_st (fs_call fs0) (\<lambda>_ fs. (Ok (map fst (fs_files fs)), fs))"

definition fs_create_dir_all :: "fsys \<Rightarrow> unit res \<times> fsys" where
  "fs_create_dir_all fs0 = try_st (fs_call fs0) (\<lambda>_ fs. (Ok (), fs\<lparr>fs_dir := True\<rparr>))"

section \<open>Lemmas\<close>

definition fs_sound :: "fsys \<Rightarrow> bool" where
  "fs_sound fs \<longleftrightarrow> fs_faults fs = [] \<and> fs_write_faults fs = []"

text \<open>A directory lists every path once.\<close>

definition fs_distinct :: "fsys \<Rightarrow> bool" where
  "fs_distinct fs \<longleftrightarrow> distinct (map fst (fs_files fs))"

abbreviation fs_lookup :: "fsys \<Rightarrow> string \<Rightarrow> bytes option" where
  "fs_lookup fs \<equiv> map_of (fs_files fs)"

lemma fs_call_sound [simp]: "fs_sound fs \<Longrightarrow> fs_call fs = (Ok (), fs)"
  by (simp add: fs_call_def fs_sound_def)

lemma fs_store_simps [simp]:
  "fs_lookup (fs_store p bs fs) = (fs_lookup fs)(p \<mapsto> bs)"
  "fs_sound (fs_store p bs fs) \<longleftrightarrow> fs_sound fs" "fs_dir (fs_store p bs fs) = fs_dir fs"
  "fs_distinct fs \<Longrightarrow> fs_distinct (fs_store p bs fs)"
  by (simp_all add: fs_store_def update_conv' fs_sound_def fs_distinct_def distinct_update)

lemma fs_open_write_sound:
  assumes "fs_sound fs"
  shows "fs_open_write trunc p fs =
    (Ok (file_of (if trunc then [] else case fs_lookup fs p of None \<Rightarrow> [] | Some b \<Rightarrow> b)),
     fs_store p (if trunc then [] else case fs_lookup fs p of None \<Rightarrow> [] | Some b \<Rightarrow> b) fs)"
  using assms by (auto simp: fs_open_write_def Let_def file_of_def fs_sound_def fs_store_def)

lemma fs_open_read_sound:
  "fs_sound fs \<Longrightarrow> fs_lookup fs p = Some bs \<Longrightarrow> fs_open_read p fs = (Ok bs, fs)"
  by (simp add: fs_open_read_def)

lemma fs_remove_file_sound:
  assumes "fs_sound fs"
  obtains fs' where "fs_remove_file p fs = (Ok (), fs')" "fs_sound fs'" "fs_lookup fs' = (fs_lookup fs)(p := None)"
    "fs_dir fs' = fs_dir fs" "fs_distinct fs \<Longrightarrow> fs_distinct fs'"
  using assms by (auto simp: fs_remove_file_def fs_sound_def delete_conv' fs_distinct_def distinct_delete intro: that)

text \<open>An existing empty directory without failures.\<close>

definition empty_fs :: fsys where
  "empty_fs = \<lparr>fs_dir = True, fs_files = [], fs_faults = [], fs_write_faults = []\<rparr>"

lemma empty_fs_simps [simp]: "fs_sound empty_fs" "fs_files empty_fs = []" "fs_dir empty_fs"
  by (simp_all add: empty_fs_def fs_sound_def)

end
