(* ===== verification/Compaction_Job.thy ===== *)
theory Compaction_Job
  imports Merge File_System
begin

text \<open>
  \<^verbatim>\<open>src/src/compaction/mod.rs\<close> and \<^verbatim>\<open>src/src/compaction/picker.rs\<close>: choosing the tables to
  compact and writing the merged table. The job consumes the merge until it ends, so its loop is a
  \<open>partial_function\<close> whose value \<open>None\<close> is a run that never returns. The job works on the file
  system; a builder that is dropped on an error leaves what it has written.
\<close>

section \<open>Definitions\<close>

subsection \<open>Thresholds and the picker\<close>

definition target_size_for_level :: "nat \<Rightarrow> u64" where
  "target_size_for_level level =
     (if level = 0 then - 1 else 10 ^ (level mod 2 ^ 32) * 1024 * 1024)"

definition MAX_LEVEL0_FILES :: nat where
  "MAX_LEVEL0_FILES = 4"

record CompactionTask =
  ct_inputs :: "SSTableReader list"
  ct_level :: nat
  ct_output_level :: nat

record CompactionPicker =
  cp_max_levels :: nat

definition CompactionPicker_new :: "nat \<Rightarrow> CompactionPicker" where
  "CompactionPicker_new levels = \<lparr>cp_max_levels = levels\<rparr>"

definition calculate_level_size :: "SSTableReader list \<Rightarrow> u64" where
  "calculate_level_size level = sum_list (map sr_file_size level)"

definition pick_level0_compaction :: "SSTableReader list list \<Rightarrow> CompactionTask option res" where
  "pick_level0_compaction levels =
     (if levels = [] then Panic
      else if levels ! 0 = [] then Ok None
      else Ok (Some \<lparr>ct_inputs = levels ! 0, ct_level = 0, ct_output_level = 1\<rparr>))"

definition pick_level_compaction :: "SSTableReader list list \<Rightarrow> nat \<Rightarrow> CompactionTask option" where
  "pick_level_compaction levels level =
     (if length levels \<le> level \<or> levels ! level = [] then None
      else Some \<lparr>ct_inputs = [levels ! level ! 0], ct_level = level, ct_output_level = level + 1\<rparr>)"

text \<open>The loop over the levels \<open>level, \<dots>, upper - 1\<close>; indexing past the last level panics.\<close>

function pick_levels_loop :: "SSTableReader list list \<Rightarrow> nat \<Rightarrow> nat \<Rightarrow> CompactionTask option res" where
  "pick_levels_loop levels upper level =
     (if upper \<le> level then Ok None
      else if length levels \<le> level then Panic
      else if target_size_for_level level < calculate_level_size (levels ! level)
      then Ok (pick_level_compaction levels level)
      else pick_levels_loop levels upper (Suc level))"
  by auto
termination
  by (relation "measure (\<lambda>(levels, upper, level). length levels - level)") auto

declare pick_levels_loop.simps [simp del]

text \<open>\<^verbatim>\<open>self.max_levels - 1\<close> wraps around for 0.\<close>

definition pick_compaction :: "CompactionPicker \<Rightarrow> SSTableReader list list \<Rightarrow> CompactionTask option res" where
  "pick_compaction self levels =
     (if levels = [] then Panic
      else if MAX_LEVEL0_FILES \<le> length (levels ! 0) then pick_level0_compaction levels
      else pick_levels_loop levels (if cp_max_levels self = 0 then 2 ^ 64 - 1 else cp_max_levels self - 1) 1)"

subsection \<open>The job\<close>

record CompactionJob =
  cj_inputs :: "SSTableReader list"
  cj_output_level :: nat
  cj_db_path :: string
  cj_block_size :: nat

definition CompactionJob_new :: "SSTableReader list \<Rightarrow> nat \<Rightarrow> string \<Rightarrow> nat \<Rightarrow> CompactionJob" where
  "CompactionJob_new inputs output_level db_path bsize =
     \<lparr>cj_inputs = inputs, cj_output_level = output_level, cj_db_path = db_path, cj_block_size = bsize\<rparr>"

record CompactionResult =
  cr_file_number :: u64
  cr_entry_count :: nat
  cr_output_path :: string

definition sst_file_name :: "u64 \<Rightarrow> string" where
  "sst_file_name n = fmt_06 (unat n) @ ''.sst''"

text \<open>The loop over the merge: duplicates of the last key are skipped, and so are tombstones below level 0.\<close>

partial_function (option) job_loop ::
  "ext \<Rightarrow> nat \<Rightarrow> MergeIterator \<Rightarrow> bytes option \<Rightarrow> nat \<Rightarrow> SSTableBuilder \<Rightarrow> (nat res \<times> SSTableBuilder) option" where
  "job_loop x output_level mi last_user_key entry_count sb =
     (case MergeIterator_next x mi of
        (Ok None, mi') \<Rightarrow> Some (Ok entry_count, sb)
      | (Ok (Some (key, v)), mi') \<Rightarrow>
          if last_user_key = Some key then job_loop x output_level mi' last_user_key entry_count sb
          else if 0 < output_level \<and> v = [] then job_loop x output_level mi' (Some key) entry_count sb
          else (case SSTableBuilder_add x key v sb of
                  (Ok _, sb') \<Rightarrow> job_loop x output_level mi' (Some key) (entry_count + 1) sb'
                | (Err e, sb') \<Rightarrow> Some (Err e, sb')
                | (Panic, sb') \<Rightarrow> Some (Panic, sb'))
      | (Err e, mi') \<Rightarrow> Some (Err e, sb)
      | (Panic, mi') \<Rightarrow> Some (Panic, sb))"

text \<open>A builder that goes out of scope on an error drops its writer, which flushes it.\<close>

definition drop_builder :: "SSTableBuilder \<Rightarrow> wfile" where
  "drop_builder sb = bw_file (snd (BufWriter_flush_buf (sb_writer sb)))"

definition finish_job :: "ext \<Rightarrow> u64 \<Rightarrow> string \<Rightarrow> nat \<Rightarrow> SSTableBuilder \<Rightarrow> fsys \<Rightarrow> CompactionResult res \<times> fsys" where
  "finish_job x num output_path entry_count sb fs =
     (if entry_count = 0 then
        (case SSTableBuilder_abandon sb of
           (abandoned, f) \<Rightarrow>
             try_st (abandoned, fs_store output_path (wf_data f) fs) (\<lambda>_ fs.
             try_st (if fs_exists output_path fs then fs_remove_file output_path fs else (Ok (), fs)) (\<lambda>_ fs.
               (Ok \<lparr>cr_file_number = 0, cr_entry_count = 0, cr_output_path = output_path\<rparr>, fs))))
      else
        (case SSTableBuilder_finish x sb of
           (finished, f) \<Rightarrow>
             try_st (finished, fs_store output_path (wf_data f) fs) (\<lambda>file_size fs.
               (Ok \<lparr>cr_file_number = num, cr_entry_count = entry_count, cr_output_path = output_path\<rparr>, fs))))"

definition CompactionJob_run ::
  "ext \<Rightarrow> u64 \<Rightarrow> CompactionJob \<Rightarrow> fsys \<Rightarrow> (CompactionResult res \<times> fsys) option" where
  "CompactionJob_run x num job fs =
     (let output_path = path_join (cj_db_path job) (sst_file_name num) in
      case MergeIterator_new x (cj_inputs job) of
        Err e \<Rightarrow> Some (Err e, fs)
      | Panic \<Rightarrow> Some (Panic, fs)
      | Ok mi \<Rightarrow>
          (case fs_open_write True output_path fs of
             (created, fs1) \<Rightarrow>
               (case SSTableBuilder_new created of
                  Err e \<Rightarrow> Some (Err e, fs1)
                | Panic \<Rightarrow> Some (Panic, fs1)
                | Ok sb \<Rightarrow>
                    (case job_loop x (cj_output_level job) mi None 0
                            (SSTableBuilder_set_block_size (cj_block_size job) sb) of
                       None \<Rightarrow> None
                     | Some (Ok n, sb') \<Rightarrow> Some (finish_job x num output_path n sb' fs1)
                     | Some (Err e, sb') \<Rightarrow> Some (Err e, fs_store output_path (wf_data (drop_builder sb')) fs1)
                     | Some (Panic, sb') \<Rightarrow> Some (Panic, fs_store output_path (wf_data (drop_builder sb')) fs1)))))"

section \<open>Specification\<close>

text \<open>The entries that a job writes for a merged sequence.\<close>

fun compacted :: "nat \<Rightarrow> bytes option \<Rightarrow> kv list \<Rightarrow> kv list" where
  "compacted lvl prev [] = []"
| "compacted lvl prev ((k, v) # es) =
     (if prev = Some k then compacted lvl prev es
      else if 0 < lvl \<and> v = [] then compacted lvl (Some k) es
      else (k, v) # compacted lvl (Some k) es)"

definition kept :: "nat \<Rightarrow> bytes option \<Rightarrow> bytes option" where
  "kept lvl r = (case r of None \<Rightarrow> None | Some v \<Rightarrow> if 0 < lvl \<and> v = [] then None else Some v)"

section \<open>The job loop\<close>

text \<open>How a loop that added some entries ends.\<close>

definition loop_end :: "nat \<Rightarrow> unit res \<times> SSTableBuilder \<Rightarrow> nat res \<times> SSTableBuilder" where
  "loop_end n r = bind_st r (\<lambda>_ sb. (Ok n, sb)) (\<lambda>sb. sb)"

lemma loop_end_simps [simp]:
  "loop_end n (Ok u, sb) = (Ok n, sb)" "loop_end n (Err e, sb) = (Err e, sb)" "loop_end n (Panic, sb) = (Panic, sb)"
  by (simp_all add: loop_end_def)

lemma job_loop_merges:
  assumes "merge_rep x mi ls"
  shows "\<exists>out. merges ls out \<and> job_loop x lvl mi prev n sb =
    Some (loop_end (n + length (compacted lvl prev out)) (SSTableBuilder_add_all x (compacted lvl prev out) sb))"
  using assms
proof (induction "length (concat ls)" arbitrary: ls mi prev n sb)
  case 0
  then have "\<forall>l \<in> set ls. l = []" by (simp add: concat_eq_Nil_conv)
  then show ?case
    using MergeIterator_next_end[OF 0(2)] by (subst job_loop.simps) (auto intro!: exI[of _ "[]"] merges_done)
next
  case (Suc m)
  then have "\<exists>l \<in> set ls. l \<noteq> []" by (metis concat_eq_Nil_conv list.size(3) nat.distinct(1))
  then obtain mi' i where nxt: "MergeIterator_next x mi = (Ok (Some (hd (ls ! i))), mi')" and i: "smallest_head ls i"
    and rep: "merge_rep x mi' (ls[i := tl (ls ! i)])" using MergeIterator_next_step[OF Suc.prems] by blast
  obtain k v where kv: "hd (ls ! i) = (k, v)" by (cases "hd (ls ! i)")
  have il: "i < length ls" "ls ! i \<noteq> []" using i by (simp_all add: smallest_head_def)
  have "length (ls ! i) = Suc (length (tl (ls ! i)))" using il(2) by simp
  then have m: "m = length (concat (ls[i := tl (ls ! i)]))"
    using Suc.hyps(2) unfolding concat_update[OF il(1)] concat_at[OF il(1)] by simp
  note IH = Suc.hyps(1)[OF m rep]
  have out: "merges ls ((k, v) # out)" if "merges (ls[i := tl (ls ! i)]) out" for out
    using merges_take[OF i that] kv by simp
  show ?case
  proof (cases "prev = Some k \<or> 0 < lvl \<and> v = []")
    case True
    let ?prev = "if prev = Some k then prev else Some k"
    obtain o' where o': "merges (ls[i := tl (ls ! i)]) o'" "job_loop x lvl mi' ?prev n sb =
      Some (loop_end (n + length (compacted lvl ?prev o')) (SSTableBuilder_add_all x (compacted lvl ?prev o') sb))" using IH by blast
    have "job_loop x lvl mi prev n sb = job_loop x lvl mi' ?prev n sb"
      using True nxt by (subst job_loop.simps) (auto simp: kv)
    moreover have "compacted lvl prev ((k, v) # o') = compacted lvl ?prev o'" using True by auto
    ultimately show ?thesis using o' out by (intro exI[of _ "(k, v) # o'"]) (simp only:)
  next
    case False
    obtain r sb' where add: "SSTableBuilder_add x k v sb = (r, sb')" by fastforce
    obtain o' where o': "merges (ls[i := tl (ls ! i)]) o'" "job_loop x lvl mi' (Some k) (n + 1) sb' =
      Some (loop_end (n + 1 + length (compacted lvl (Some k) o')) (SSTableBuilder_add_all x (compacted lvl (Some k) o') sb'))"
      using IH by blast
    have comp: "compacted lvl prev ((k, v) # o') = (k, v) # compacted lvl (Some k) o'" using False by auto
    have loop: "job_loop x lvl mi prev n sb = (case r of
        Ok _ \<Rightarrow> job_loop x lvl mi' (Some k) (n + 1) sb' | Err e \<Rightarrow> Some (Err e, sb') | Panic \<Rightarrow> Some (Panic, sb'))"
      using False nxt add by (subst job_loop.simps) (auto simp: kv split: res.splits)
    show ?thesis
      by (rule exI[of _ "(k, v) # o'"], unfold comp loop) (use o' out add in \<open>cases r, simp_all\<close>)
  qed
qed

section \<open>The entries written\<close>

lemma compacted_subset: "set (compacted lvl prev out) \<subseteq> set out"
  by (induction lvl prev out rule: compacted.induct) auto

lemma compacted_above:
  assumes "sorted (map fst out)" and "\<And>p. prev = Some p \<Longrightarrow> \<forall>e \<in> set out. p \<le> fst e"
  shows "(\<forall>p. prev = Some p \<longrightarrow> (\<forall>e \<in> set (compacted lvl prev out). p < fst e)) \<and>
    sorted_wrt (<) (map fst (compacted lvl prev out))"
  using assms
proof (induction lvl prev out rule: compacted.induct)
  case (1 lvl prev)
  then show ?case by simp
next
  case (2 lvl prev k v es)
  have srt: "sorted (map fst es)" "\<forall>e \<in> set es. k \<le> fst e" using 2(4) by auto
  consider (dup) "prev = Some k" | (tomb) "prev \<noteq> Some k" "0 < lvl \<and> v = []" | (keep) "prev \<noteq> Some k" "\<not> (0 < lvl \<and> v = [])"
    by blast
  then show ?case
  proof cases
    case dup
    then show ?thesis using 2(1)[OF dup srt(1)] srt(2) by simp
  next
    case tomb
    note ih = 2(2)[OF tomb srt(1)]
    have above: "\<forall>e \<in> set (compacted lvl (Some k) es). k < fst e" "sorted_wrt (<) (map fst (compacted lvl (Some k) es))"
      using ih srt(2) by auto
    have "p < k" if "prev = Some p" for p using 2(5)[OF that] that tomb(1) by (auto simp: less_le)
    then show ?thesis using above tomb by (auto intro: order.strict_trans)
  next
    case keep
    note ih = 2(3)[OF keep srt(1)]
    have above: "\<forall>e \<in> set (compacted lvl (Some k) es). k < fst e" "sorted_wrt (<) (map fst (compacted lvl (Some k) es))"
      using ih srt(2) by auto
    have "p < k" if "prev = Some p" for p using 2(5)[OF that] that keep(1) by (auto simp: less_le)
    then show ?thesis using above keep by (auto intro: order.strict_trans)
  qed
qed

lemma compacted_lookup:
  assumes "sorted (map fst out)" and "\<And>p. prev = Some p \<Longrightarrow> \<forall>e \<in> set out. p \<le> fst e"
  shows "map_of (compacted lvl prev out) key = (if prev = Some key then None else kept lvl (map_of out key))"
  using assms
proof (induction lvl prev out rule: compacted.induct)
  case (1 lvl prev)
  then show ?case by (simp add: kept_def)
next
  case (2 lvl prev k v es)
  have srt: "sorted (map fst es)" "\<forall>e \<in> set es. k \<le> fst e" using 2(4) by auto
  have above: "p < k" if "prev = Some p" "prev \<noteq> Some k" for p using 2(5)[OF that(1)] that by (auto simp: less_le)
  have gone: "map_of es key = None" if "prev = Some key" "prev \<noteq> Some k"
    by (rule map_of_below) (use srt(2) above[OF that] in \<open>auto intro: order.strict_trans2\<close>)
  consider (dup) "prev = Some k" | (tomb) "prev \<noteq> Some k" "0 < lvl \<and> v = []" | (keep) "prev \<noteq> Some k" "\<not> (0 < lvl \<and> v = [])"
    by blast
  then show ?case
  proof cases
    case dup
    then show ?thesis using 2(1)[OF dup srt(1)] srt(2) by auto
  next
    case tomb
    then show ?thesis using 2(2)[OF tomb srt(1)] srt(2) gone by (auto simp: kept_def)
  next
    case keep
    then show ?thesis using 2(3)[OF keep srt(1)] srt(2) gone above by (auto simp: kept_def)
  qed
qed

lemma compacted_size: "kv_size (compacted lvl prev out) \<le> kv_size out"
  by (induction lvl prev out rule: compacted.induct) (auto intro: trans_le_add2)

lemma merges_size: "merges ls out \<Longrightarrow> kv_size out = kv_size (concat ls)"
proof (induction rule: merges.induct)
  case (merges_done ls)
  then have "concat ls = []" by simp
  then show ?case by (simp only: kv_size_simps)
next
  case (merges_take ls i out)
  then have i: "i < length ls" "ls ! i = hd (ls ! i) # tl (ls ! i)" by (simp_all add: smallest_head_def)
  have "concat ls = concat (take i ls) @ [hd (ls ! i)] @ tl (ls ! i) @ concat (drop (Suc i) ls)"
    using concat_at[OF i(1)] i(2) by (metis append_Cons append_Nil)
  then show ?case using merges_take.IH unfolding concat_update[OF i(1)] by simp
qed

text \<open>What a job over sorted runs writes: sorted entries in which the newest version of each key wins.\<close>

lemma compacted_runs:
  assumes "merges ls out" and "runs ls"
  shows "kv_sorted (compacted lvl None out)"
    and "map_of (compacted lvl None out) key = kept lvl (map_of (concat ls) key)"
    and "kv_size (compacted lvl None out) \<le> kv_size (concat ls)"
proof -
  have srt: "sorted (map fst out)" by (rule merges_sorted[OF assms])
  have "[] \<notin> fst ` set (concat ls)" using assms(2) by (auto simp: runs_def kv_sorted_def)
  then have "[] \<notin> fst ` set (compacted lvl None out)"
    using compacted_subset[of lvl None out] merges_set[OF assms(1)] by (metis image_mono subsetD)
  moreover have "sorted_wrt (<) (map fst (compacted lvl None out))" using compacted_above[OF srt, of None lvl] by simp
  ultimately show "kv_sorted (compacted lvl None out)" by (simp add: kv_sorted_def)
  show "map_of (compacted lvl None out) key = kept lvl (map_of (concat ls) key)"
    using compacted_lookup[OF srt, of None lvl key] merges_newest[OF assms] by simp
  show "kv_size (compacted lvl None out) \<le> kv_size (concat ls)"
    using compacted_size[of lvl None out] merges_size[OF assms(1)] by simp
qed

section \<open>The whole job\<close>

lemma job_builder_rep:
  assumes "wf_data f = []" and "wf_faults f = []" and "SSTableBuilder_new (Ok f) = Ok sb"
  shows "sb_rep x (SSTableBuilder_set_block_size n sb) [] []"
    and "sb_compression (SSTableBuilder_set_block_size n sb) = CompressionNone"
  using sb_rep_config(1)[OF sb_rep_new[OF assms]] assms(3)
  by (auto simp: SSTableBuilder_new_def SSTableBuilder_set_block_size_def)

lemma runs_tables: "list_all2 (table_rep x) rds bss \<Longrightarrow> runs (map stored_entries bss)"
  by (auto simp: runs_def list_all2_conv_all_nth in_set_conv_nth table_rep_def)

definition job_sources :: "stored_block list list \<Rightarrow> kv list" where
  "job_sources bss = concat (map stored_entries bss)"

text \<open>The file opens as a table with the given entries.\<close>

definition opens_as :: "ext \<Rightarrow> bytes \<Rightarrow> kv list \<Rightarrow> bool" where
  "opens_as x file es \<longleftrightarrow>
     (\<forall>path cached. \<exists>rd bs. SSTableReader_open_with_cache x path (Ok file) cached = Ok rd \<and>
        table_rep x rd bs \<and> stored_entries bs = es \<and> sr_cached rd = cached \<and>
        sr_file_number rd = table_file_number x path \<and> sr_path rd = path \<and>
        served x (table_store x rd bs) rd bs)"

lemma opens_asE:
  assumes "opens_as x f es"
  obtains rd bs where "SSTableReader_open_with_cache x path (Ok f) cached = Ok rd" "table_rep x rd bs"
    "stored_entries bs = es" "sr_cached rd = cached" "sr_file_number rd = table_file_number x path" "sr_path rd = path"
    "served x (table_store x rd bs) rd bs"
  using assms unfolding opens_as_def by blast

lemma build_opens_as:
  assumes "sb_rep x sb0 [] []" and "sb_compression sb0 = Snappy \<longrightarrow> snappy_law x"
    and "kv_sorted es" and "kv_size es + 8 < 2 ^ 32"
  obtains sb f where "SSTableBuilder_add_all x es sb0 = (Ok (), sb)"
    "SSTableBuilder_finish x sb = (Ok (of_nat (length (wf_data f))), f)" "opens_as x (wf_data f) es"
proof -
  note build = build_and_open_from[OF assms]
  obtain sb f where b: "SSTableBuilder_add_all x es sb0 = (Ok (), sb)"
    "SSTableBuilder_finish x sb = (Ok (of_nat (length (wf_data f))), f)"
    by (rule build[of undefined False]) blast
  have "opens_as x (wf_data f) es"
    unfolding opens_as_def
  proof (intro allI)
    fix path cached
    show "\<exists>rd bs. SSTableReader_open_with_cache x path (Ok (wf_data f)) cached = Ok rd \<and>
        table_rep x rd bs \<and> stored_entries bs = es \<and> sr_cached rd = cached \<and>
        sr_file_number rd = table_file_number x path \<and> sr_path rd = path \<and>
        served x (table_store x rd bs) rd bs"
      by (rule build[of path cached]) (use b table_store_serves in auto)
  qed
  then show ?thesis using that b by blast
qed

lemma CompactionJob_run_tables:
  assumes tabs: "list_all2 (table_rep x) (cj_inputs job) bss" and fs: "fs_sound fs"
    and size: "kv_size (job_sources bss) + 8 < 2 ^ 32"
    and path: "path = path_join (cj_db_path job) (sst_file_name num)"
  shows "\<exists>es. kv_sorted es \<and> (\<forall>key. map_of es key = kept (cj_output_level job) (map_of (job_sources bss) key)) \<and>
    kv_size es \<le> kv_size (job_sources bss) \<and>
    (\<exists>r fs'. CompactionJob_run x num job fs = Some (Ok r, fs') \<and> fs_sound fs' \<and> fs_dir fs' = fs_dir fs \<and>
       cr_entry_count r = length es \<and> cr_output_path r = path \<and>
       (if es = [] then cr_file_number r = 0 \<and> fs_lookup fs' = (fs_lookup fs)(path := None)
        else cr_file_number r = num \<and> (\<exists>g. fs_lookup fs' = (fs_lookup fs)(path \<mapsto> g) \<and> opens_as x g es)))"
proof -
  let ?lvl = "cj_output_level job" and ?ls = "map stored_entries bss" and ?f = "file_of []"
  obtain mi where mi: "MergeIterator_new x (cj_inputs job) = Ok mi" "merge_rep x mi ?ls"
    using MergeIterator_new_rep[OF tabs] by blast
  obtain sb where sb: "SSTableBuilder_new (Ok ?f) = Ok sb" by (simp add: SSTableBuilder_new_def)
  define sb0 where "sb0 = SSTableBuilder_set_block_size (cj_block_size job) sb"
  have rep: "sb_rep x sb0 [] []" and comp: "sb_compression sb0 = CompressionNone"
    using job_builder_rep[OF _ _ sb] by (simp_all add: sb0_def file_of_def)
  obtain out where out: "merges ?ls out" and loop: "job_loop x ?lvl mi None 0 sb0 =
      Some (loop_end (length (compacted ?lvl None out)) (SSTableBuilder_add_all x (compacted ?lvl None out) sb0))"
    using job_loop_merges[OF mi(2), of ?lvl None 0 sb0] by auto
  define es where "es = compacted ?lvl None out"
  note c = compacted_runs[OF out runs_tables[OF tabs], of ?lvl, folded es_def]
  have sz: "kv_size es + 8 < 2 ^ 32" using c(3) size by (simp add: job_sources_def)
  obtain sb' g where b: "SSTableBuilder_add_all x es sb0 = (Ok (), sb')"
    "SSTableBuilder_finish x sb' = (Ok (of_nat (length (wf_data g))), g)" "opens_as x (wf_data g) es"
    by (rule build_opens_as[OF rep _ c(1) sz]) (use comp in auto)
  let ?fs1 = "fs_store path [] fs"
  have run: "CompactionJob_run x num job fs = Some (finish_job x num path (length es) sb' ?fs1)"
    using mi(1) sb loop b(1)
    by (simp add: CompactionJob_run_def Let_def fs_open_write_sound[OF fs] path sb0_def[symmetric] es_def[symmetric])
  have "\<exists>r fs'. CompactionJob_run x num job fs = Some (Ok r, fs') \<and> fs_sound fs' \<and> fs_dir fs' = fs_dir fs \<and>
       cr_entry_count r = length es \<and> cr_output_path r = path \<and>
       (if es = [] then cr_file_number r = 0 \<and> fs_lookup fs' = (fs_lookup fs)(path := None)
        else cr_file_number r = num \<and> (\<exists>g. fs_lookup fs' = (fs_lookup fs)(path \<mapsto> g) \<and> opens_as x g es))"
  proof (cases "es = []")
    case True
    obtain q where q: "SSTableBuilder_abandon sb' = (Ok (), q)" by (simp add: SSTableBuilder_abandon_def)
    obtain fs' where "fs_remove_file path (fs_store path (wf_data q) ?fs1) = (Ok (), fs')" "fs_sound fs'"
      "fs_lookup fs' = (fs_lookup (fs_store path (wf_data q) ?fs1))(path := None)" "fs_dir fs' = fs_dir fs"
      using fs_remove_file_sound[of "fs_store path (wf_data q) ?fs1" path] fs by auto
    then show ?thesis using run True q by (simp add: finish_job_def fs_exists_def)
  next
    case False
    then show ?thesis using run b fs by (auto simp: finish_job_def)
  qed
  then show ?thesis using c(1,2,3) by (intro exI[of _ es]) (simp add: job_sources_def)
qed

section \<open>The picker\<close>

lemma pick_levels_loop_spec:
  assumes "upper \<le> length levels"
  shows "\<exists>r. pick_levels_loop levels upper level = Ok r \<and>
    (case r of
       None \<Rightarrow> \<forall>l. level \<le> l \<and> l < upper \<longrightarrow> calculate_level_size (levels ! l) \<le> target_size_for_level l
     | Some t \<Rightarrow> level \<le> ct_level t \<and> ct_level t < upper \<and> ct_output_level t = ct_level t + 1 \<and>
         target_size_for_level (ct_level t) < calculate_level_size (levels ! ct_level t) \<and>
         levels ! ct_level t \<noteq> [] \<and> ct_inputs t = [levels ! ct_level t ! 0])"
  using assms
proof (induction levels upper level rule: pick_levels_loop.induct)
  case (1 levels upper level)
  note step = pick_levels_loop.simps[of levels upper level]
  show ?case
  proof (cases "level < upper \<and> calculate_level_size (levels ! level) \<le> target_size_for_level level")
    case True
    then obtain r where r: "pick_levels_loop levels upper (Suc level) = Ok r"
      "case r of None \<Rightarrow> \<forall>l. Suc level \<le> l \<and> l < upper \<longrightarrow> calculate_level_size (levels ! l) \<le> target_size_for_level l
       | Some t \<Rightarrow> Suc level \<le> ct_level t \<and> ct_level t < upper \<and> ct_output_level t = ct_level t + 1 \<and>
         target_size_for_level (ct_level t) < calculate_level_size (levels ! ct_level t) \<and>
         levels ! ct_level t \<noteq> [] \<and> ct_inputs t = [levels ! ct_level t ! 0]"
      using 1 by (auto simp: not_le not_less)
    moreover have "pick_levels_loop levels upper level = Ok r"
      using True r(1) 1(2) by (auto simp: step)
    moreover have "level \<le> l \<longleftrightarrow> l = level \<or> Suc level \<le> l" for l by auto
    ultimately show ?thesis using True by (cases r) auto
  next
    case False
    have "levels ! level \<noteq> []" if "target_size_for_level level < calculate_level_size (levels ! level)"
      using that by (auto simp: calculate_level_size_def)
    then show ?thesis
      using False 1(2) by (auto simp: step not_le not_less pick_level_compaction_def)
  qed
qed

section \<open>Properties\<close>

text \<open>
  C36. Compaction keeps the data: over well-formed input tables (at most 4 GiB in all) a job
  returns, and the table it writes opens and holds, in key order, one version of every key, the one
  in the earliest input that has the key, without the tombstones if the output level is above 0. If
  nothing is left, the output file is removed and file number 0 is reported.
\<close>

theorem CompactionJob_newest_wins:
  assumes "list_all2 (table_rep x) inputs bss" and "kv_size (job_sources bss) + 8 < 2 ^ 32" and "fs_sound fs"
  shows "\<exists>es. kv_sorted es \<and> (\<forall>key. map_of es key = kept lvl (map_of (job_sources bss) key)) \<and>
    (\<exists>r fs'. CompactionJob_run x num (CompactionJob_new inputs lvl dir bsize) fs = Some (Ok r, fs') \<and>
       cr_entry_count r = length es \<and> cr_output_path r = path_join dir (sst_file_name num) \<and>
       (if es = [] then cr_file_number r = 0 \<and> fs_lookup fs' = (fs_lookup fs)(cr_output_path r := None)
        else cr_file_number r = num \<and>
          (\<exists>g. fs_lookup fs' = (fs_lookup fs)(cr_output_path r \<mapsto> g) \<and> opens_as x g es)))"
proof -
  let ?job = "CompactionJob_new inputs lvl dir bsize"
  have job: "cj_inputs ?job = inputs" "cj_output_level ?job = lvl" "cj_db_path ?job = dir"
    by (simp_all add: CompactionJob_new_def)
  obtain es r fs' where es: "kv_sorted es" "\<forall>key. map_of es key = kept lvl (map_of (job_sources bss) key)"
    and r: "CompactionJob_run x num ?job fs = Some (Ok r, fs')" "cr_entry_count r = length es"
      "cr_output_path r = path_join dir (sst_file_name num)"
    and f: "if es = [] then cr_file_number r = 0 \<and> fs_lookup fs' = (fs_lookup fs)(path_join dir (sst_file_name num) := None)
      else cr_file_number r = num \<and>
        (\<exists>g. fs_lookup fs' = (fs_lookup fs)(path_join dir (sst_file_name num) \<mapsto> g) \<and> opens_as x g es)"
    using CompactionJob_run_tables[of x ?job bss fs _ num, unfolded job, OF assms(1,3,2) refl] by blast
  show ?thesis
    by (intro exI[of _ es] exI[of _ r] exI[of _ fs'] conjI) (use es r f in simp_all)
qed

theorem CompactionJob_newest_wins_witness:
  "\<exists>rd g r fs' es. CompactionJob_run sample_ext 9 (CompactionJob_new [rd, rd] 1 ''db'' 20) empty_fs = Some (Ok r, fs') \<and>
     cr_file_number r = 9 \<and> fs_lookup fs' (cr_output_path r) = Some g \<and> opens_as sample_ext g es \<and>
     map_of es [3] = Some [8] \<and> map_of es [1, 2] = None"
proof -
  obtain rd bs where rd: "table_rep sample_ext rd bs" "stored_entries bs = sample_entries"
    by (rule sample_table[of False])
  have "list_all2 (table_rep sample_ext) [rd, rd] [bs, bs]" using rd by simp
  moreover have "kv_size (job_sources [bs, bs]) + 8 < 2 ^ 32"
    using rd by (simp add: job_sources_def sample_entries_def)
  moreover have "fs_sound empty_fs" by simp
  ultimately obtain es r fs' where es: "\<forall>key. map_of es key = kept 1 (map_of (job_sources [bs, bs]) key)"
    "CompactionJob_run sample_ext 9 (CompactionJob_new [rd, rd] 1 ''db'' 20) empty_fs = Some (Ok r, fs')"
    "if es = [] then cr_file_number r = 0 \<and> fs_lookup fs' = (fs_lookup empty_fs)(cr_output_path r := None)
     else cr_file_number r = 9 \<and>
       (\<exists>g. fs_lookup fs' = (fs_lookup empty_fs)(cr_output_path r \<mapsto> g) \<and> opens_as sample_ext g es)"
    using CompactionJob_newest_wins[of sample_ext "[rd, rd]" "[bs, bs]" empty_fs 1 9 "''db''" 20] by blast
  have "map_of es [3] = Some [8]" "map_of es [1, 2] = None"
    using es(1) rd(2) by (simp_all add: job_sources_def sample_entries_def kept_def)
  moreover from this obtain g where "cr_file_number r = 9" "opens_as sample_ext g es"
    "fs_lookup fs' = (fs_lookup empty_fs)(cr_output_path r \<mapsto> g)" using es(3) by (auto split: if_splits)
  ultimately show ?thesis
    using es(2) by (intro exI[of _ rd] exI[of _ g] exI[of _ r] exI[of _ fs'] exI[of _ es]) simp
qed



text \<open>
  C40. The size target of a level up to 13 is 10^level MiB, as documented; it wraps around from level 14 on.
\<close>

theorem target_size_no_overflow:
  assumes "1 \<le> level" and "level \<le> 13"
  shows "unat (target_size_for_level level) = 10 ^ level * 2 ^ 20"
proof -
  have "(10 :: nat) ^ level \<le> 10 ^ 13" using assms by (intro power_increasing) auto
  then have "(10 :: nat) ^ level * 2 ^ 20 < 2 ^ 64" by simp
  then have "unat (of_nat (10 ^ level * 2 ^ 20) :: u64) = 10 ^ level * 2 ^ 20" by (rule unat_of_nat_u64)
  moreover have "target_size_for_level level = of_nat (10 ^ level * 2 ^ 20)"
    using assms by (simp add: target_size_for_level_def)
  ultimately show ?thesis by simp
qed

theorem target_size_no_overflow_witness: "unat (target_size_for_level 13) = 10 ^ 13 * 2 ^ 20"
  using target_size_no_overflow[of 13] by simp

text \<open>
  C39. A read error in the middle of a merge is swallowed: if advancing the table whose entry is
  taken fails, the job ends as if the inputs were exhausted, without the entry taken and without all
  remaining entries, and reports success.
\<close>

theorem job_swallows_read_error:
  assumes "heap_pop (mi_heap mi) = Some (entry, heap)" and "me_index entry < length (mi_iters mi)"
    and "SSTableIterator_advance x (mi_iters mi ! me_index entry) = (Err e, si)"
  shows "job_loop x lvl mi prev n sb = Some (Ok n, sb)"
  using assms
  by (subst job_loop.simps) (simp add: MergeIterator_next_def advance_iterator_def advance_and_push_def)

theorem job_swallows_read_error_witness:
  "\<exists>mi. mi_heap mi \<noteq> [] \<and> job_loop sample_ext 1 mi None 5 (table_builder sample_ext 20 Snappy 3) =
     Some (Ok 5, table_builder sample_ext 20 Snappy 3)"
proof -
  let ?h = "BlockHandle_new 0 10"
  let ?si = "\<lparr>si_file = [], si_entries = [([1], ?h), ([2], ?h)], si_block_index = 0, si_block = None, si_iter = None\<rparr>"
  let ?e = "\<lparr>me_key = [1], me_value = [7], me_index = 0\<rparr>"
  let ?mi = "\<lparr>mi_heap = [?e], mi_iters = [?si]\<rparr>"
  have "heap_pop (mi_heap ?mi) = Some (?e, [])" by (simp add: heap_pop_def)
  moreover obtain e si where "SSTableIterator_advance sample_ext (mi_iters ?mi ! me_index ?e) = (Err e, si)"
    by (simp add: SSTableIterator_advance_def load_current_block_def read_block_data_def BlockHandle_new_def
        file_read_exact_def)
  ultimately show ?thesis
    using job_swallows_read_error[of ?mi ?e "[]" sample_ext _ _ 1 None 5 "table_builder sample_ext 20 Snappy 3"] by (intro exI[of _ ?mi]) auto
qed

end
