(* ===== verification/Version.thy ===== *)
theory Version
  imports Compaction_Job
begin

text \<open>
  \<^verbatim>\<open>src/src/compaction/version.rs\<close>: the table files of each level and the manifest in which
  every change is recorded as a line of JSON. \<^verbatim>\<open>serde_json\<close> is the parameter \<open>json\<close>; the
  standard library's \<^verbatim>\<open>lines\<close>, UTF-8 validation and \<^verbatim>\<open>trim\<close> are modelled. A line is
  written with two unbuffered calls, its text and its newline.
\<close>

section \<open>Definitions\<close>

subsection \<open>Versions\<close>

datatype VersionEdit =
    AddFile (ve_level: nat) (ve_number: u64) (ve_size: u64) (ve_smallest: bytes) (ve_largest: bytes)
  | DeleteFile (ve_level: nat) (ve_number: u64)
  | SetNextFileNumber u64
  | SetSequenceNumber u64

record FileMetaData =
  fm_number :: u64
  fm_size :: u64
  fm_smallest :: bytes
  fm_largest :: bytes

record Version =
  v_levels :: "FileMetaData list list"

definition Version_new :: "nat \<Rightarrow> Version" where
  "Version_new n = \<lparr>v_levels = replicate n []\<rparr>"

text \<open>\<^verbatim>\<open>levels[*level]\<close> panics if the level does not exist.\<close>

definition Version_apply :: "VersionEdit \<Rightarrow> Version \<Rightarrow> Version res" where
  "Version_apply edit v =
     (case edit of
        AddFile level num sz lo hi \<Rightarrow>
          if level < length (v_levels v)
          then Ok (v\<lparr>v_levels := (v_levels v)[level := v_levels v ! level @
                 [\<lparr>fm_number = num, fm_size = sz, fm_smallest = lo, fm_largest = hi\<rparr>]]\<rparr>)
          else Panic
      | DeleteFile level num \<Rightarrow>
          if level < length (v_levels v)
          then Ok (v\<lparr>v_levels := (v_levels v)[level := filter (\<lambda>f. fm_number f \<noteq> num) (v_levels v ! level)]\<rparr>)
          else Panic
      | _ \<Rightarrow> Ok v)"

definition Version_num_files :: "Version \<Rightarrow> nat" where
  "Version_num_files v = sum_list (map length (v_levels v))"

definition Version_total_size :: "Version \<Rightarrow> u64" where
  "Version_total_size v = sum_list (map fm_size (concat (v_levels v)))"

subsection \<open>Text files\<close>

definition utf8_cont :: "u8 \<Rightarrow> bool" where
  "utf8_cont b \<longleftrightarrow> 128 \<le> b \<and> b < 192"

fun utf8_decode :: "bytes \<Rightarrow> nat list option" where
  "utf8_decode [] = Some []"
| "utf8_decode (b # bs) =
     (if b < 128 then map_option (Cons (unat b)) (utf8_decode bs)
      else if 194 \<le> b \<and> b < 224 then
        (case bs of
           c1 # r \<Rightarrow> if utf8_cont c1
             then map_option (Cons ((unat b - 192) * 64 + (unat c1 - 128))) (utf8_decode r) else None
         | _ \<Rightarrow> None)
      else if 224 \<le> b \<and> b < 240 then
        (case bs of
           c1 # c2 # r \<Rightarrow>
             (let cp = (unat b - 224) * 4096 + (unat c1 - 128) * 64 + (unat c2 - 128) in
              if utf8_cont c1 \<and> utf8_cont c2 \<and> 2048 \<le> cp \<and> \<not> (55296 \<le> cp \<and> cp < 57344)
              then map_option (Cons cp) (utf8_decode r) else None)
         | _ \<Rightarrow> None)
      else if 240 \<le> b \<and> b < 245 then
        (case bs of
           c1 # c2 # c3 # r \<Rightarrow>
             (let cp = (unat b - 240) * 262144 + (unat c1 - 128) * 4096 + (unat c2 - 128) * 64 + (unat c3 - 128) in
              if utf8_cont c1 \<and> utf8_cont c2 \<and> utf8_cont c3 \<and> 65536 \<le> cp \<and> cp < 1114112
              then map_option (Cons cp) (utf8_decode r) else None)
         | _ \<Rightarrow> None)
      else None)"

definition char_is_whitespace :: "nat \<Rightarrow> bool" where
  "char_is_whitespace c \<longleftrightarrow>
     9 \<le> c \<and> c \<le> 13 \<or> c = 32 \<or> c = 133 \<or> c = 160 \<or> c = 5760 \<or> 8192 \<le> c \<and> c \<le> 8202 \<or>
     c = 8232 \<or> c = 8233 \<or> c = 8239 \<or> c = 8287 \<or> c = 12288"

text \<open>\<^verbatim>\<open>BufRead::lines\<close>: split at newlines, which are removed together with a preceding carriage return.\<close>

definition strip_cr :: "bytes \<Rightarrow> bytes" where
  "strip_cr l = (if l \<noteq> [] \<and> last l = 13 then butlast l else l)"

function text_lines :: "bytes \<Rightarrow> bytes list" where
  "text_lines bs =
     (if bs = [] then []
      else let l = takeWhile (\<lambda>b. b \<noteq> 10) bs; r = dropWhile (\<lambda>b. b \<noteq> 10) bs
           in if r = [] then [l] else strip_cr l # text_lines (tl r))"
  by auto
termination
proof (relation "measure length")
  fix bs l r :: bytes
  assume "bs \<noteq> []" "r = dropWhile (\<lambda>b. b \<noteq> 10) bs" "r \<noteq> []"
  then have "length r \<le> length bs" "length (tl r) < length r" by (simp_all only: length_dropWhile_le) simp
  then show "(tl r, bs) \<in> measure length" by simp
qed simp

declare text_lines.simps [simp del]

subsection \<open>The manifest\<close>

record json =
  js_to_string :: "VersionEdit \<Rightarrow> string + bytes"
  js_from_str :: "bytes \<Rightarrow> string + VersionEdit"

record VersionSet =
  vs_current :: Version
  vs_manifest_path :: string
  vs_manifest_file :: "wfile option"
  vs_max_levels :: nat
  vs_next_file_number :: u64

definition VersionSet_apply_edit :: "VersionEdit \<Rightarrow> VersionSet \<Rightarrow> VersionSet res" where
  "VersionSet_apply_edit edit vs =
     (case edit of
        SetNextFileNumber num \<Rightarrow> Ok (vs\<lparr>vs_next_file_number := num\<rparr>)
      | SetSequenceNumber _ \<Rightarrow> Ok vs
      | _ \<Rightarrow> bind_res (Version_apply edit (vs_current vs)) (\<lambda>v. Ok (vs\<lparr>vs_current := v\<rparr>)))"

definition utf8_error :: error where
  "utf8_error = Io (IoError KOther ''stream did not contain valid UTF-8'')"

fun recover_lines :: "json \<Rightarrow> bytes list \<Rightarrow> VersionSet \<Rightarrow> VersionSet res" where
  "recover_lines js [] vs = Ok vs"
| "recover_lines js (line # ls) vs =
     (case utf8_decode line of
        None \<Rightarrow> Err utf8_error
      | Some cs \<Rightarrow>
          if list_all char_is_whitespace cs then recover_lines js ls vs
          else (case js_from_str js line of
                  Inl msg \<Rightarrow> Err (Corruption (''Failed to parse manifest entry: '' @ msg))
                | Inr edit \<Rightarrow> bind_res (VersionSet_apply_edit edit vs) (recover_lines js ls)))"

definition VersionSet_recover :: "json \<Rightarrow> VersionSet \<Rightarrow> fsys \<Rightarrow> VersionSet res \<times> fsys" where
  "VersionSet_recover js vs fs0 =
     try_st (fs_open_read (vs_manifest_path vs) fs0) (\<lambda>file fs.
     try_st (recover_lines js (text_lines file) vs, fs) (\<lambda>vs' fs.
     try_st (fs_open_write False (vs_manifest_path vs) fs) (\<lambda>f fs.
       (Ok (vs'\<lparr>vs_manifest_file := Some f\<rparr>), fs))))"

definition VersionSet_create_manifest :: "VersionSet \<Rightarrow> fsys \<Rightarrow> VersionSet res \<times> fsys" where
  "VersionSet_create_manifest vs fs0 =
     try_st (fs_open_write True (vs_manifest_path vs) fs0) (\<lambda>f fs.
       (Ok (vs\<lparr>vs_manifest_file := Some f\<rparr>), fs))"

definition VersionSet_new :: "json \<Rightarrow> string \<Rightarrow> nat \<Rightarrow> fsys \<Rightarrow> VersionSet res \<times> fsys" where
  "VersionSet_new js db_path levels fs =
     (let vs = \<lparr>vs_current = Version_new levels, vs_manifest_path = path_join db_path ''MANIFEST'',
                vs_manifest_file = None, vs_max_levels = levels, vs_next_file_number = 1\<rparr>
      in if fs_exists (vs_manifest_path vs) fs then VersionSet_recover js vs fs
         else VersionSet_create_manifest vs fs)"

text \<open>The manifest file belongs to its handle: the caller records what the handle has written.\<close>

definition VersionSet_log_edit :: "json \<Rightarrow> VersionEdit \<Rightarrow> VersionSet \<Rightarrow> unit res \<times> VersionSet" where
  "VersionSet_log_edit js edit vs0 =
     (case VersionSet_apply_edit edit vs0 of
        Err e \<Rightarrow> (Err e, vs0)
      | Panic \<Rightarrow> (Panic, vs0)
      | Ok vs \<Rightarrow>
          (case vs_manifest_file vs of
             None \<Rightarrow> (Ok (), vs)
           | Some f \<Rightarrow>
               (case js_to_string js edit of
                  Inl msg \<Rightarrow> (Err (Internal (''Failed to serialize edit: '' @ msg)), vs)
                | Inr text \<Rightarrow>
                    bind_st (try_st (file_write_all text f) (\<lambda>_. file_write_all [10]))
                      (\<lambda>_ f. (Ok (), vs\<lparr>vs_manifest_file := Some f\<rparr>))
                      (\<lambda>f. vs\<lparr>vs_manifest_file := Some f\<rparr>))))"

definition VersionSet_allocate_file_number :: "VersionSet \<Rightarrow> u64 \<times> VersionSet" where
  "VersionSet_allocate_file_number vs =
     (vs_next_file_number vs, vs\<lparr>vs_next_file_number := vs_next_file_number vs + 1\<rparr>)"

text \<open>Files that do not exist or do not open are left out.\<close>

fun load_level :: "ext \<Rightarrow> string \<Rightarrow> FileMetaData list \<Rightarrow> fsys \<Rightarrow> SSTableReader list res \<times> fsys" where
  "load_level x db_path [] fs = (Ok [], fs)"
| "load_level x db_path (fm # fms) fs =
     (let path = path_join db_path (sst_file_name (fm_number fm)) in
      if fs_exists path fs then
        (case fs_open_read path fs of
           (opened, fs) \<Rightarrow>
             (case SSTableReader_open x path opened of
                Ok rd \<Rightarrow> try_st (load_level x db_path fms fs) (\<lambda>rds fs. (Ok (rd # rds), fs))
              | Err e \<Rightarrow> load_level x db_path fms fs
              | Panic \<Rightarrow> (Panic, fs)))
      else load_level x db_path fms fs)"

fun load_levels :: "ext \<Rightarrow> string \<Rightarrow> FileMetaData list list \<Rightarrow> fsys \<Rightarrow> SSTableReader list list res \<times> fsys" where
  "load_levels x db_path [] fs = (Ok [], fs)"
| "load_levels x db_path (l # ls) fs =
     try_st (load_level x db_path l fs) (\<lambda>rds fs.
     try_st (load_levels x db_path ls fs) (\<lambda>rest fs. (Ok (rds # rest), fs)))"

text \<open>
  The version has \<^verbatim>\<open>max_levels\<close> levels from its creation on, so the result has one list for each.
\<close>

definition VersionSet_load_sstables :: "ext \<Rightarrow> string \<Rightarrow> VersionSet \<Rightarrow> fsys \<Rightarrow> SSTableReader list list res \<times> fsys" where
  "VersionSet_load_sstables x db_path vs fs = load_levels x db_path (v_levels (vs_current vs)) fs"

section \<open>Specification\<close>

text \<open>A version as a set of files with their levels.\<close>

definition version_files :: "Version \<Rightarrow> (nat \<times> FileMetaData) set" where
  "version_files v = {(l, f). l < length (v_levels v) \<and> f \<in> set (v_levels v ! l)}"

fun edit_files :: "VersionEdit \<Rightarrow> (nat \<times> FileMetaData) set \<Rightarrow> (nat \<times> FileMetaData) set" where
  "edit_files (AddFile l n s lo hi) fs =
     insert (l, \<lparr>fm_number = n, fm_size = s, fm_smallest = lo, fm_largest = hi\<rparr>) fs"
| "edit_files (DeleteFile l n) fs = {(l', f) \<in> fs. \<not> (l' = l \<and> fm_number f = n)}"
| "edit_files _ fs = fs"

fun edit_in_range :: "nat \<Rightarrow> VersionEdit \<Rightarrow> bool" where
  "edit_in_range n (AddFile l _ _ _ _) = (l < n)"
| "edit_in_range n (DeleteFile l _) = (l < n)"
| "edit_in_range n _ = True"

text \<open>
  What the code relies on of \<^verbatim>\<open>serde_json\<close> for an edit: it is printed as ASCII text on one line,
  which starts with a brace, ends with a printable character and is parsed back.
\<close>

definition json_ok :: "json \<Rightarrow> VersionEdit \<Rightarrow> bool" where
  "json_ok js e \<longleftrightarrow>
     (\<exists>t. js_to_string js e = Inr t \<and> js_from_str js t = Inr e \<and> t \<noteq> [] \<and> hd t = 123 \<and>
          last t \<noteq> 13 \<and> (\<forall>b \<in> set t. b < 128 \<and> b \<noteq> 10))"

definition json_text :: "json \<Rightarrow> VersionEdit \<Rightarrow> bytes" where
  "json_text js e = (case js_to_string js e of Inr t \<Rightarrow> t | Inl _ \<Rightarrow> [])"

text \<open>The operations of a version set in the order of their calls.\<close>

datatype vs_op = LogEdit VersionEdit | AllocateFileNumber

fun VersionSet_run :: "json \<Rightarrow> vs_op list \<Rightarrow> VersionSet \<Rightarrow> unit res \<times> VersionSet" where
  "VersionSet_run js [] vs = (Ok (), vs)"
| "VersionSet_run js (LogEdit e # ops) vs = try_st (VersionSet_log_edit js e vs) (\<lambda>_. VersionSet_run js ops)"
| "VersionSet_run js (AllocateFileNumber # ops) vs =
     VersionSet_run js ops (snd (VersionSet_allocate_file_number vs))"

fun logged :: "vs_op list \<Rightarrow> VersionEdit list" where
  "logged [] = []"
| "logged (LogEdit e # ops) = e # logged ops"
| "logged (AllocateFileNumber # ops) = logged ops"

section \<open>Lemmas\<close>

lemma Version_apply_ok:
  "Version_apply e v = Ok v' \<Longrightarrow> edit_in_range (length (v_levels v)) e \<and> length (v_levels v') = length (v_levels v)"
  by (cases e) (auto simp: Version_apply_def split: if_splits)

lemma Version_apply_files:
  assumes "edit_in_range (length (v_levels v)) e"
  shows "\<exists>v'. Version_apply e v = Ok v' \<and> version_files v' = edit_files e (version_files v) \<and>
    length (v_levels v') = length (v_levels v)"
  using assms by (cases e) (auto simp: Version_apply_def version_files_def nth_list_update split: if_splits)

lemma text_lines_Nil [simp]: "text_lines [] = []"
  by (simp add: text_lines.simps)

lemma text_lines_line:
  assumes "10 \<notin> set l" and "l \<noteq> [] \<Longrightarrow> last l \<noteq> 13"
  shows "text_lines (l @ 10 # r) = l # text_lines r"
proof -
  have tw: "takeWhile (\<lambda>b. b \<noteq> 10) (l @ 10 # r) = l" using assms(1) by (auto simp: takeWhile_append)
  have dw: "dropWhile (\<lambda>b. b \<noteq> 10) (l @ 10 # r) = 10 # r" using assms(1) by (auto simp: dropWhile_append)
  show ?thesis
    using assms(2) by (subst text_lines.simps) (simp only: tw dw Let_def, auto simp: strip_cr_def)
qed

lemma text_lines_concat:
  assumes "\<forall>l \<in> set ls. 10 \<notin> set l \<and> (l \<noteq> [] \<longrightarrow> last l \<noteq> 13)"
  shows "text_lines (concat (map (\<lambda>l. l @ [10]) ls)) = ls"
  using assms by (induction ls) (auto simp: text_lines_line)

lemma utf8_decode_ascii: "\<forall>b \<in> set l. b < 128 \<Longrightarrow> utf8_decode l = Some (map unat l)"
  by (induction l) auto

lemma recover_lines_json:
  assumes "json_ok js e"
  shows "recover_lines js (json_text js e # ls) vs = bind_res (VersionSet_apply_edit e vs) (recover_lines js ls)"
proof -
  obtain t where t: "js_to_string js e = Inr t" "js_from_str js t = Inr e" "t \<noteq> []" "hd t = 123" "\<forall>b \<in> set t. b < 128"
    using assms by (auto simp: json_ok_def)
  have "\<not> list_all char_is_whitespace (map unat t)"
    using t(3,4) by (cases t) (auto simp: char_is_whitespace_def)
  then show ?thesis using t utf8_decode_ascii[OF t(5)] by (simp add: json_text_def)
qed

fun apply_edits :: "VersionEdit list \<Rightarrow> VersionSet \<Rightarrow> VersionSet res" where
  "apply_edits [] vs = Ok vs"
| "apply_edits (e # es) vs = bind_res (VersionSet_apply_edit e vs) (apply_edits es)"

lemma recover_lines_all:
  "\<forall>e \<in> set es. json_ok js e \<Longrightarrow> recover_lines js (map (json_text js) es) vs = apply_edits es vs"
proof (induction es arbitrary: vs)
  case (Cons e es)
  then show ?case using recover_lines_json[of js e "map (json_text js) es" vs]
    by (auto intro: bind_res_cong)
qed simp

lemma apply_edits_append: "apply_edits (es @ es') vs = bind_res (apply_edits es vs) (apply_edits es')"
  by (induction es arbitrary: vs) (auto simp: bind_res_def split: res.splits)

definition manifest_text :: "json \<Rightarrow> VersionEdit list \<Rightarrow> bytes" where
  "manifest_text js es = concat (map (\<lambda>l. l @ [10]) (map (json_text js) es))"

lemma manifest_lines:
  assumes "\<forall>e \<in> set es. json_ok js e"
  shows "text_lines (manifest_text js es) = map (json_text js) es"
  unfolding manifest_text_def
  by (rule text_lines_concat) (use assms in \<open>fastforce simp: json_ok_def json_text_def\<close>)

text \<open>
  The state after some operations agrees with the replay of the logged edits, except for numbers
  allocated since.
\<close>

definition vs_rep :: "json \<Rightarrow> VersionSet \<Rightarrow> VersionEdit list \<Rightarrow> VersionSet \<Rightarrow> bool" where
  "vs_rep js vs0 es vs \<longleftrightarrow>
     (\<exists>f r. vs_manifest_file vs = Some f \<and> wf_faults f = [] \<and> wf_data f = manifest_text js es \<and>
            apply_edits es vs0 = Ok r \<and> vs_current r = vs_current vs)"

lemma VersionSet_apply_edit_cong:
  assumes "vs_current a = vs_current b"
  shows "VersionSet_apply_edit e a = Ok a' \<Longrightarrow> \<exists>b'. VersionSet_apply_edit e b = Ok b' \<and> vs_current b' = vs_current a'"
  using assms by (cases e) (auto simp: VersionSet_apply_edit_def)

lemma VersionSet_apply_edit_file: "VersionSet_apply_edit e vs = Ok vs' \<Longrightarrow> vs_manifest_file vs' = vs_manifest_file vs"
  by (cases e) (auto simp: VersionSet_apply_edit_def)

lemma file_write_all_clean: "wf_faults f = [] \<Longrightarrow> file_write_all d f = (Ok (), f\<lparr>wf_data := wf_data f @ d\<rparr>)"
  by (simp add: file_write_all_def next_fault_def)

lemma log_edit_rep:
  assumes rep: "vs_rep js vs0 es vs" and ok: "json_ok js e" and log: "VersionSet_log_edit js e vs = (Ok (), vs')"
  shows "vs_rep js vs0 (es @ [e]) vs'"
proof -
  obtain f r where f: "vs_manifest_file vs = Some f" "wf_faults f = []" "wf_data f = manifest_text js es"
    and r: "apply_edits es vs0 = Ok r" "vs_current r = vs_current vs" using rep by (auto simp: vs_rep_def)
  obtain t where t: "js_to_string js e = Inr t" using ok by (auto simp: json_ok_def)
  obtain vs1 where vs1: "VersionSet_apply_edit e vs = Ok vs1"
    using log by (cases "VersionSet_apply_edit e vs") (auto simp: VersionSet_log_edit_def)
  obtain r' where r': "VersionSet_apply_edit e r = Ok r'" "vs_current r' = vs_current vs1"
    using VersionSet_apply_edit_cong[OF r(2)[symmetric] vs1] by blast
  have "vs' = vs1\<lparr>vs_manifest_file := Some (f\<lparr>wf_data := wf_data f @ t @ [10]\<rparr>)\<rparr>"
    using log vs1 f t VersionSet_apply_edit_file[OF vs1]
    by (simp add: VersionSet_log_edit_def file_write_all_clean)
  then show ?thesis
    using f t r r' by (simp add: vs_rep_def apply_edits_append manifest_text_def json_text_def)
qed

lemma VersionSet_run_rep:
  assumes "vs_rep js vs0 es vs" and "\<forall>e \<in> set (logged ops). json_ok js e"
    and "VersionSet_run js ops vs = (Ok (), vs')"
  shows "vs_rep js vs0 (es @ logged ops) vs'"
  using assms
proof (induction js ops vs arbitrary: es rule: VersionSet_run.induct)
  case (1 js vs)
  then show ?case by simp
next
  case (2 js e ops vs)
  obtain vs1 where vs1: "VersionSet_log_edit js e vs = (Ok (), vs1)" "VersionSet_run js ops vs1 = (Ok (), vs')"
    using 2(4) by (auto simp: bind_st_def split: prod.splits res.splits)
  have "vs_rep js vs0 (es @ [e]) vs1" using log_edit_rep[OF 2(2) _ vs1(1)] 2(3) by simp
  then show ?case using 2(1) 2(3) vs1 by fastforce
next
  case (3 js ops vs)
  then show ?case by (auto simp: vs_rep_def VersionSet_allocate_file_number_def)
qed

section \<open>Properties\<close>

text \<open>
  C37. The manifest is a faithful log: after any sequence of logged edits and allocated file
  numbers that all succeed, opening the database directory again rebuilds the same levels. Of the
  file-number counter, only what \<^verbatim>\<open>SetNextFileNumber\<close> recorded comes back: an allocation by itself is not
  persistent.
\<close>

theorem VersionSet_reopen:
  assumes "fs_sound fs" and "\<not> fs_exists (path_join dir ''MANIFEST'') fs"
    and "VersionSet_new js dir n fs = (Ok vs0, fs0)"
    and "VersionSet_run js ops vs0 = (Ok (), vs)"
    and "\<forall>e \<in> set (logged ops). json_ok js e"
  shows "\<exists>f vs' fs'. vs_manifest_file vs = Some f \<and>
    VersionSet_new js dir n (fs_store (path_join dir ''MANIFEST'') (wf_data f) fs0) = (Ok vs', fs') \<and>
    vs_current vs' = vs_current vs \<and>
    vs_next_file_number vs' = fold (\<lambda>e m. case e of SetNextFileNumber k \<Rightarrow> k | _ \<Rightarrow> m) (logged ops) 1"
proof -
  let ?p = "path_join dir ''MANIFEST''"
  let ?start = "\<lparr>vs_current = Version_new n, vs_manifest_path = ?p,
    vs_manifest_file = None, vs_max_levels = n, vs_next_file_number = 1\<rparr>"
  have vs0: "vs0 = ?start\<lparr>vs_manifest_file := Some (file_of [])\<rparr>" and fs0: "fs0 = fs_store ?p [] fs"
    using assms(1-3) by (simp_all add: VersionSet_new_def VersionSet_create_manifest_def fs_open_write_sound)
  have "vs_rep js ?start [] vs0" by (simp add: vs0 vs_rep_def manifest_text_def file_of_def)
  from VersionSet_run_rep[OF this assms(5,4)] obtain f r where f: "vs_manifest_file vs = Some f"
    "wf_data f = manifest_text js (logged ops)" and r: "apply_edits (logged ops) ?start = Ok r"
    "vs_current r = vs_current vs" by (auto simp: vs_rep_def)
  define fs1 where "fs1 = fs_store ?p (wf_data f) fs0"
  have fs1: "fs_sound fs1" "fs_lookup fs1 ?p = Some (wf_data f)"
    using assms(1) by (simp_all add: fs1_def fs0)
  have "VersionSet_new js dir n fs1 =
      (Ok (r\<lparr>vs_manifest_file := Some (file_of (wf_data f))\<rparr>), fs_store ?p (wf_data f) fs1)"
    using r(1) f(2)
    by (simp add: VersionSet_new_def VersionSet_recover_def fs_exists_def fs1 fs_open_read_sound[OF fs1]
        fs_open_write_sound manifest_lines[OF assms(5)] recover_lines_all[OF assms(5)])
  moreover have "vs_next_file_number r' =
      fold (\<lambda>e m. case e of SetNextFileNumber k \<Rightarrow> k | _ \<Rightarrow> m) es (vs_next_file_number v)"
    if "apply_edits es v = Ok r'" for es v r'
    using that by (induction es arbitrary: v) (auto simp: VersionSet_apply_edit_def split: VersionEdit.splits)
  ultimately show ?thesis using f(1) r unfolding fs1_def by fastforce
qed

text \<open>A printer for the edits of the example.\<close>

definition sample_json :: json where
  "sample_json = \<lparr>js_to_string = (\<lambda>e. case e of AddFile l n _ _ _ \<Rightarrow> Inr [123, 65, 48 + of_nat l, 48 + ucast n, 125] | _ \<Rightarrow> Inl ''''),
     js_from_str = (\<lambda>t. if length t = 5 then Inr (AddFile (unat (t ! 2 - 48)) (ucast (t ! 3 - 48)) 9 [1] [3]) else Inl ''eof'')\<rparr>"

theorem VersionSet_reopen_witness:
  "\<exists>vs0 fs0 vs f vs' fs'. VersionSet_new sample_json ''db'' 2 empty_fs = (Ok vs0, fs0) \<and>
     VersionSet_run sample_json [AllocateFileNumber, LogEdit (AddFile 1 5 9 [1] [3])] vs0 = (Ok (), vs) \<and>
     vs_manifest_file vs = Some f \<and>
     VersionSet_new sample_json ''db'' 2 (fs_store (path_join ''db'' ''MANIFEST'') (wf_data f) fs0) = (Ok vs', fs') \<and>
     vs_current vs' = vs_current vs \<and> Version_num_files (vs_current vs') = 1 \<and> vs_next_file_number vs' = 1"
proof -
  let ?e = "AddFile 1 5 9 [1] [3]"
  have two: "replicate 2 x = [x, x]" for x :: "FileMetaData list" by (simp add: numeral_2_eq_2)
  have fs: "fs_sound empty_fs" "\<not> fs_exists (path_join ''db'' ''MANIFEST'') empty_fs"
    by (simp_all add: fs_exists_def)
  obtain vs0 fs0 where vs0: "VersionSet_new sample_json ''db'' 2 empty_fs = (Ok vs0, fs0)"
    "vs0 = \<lparr>vs_current = \<lparr>v_levels = [[], []]\<rparr>, vs_manifest_path = path_join ''db'' ''MANIFEST'',
      vs_manifest_file = Some (file_of []), vs_max_levels = 2, vs_next_file_number = 1\<rparr>"
    using fs by (simp add: VersionSet_new_def VersionSet_create_manifest_def fs_open_write_sound Version_new_def two)
  obtain vs where vs: "VersionSet_run sample_json [AllocateFileNumber, LogEdit ?e] vs0 = (Ok (), vs)"
    "Version_num_files (vs_current vs) = 1"
    by (simp add: vs0(2) VersionSet_log_edit_def VersionSet_allocate_file_number_def VersionSet_apply_edit_def
        Version_apply_def sample_json_def file_of_def file_write_all_clean Version_num_files_def)
  have ok: "\<forall>e \<in> set (logged [AllocateFileNumber, LogEdit ?e]). json_ok sample_json e"
    by (simp add: json_ok_def sample_json_def)
  obtain f vs' fs' where "vs_manifest_file vs = Some f"
     "VersionSet_new sample_json ''db'' 2 (fs_store (path_join ''db'' ''MANIFEST'') (wf_data f) fs0) = (Ok vs', fs')"
     "vs_current vs' = vs_current vs" "vs_next_file_number vs' = 1"
    using VersionSet_reopen[OF fs vs0(1) vs(1) ok] by auto
  then show ?thesis
    using vs0(1) vs by (intro exI[of _ vs0] exI[of _ fs0] exI[of _ vs] exI[of _ f] exI[of _ vs'] exI[of _ fs']) simp
qed

text \<open>
  A version is the set of files that the edits describe: applying an edit for an existing level
  adds or removes exactly the named file, and an edit for a level that does not exist panics.
\<close>

theorem Version_apply_refines:
  "(\<exists>v'. Version_apply e v = Ok v' \<and> version_files v' = edit_files e (version_files v) \<and>
      length (v_levels v') = length (v_levels v) \<and> edit_in_range (length (v_levels v)) e) \<or>
   (Version_apply e v = Panic \<and> \<not> edit_in_range (length (v_levels v)) e)"
  using Version_apply_files[of v e] by (cases e) (auto simp: Version_apply_def split: if_splits)

text \<open>
  A torn last line stops recovery: if a crash leaves only part of the last record in the
  manifest and the parser rejects the fragment, the version set cannot be opened although every earlier
  record is intact.
\<close>

theorem VersionSet_torn_manifest:
  assumes "\<forall>e \<in> set es. json_ok js e" and "\<forall>e \<in> set es. edit_in_range n e"
    and "fragment \<noteq> []" and "hd fragment = 123" and "\<forall>b \<in> set fragment. b < 128 \<and> b \<noteq> 10"
    and "js_from_str js fragment = Inl msg"
    and "fs_sound fs" and "fs_lookup fs (path_join dir ''MANIFEST'') = Some (manifest_text js es @ fragment)"
  shows "VersionSet_new js dir n fs = (Err (Corruption (''Failed to parse manifest entry: '' @ msg)), fs)"
proof -
  have tw: "takeWhile (\<lambda>b. b \<noteq> 10) fragment = fragment" "dropWhile (\<lambda>b. b \<noteq> 10) fragment = []"
    using assms(5) by (auto simp: takeWhile_eq_all_conv dropWhile_eq_Nil_conv)
  have one: "text_lines fragment = [fragment]"
    by (subst text_lines.simps) (simp only: tw Let_def assms(3) simp_thms if_True if_False)
  have lines: "text_lines (manifest_text js es @ fragment) = map (json_text js) es @ [fragment]"
    using assms(1)
  proof (induction es)
    case (Cons e es)
    then obtain t where "js_to_string js e = Inr t" "10 \<notin> set t" "last t \<noteq> 13" by (auto simp: json_ok_def)
    then show ?case using Cons text_lines_line[of t "manifest_text js es @ fragment"]
      by (auto simp: manifest_text_def json_text_def)
  qed (simp add: manifest_text_def one)
  have blank: "\<not> list_all char_is_whitespace (map unat fragment)"
    using assms(3,4) by (cases fragment) (auto simp: char_is_whitespace_def)
  have last: "recover_lines js [fragment] vs = Err (Corruption (''Failed to parse manifest entry: '' @ msg))" for vs
    using assms(5,6) blank utf8_decode_ascii[of fragment] by simp
  have "recover_lines js (map (json_text js) es @ [fragment]) vs = Err (Corruption (''Failed to parse manifest entry: '' @ msg))"
    if "length (v_levels (vs_current vs)) = n" for vs
    using assms(1,2) that
  proof (induction es arbitrary: vs)
    case (Cons e es)
    obtain vs' where "VersionSet_apply_edit e vs = Ok vs'" "length (v_levels (vs_current vs')) = n"
      using Version_apply_files[of "vs_current vs" e] Cons.prems(2,3)
      by (cases e) (auto simp: VersionSet_apply_edit_def)
    then show ?case using Cons recover_lines_json[of js e "map (json_text js) es @ [fragment]" vs] by simp
  qed (simp only: last append_Nil list.map)
  then show ?thesis
    by (simp add: VersionSet_new_def VersionSet_recover_def fs_exists_def assms(8) fs_open_read_sound[OF assms(7,8)]
        lines Version_new_def)
qed

theorem VersionSet_torn_manifest_witness:
  "fst (VersionSet_new sample_json ''db'' 2
     (fs_store (path_join ''db'' ''MANIFEST'') (manifest_text sample_json [AddFile 1 5 9 [1] [3]] @ [123, 65]) empty_fs)) =
   Err (Corruption ''Failed to parse manifest entry: eof'')"
proof -
  let ?es = "[AddFile 1 5 9 [1] [3]]" and ?p = "path_join ''db'' ''MANIFEST''"
  let ?fs = "fs_store ?p (manifest_text sample_json ?es @ [123, 65]) empty_fs"
  have "json_ok sample_json (AddFile 1 5 9 [1] [3])" "js_from_str sample_json [123, 65] = Inl ''eof''"
    by (simp_all add: json_ok_def sample_json_def)
  moreover have "fs_sound ?fs" by simp
  ultimately show ?thesis
    using VersionSet_torn_manifest[of ?es sample_json 2 "[123, 65]" "''eof''" ?fs "''db''"] by simp
qed

end
