(* ===== verification/Write_Batch.thy ===== *)
theory Write_Batch
  imports Errors
begin

text \<open>
  \<^verbatim>\<open>src/src/write_batch.rs\<close>: a batch of write operations and its size estimate. The effect
  of the operations on the contents of a store is the abstract key-value map \<open>apply_ops\<close>, the
  specification that the memtable, the write-ahead log and the database are compared with.
\<close>

section \<open>Definitions\<close>

datatype WriteOp = Put (op_key: bytes) bytes | Delete (op_key: bytes)

record WriteBatch =
  operations :: "WriteOp list"
  batch_size_estimate :: nat

definition WriteBatch_new :: WriteBatch where
  "WriteBatch_new = \<lparr>operations = [], batch_size_estimate = 0\<rparr>"

definition WriteBatch_put :: "bytes \<Rightarrow> bytes \<Rightarrow> WriteBatch \<Rightarrow> WriteBatch" where
  "WriteBatch_put key value b =
     (let op_size = length key + length value + 8
      in b\<lparr>batch_size_estimate := batch_size_estimate b + op_size,
           operations := operations b @ [Put key value]\<rparr>)"

definition WriteBatch_delete :: "bytes \<Rightarrow> WriteBatch \<Rightarrow> WriteBatch" where
  "WriteBatch_delete key b =
     (let op_size = length key + 4
      in b\<lparr>batch_size_estimate := batch_size_estimate b + op_size,
           operations := operations b @ [Delete key]\<rparr>)"

definition WriteBatch_clear :: "WriteBatch \<Rightarrow> WriteBatch" where
  "WriteBatch_clear b = b\<lparr>operations := [], batch_size_estimate := 0\<rparr>"

definition WriteBatch_len :: "WriteBatch \<Rightarrow> nat" where
  "WriteBatch_len b = length (operations b)"

definition WriteBatch_is_empty :: "WriteBatch \<Rightarrow> bool" where
  "WriteBatch_is_empty b \<longleftrightarrow> operations b = []"

definition WriteBatch_approximate_size :: "WriteBatch \<Rightarrow> nat" where
  "WriteBatch_approximate_size b = batch_size_estimate b"

definition WriteBatch_iter :: "WriteBatch \<Rightarrow> WriteOp list" where
  "WriteBatch_iter b = operations b"

section \<open>Specification: the contents of a store\<close>

type_synonym contents = "bytes \<rightharpoonup> bytes"

fun apply_op :: "WriteOp \<Rightarrow> contents \<Rightarrow> contents" where
  "apply_op (Put k v) m = m(k \<mapsto> v)"
| "apply_op (Delete k) m = m(k := None)"

definition apply_ops :: "WriteOp list \<Rightarrow> contents \<Rightarrow> contents" where
  "apply_ops ops m = fold apply_op ops m"

fun op_cost :: "WriteOp \<Rightarrow> nat" where
  "op_cost (Put k v) = length k + length v + 8"
| "op_cost (Delete k) = length k + 4"

definition WriteBatch_wf :: "WriteBatch \<Rightarrow> bool" where
  "WriteBatch_wf b \<longleftrightarrow> batch_size_estimate b = sum_list (map op_cost (operations b))"

text \<open>Building a batch from a list of operations, one call per operation.\<close>

fun WriteBatch_add :: "WriteOp \<Rightarrow> WriteBatch \<Rightarrow> WriteBatch" where
  "WriteBatch_add (Put k v) b = WriteBatch_put k v b"
| "WriteBatch_add (Delete k) b = WriteBatch_delete k b"

definition WriteBatch_of :: "WriteOp list \<Rightarrow> WriteBatch" where
  "WriteBatch_of ops = fold WriteBatch_add ops WriteBatch_new"

section \<open>Lemmas\<close>

lemma apply_ops_simps [simp]:
  "apply_ops [] m = m" "apply_ops (op # ops) m = apply_ops ops (apply_op op m)"
  "apply_ops (ops @ ops') m = apply_ops ops' (apply_ops ops m)"
  by (simp_all add: apply_ops_def)

lemma apply_op_other: "op_key op \<noteq> k \<Longrightarrow> apply_op op m k = m k"
  by (cases op) auto

lemma WriteBatch_add_operations [simp]: "operations (WriteBatch_add op b) = operations b @ [op]"
  by (cases op) (simp_all add: WriteBatch_put_def WriteBatch_delete_def Let_def)

lemma WriteBatch_add_wf: "WriteBatch_wf b \<Longrightarrow> WriteBatch_wf (WriteBatch_add op b)"
  by (cases op)
     (simp_all add: WriteBatch_wf_def WriteBatch_put_def WriteBatch_delete_def Let_def)

lemma WriteBatch_fold_add:
  "operations (fold WriteBatch_add ops b) = operations b @ ops"
  "WriteBatch_wf b \<Longrightarrow> WriteBatch_wf (fold WriteBatch_add ops b)"
  by (induction ops arbitrary: b) (auto simp: WriteBatch_add_wf)

lemma WriteBatch_new_wf: "WriteBatch_wf WriteBatch_new"
  by (simp add: WriteBatch_wf_def WriteBatch_new_def)

lemma WriteBatch_iter_of [simp]: "WriteBatch_iter (WriteBatch_of ops) = ops"
  by (simp add: WriteBatch_iter_def WriteBatch_of_def WriteBatch_fold_add WriteBatch_new_def)

end
