(* ===== verification/MemTable.thy ===== *)
theory MemTable
  imports Internal_Key Write_Batch
begin

text \<open>
  \<^verbatim>\<open>src/src/memtable/mod.rs\<close>: the memtable. The skip list that holds its entries is
  \<^verbatim>\<open>crossbeam_skiplist::SkipMap\<close>, a package outside the repository: the operations the source
  calls are the fields of the record \<open>SkipMap\<close>, an argument of every definition that uses them.
  The locale \<open>skip_map\<close> states the documented behaviour (an ordered map: iteration is in key
  order, an insert replaces the entry of an equal key, a range yields the entries between its
  bounds); the lemmas of the memtable are proved in it once. The instance at the end is a sorted
  association list.
\<close>

section \<open>Definitions\<close>

type_synonym entry = "InternalKey \<times> bytes"

record 'm SkipMap =
  sm_new :: 'm
  sm_insert :: "InternalKey \<Rightarrow> bytes \<Rightarrow> 'm \<Rightarrow> 'm"
  sm_range :: "InternalKey \<Rightarrow> InternalKey \<Rightarrow> 'm \<Rightarrow> entry list"
  sm_iter :: "'m \<Rightarrow> entry list"
  sm_len :: "'m \<Rightarrow> nat"
  sm_is_empty :: "'m \<Rightarrow> bool"

record 'm MemTable =
  mt_data :: 'm
  mt_size :: u64
  mt_start_sequence :: u64

definition MemTable_new :: "'m SkipMap \<Rightarrow> u64 \<Rightarrow> 'm MemTable" where
  "MemTable_new sm start_sequence =
     \<lparr>mt_data = sm_new sm, mt_size = 0, mt_start_sequence = start_sequence\<rparr>"

definition MemTable_put :: "'m SkipMap \<Rightarrow> bytes \<Rightarrow> bytes \<Rightarrow> u64 \<Rightarrow> 'm MemTable \<Rightarrow> 'm MemTable" where
  "MemTable_put sm key value seq mt =
     (let internal_key = InternalKey key seq Value;
          entry_size = length (user_key internal_key) + length value + 16
      in mt\<lparr>mt_data := sm_insert sm internal_key value (mt_data mt),
            mt_size := mt_size mt + of_nat entry_size\<rparr>)"

text \<open>The loop over the range in \<^verbatim>\<open>get\<close>.\<close>

fun MemTable_get_scan :: "bytes \<Rightarrow> u64 \<Rightarrow> entry list \<Rightarrow> bytes option" where
  "MemTable_get_scan key max_sequence [] = None"
| "MemTable_get_scan key max_sequence ((internal_key, value) # rest) =
     (if user_key internal_key = key \<and> sequence internal_key \<le> max_sequence
      then (case value_type internal_key of Value \<Rightarrow> Some value | Deletion \<Rightarrow> None)
      else MemTable_get_scan key max_sequence rest)"

definition MemTable_get :: "'m SkipMap \<Rightarrow> 'm MemTable \<Rightarrow> bytes \<Rightarrow> u64 \<Rightarrow> bytes option" where
  "MemTable_get sm mt key max_sequence =
     (let lower_bound = InternalKey key (- 1) Value;
          upper_bound = InternalKey (key @ [0]) (- 1) Value
      in MemTable_get_scan key max_sequence (sm_range sm lower_bound upper_bound (mt_data mt)))"

definition MemTable_delete :: "'m SkipMap \<Rightarrow> bytes \<Rightarrow> u64 \<Rightarrow> 'm MemTable \<Rightarrow> 'm MemTable" where
  "MemTable_delete sm key seq mt =
     (let internal_key = InternalKey key seq Deletion;
          entry_size = length (user_key internal_key) + 16
      in mt\<lparr>mt_data := sm_insert sm internal_key [] (mt_data mt),
            mt_size := mt_size mt + of_nat entry_size\<rparr>)"

definition MemTable_approximate_size :: "'m MemTable \<Rightarrow> u64" where
  "MemTable_approximate_size mt = mt_size mt"

definition MemTable_len :: "'m SkipMap \<Rightarrow> 'm MemTable \<Rightarrow> nat" where
  "MemTable_len sm mt = sm_len sm (mt_data mt)"

definition MemTable_is_empty :: "'m SkipMap \<Rightarrow> 'm MemTable \<Rightarrow> bool" where
  "MemTable_is_empty sm mt = sm_is_empty sm (mt_data mt)"

definition MemTable_iter :: "'m SkipMap \<Rightarrow> 'm MemTable \<Rightarrow> entry list" where
  "MemTable_iter sm mt = sm_iter sm (mt_data mt)"

text \<open>A \<^verbatim>\<open>BTreeSet\<close> yields its elements once each, in order.\<close>

definition MemTable_keys :: "'m SkipMap \<Rightarrow> 'm MemTable \<Rightarrow> bytes list" where
  "MemTable_keys sm mt = sorted_list_of_set (set (map (user_key \<circ> fst) (sm_iter sm (mt_data mt))))"

text \<open>
  Applying operations with consecutive sequence numbers: the loop of \<^verbatim>\<open>DB::write\<close> and of
  recovery.
\<close>

fun MemTable_apply :: "'m SkipMap \<Rightarrow> WriteOp \<Rightarrow> u64 \<Rightarrow> 'm MemTable \<Rightarrow> 'm MemTable" where
  "MemTable_apply sm (Put k v) seq mt = MemTable_put sm k v seq mt"
| "MemTable_apply sm (Delete k) seq mt = MemTable_delete sm k seq mt"

fun MemTable_apply_all :: "'m SkipMap \<Rightarrow> WriteOp list \<Rightarrow> u64 \<Rightarrow> 'm MemTable \<Rightarrow> 'm MemTable" where
  "MemTable_apply_all sm [] seq mt = mt"
| "MemTable_apply_all sm (op # ops) seq mt =
     MemTable_apply_all sm ops (seq + 1) (MemTable_apply sm op seq mt)"

section \<open>Specification\<close>

definition sorted_entries :: "entry list \<Rightarrow> bool" where
  "sorted_entries es \<longleftrightarrow> sorted_wrt (<) (map fst es)"

text \<open>The entry of \<open>key\<close> with the highest sequence number not above \<open>max_sequence\<close>.\<close>

definition newest_visible :: "entry set \<Rightarrow> bytes \<Rightarrow> u64 \<Rightarrow> u64 \<Rightarrow> bool" where
  "newest_visible es key max_sequence s \<longleftrightarrow>
     s \<le> max_sequence \<and> (\<exists>t v. (InternalKey key s t, v) \<in> es) \<and>
     (\<forall>s' t v. (InternalKey key s' t, v) \<in> es \<and> s' \<le> max_sequence \<longrightarrow> s' \<le> s)"

fun op_entry :: "WriteOp \<Rightarrow> u64 \<Rightarrow> entry" where
  "op_entry (Put k v) seq = (InternalKey k seq Value, v)"
| "op_entry (Delete k) seq = (InternalKey k seq Deletion, [])"

fun mem_cost :: "WriteOp \<Rightarrow> nat" where
  "mem_cost (Put k v) = length k + length v + 16"
| "mem_cost (Delete k) = length k + 16"

locale skip_map =
  fixes sm :: "'m SkipMap"
  assumes iter_new: "sm_iter sm (sm_new sm) = []"
    and insert_sorted: "sorted_entries (sm_iter sm m) \<Longrightarrow> sorted_entries (sm_iter sm (sm_insert sm k v m))"
    and insert_map: "sorted_entries (sm_iter sm m) \<Longrightarrow>
      map_of (sm_iter sm (sm_insert sm k v m)) = (map_of (sm_iter sm m))(k \<mapsto> v)"
    and range_filter: "sm_range sm lo hi m = filter (\<lambda>e. lo \<le> fst e \<and> fst e < hi) (sm_iter sm m)"
    and len_iter: "sm_len sm m = length (sm_iter sm m)"
    and is_empty_iter: "sm_is_empty sm m \<longleftrightarrow> sm_iter sm m = []"

section \<open>Lemmas\<close>

lemma no_key_between: "key < uk \<Longrightarrow> \<not> uk < key @ [0 :: u8]"
proof (induction key arbitrary: uk)
  case Nil
  then show ?case by (cases uk) auto
next
  case (Cons x key)
  then show ?case by (cases uk) auto
qed

lemma key_less_snoc: "key < key @ [x :: u8]"
  by (induction key) auto

lemma in_key_range_iff:
  "InternalKey key (- 1) Value \<le> k \<and> k < InternalKey (key @ [0]) (- 1) Value \<longleftrightarrow> user_key k = key"
proof
  assume *: "InternalKey key (- 1) Value \<le> k \<and> k < InternalKey (key @ [0]) (- 1) Value"
  then have "key \<le> user_key k"
    by (auto simp: less_eq_InternalKey_def InternalKey_cmp_Less InternalKey_cmp_Equal)
  moreover have "user_key k < key @ [0]"
    using * by (auto simp: InternalKey_less_iff less_ValueType_def word_order.extremum_strict)
  ultimately show "user_key k = key"
    using no_key_between by (metis order_le_less)
next
  assume k: "user_key k = key"
  have "value_type k = Value \<or> value_type k < Value"
    by (cases "value_type k") (simp_all add: less_ValueType_def)
  then show "InternalKey key (- 1) Value \<le> k \<and> k < InternalKey (key @ [0]) (- 1) Value"
    using k word_order.extremum[of "sequence k"]
    by (auto simp: less_eq_InternalKey_def InternalKey_cmp_Less InternalKey_cmp_Equal
        InternalKey_less_iff key_less_snoc InternalKey.expand order_le_less)
qed

lemma sorted_entries_Cons:
  "sorted_entries (e # es) \<longleftrightarrow> (\<forall>e' \<in> set es. fst e < fst e') \<and> sorted_entries es"
  by (auto simp: sorted_entries_def)

lemma sorted_entries_filter: "sorted_entries es \<Longrightarrow> sorted_entries (filter P es)"
  by (simp add: sorted_entries_def sorted_wrt_map sorted_wrt_filter)

lemma sorted_entries_distinct: "sorted_entries es \<Longrightarrow> distinct (map fst es)"
  by (simp add: sorted_entries_def sorted_wrt_less_distinct)

text \<open>In a list sorted by internal key the scan stops at the newest visible version.\<close>

lemma MemTable_get_scan_Some_iff:
  "sorted_entries es \<Longrightarrow>
     MemTable_get_scan key m es = Some v \<longleftrightarrow>
       (\<exists>s. newest_visible (set es) key m s \<and> (InternalKey key s Value, v) \<in> set es)"
proof (induction es)
  case Nil
  then show ?case by (simp add: newest_visible_def)
next
  case (Cons e es)
  obtain k v' where e: "e = (k, v')" by (cases e)
  have sorted: "sorted_entries es" and less: "\<And>k' w. (k', w) \<in> set es \<Longrightarrow> k < k'"
    using Cons.prems by (auto simp: sorted_entries_Cons e)
  show ?case
  proof (cases "user_key k = key \<and> sequence k \<le> m")
    case True
    then have k: "k = InternalKey key (sequence k) (value_type k)" by (simp add: InternalKey.expand)
    have older: "s' \<le> sequence k" if "(InternalKey key s' t, w) \<in> set (e # es)" for s' t w
    proof (cases "(InternalKey key s' t, w) = e")
      case True
      with e show ?thesis by auto
    next
      case False
      then have "k < InternalKey key s' t" using that less by auto
      with True show ?thesis by (subst (asm) k) (auto simp: InternalKey_less_iff)
    qed
    have new: "newest_visible (set (e # es)) key m s \<longleftrightarrow> s = sequence k" for s
    proof
      assume *: "newest_visible (set (e # es)) key m s"
      have "(InternalKey key (sequence k) (value_type k), v') \<in> set (e # es)" using k e by simp
      with * True have "sequence k \<le> s" unfolding newest_visible_def by blast
      moreover have "s \<le> sequence k" using * older unfolding newest_visible_def by blast
      ultimately show "s = sequence k" by simp
    next
      assume s: "s = sequence k"
      have "(InternalKey key s (value_type k), v') \<in> set (e # es)" using k e s by simp
      with s True older show "newest_visible (set (e # es)) key m s"
        unfolding newest_visible_def by blast
    qed
    have later: "(InternalKey key (sequence k) Value, w) \<notin> set es" for w
      using less[of "InternalKey key (sequence k) Value" w] True
      by (cases "value_type k") (auto simp: InternalKey_less_iff less_ValueType_def)
    have "(\<exists>s. newest_visible (set (e # es)) key m s \<and> (InternalKey key s Value, v) \<in> set (e # es))
        \<longleftrightarrow> (InternalKey key (sequence k) Value, v) \<in> set (e # es)"
      unfolding new by simp
    also have "\<dots> \<longleftrightarrow> value_type k = Value \<and> v = v'"
      using later k e by (metis InternalKey.sel(3) Pair_inject set_ConsD list.set_intros(1))
    also have "\<dots> \<longleftrightarrow> MemTable_get_scan key m (e # es) = Some v"
      using True by (cases "value_type k") (auto simp: e)
    finally show ?thesis by simp
  next
    case False
    then have "newest_visible (set (e # es)) key m s \<longleftrightarrow> newest_visible (set es) key m s" for s
      unfolding newest_visible_def e by auto
    moreover have "newest_visible (set es) key m s \<Longrightarrow> (InternalKey key s Value, v) \<noteq> e" for s
      using False by (auto simp: newest_visible_def e)
    ultimately show ?thesis using Cons.IH sorted False by (auto simp: e)
  qed
qed

context skip_map
begin

lemma get_eq_scan:
  "MemTable_get sm mt key m =
     MemTable_get_scan key m (filter (\<lambda>e. user_key (fst e) = key) (MemTable_iter sm mt))"
  unfolding MemTable_get_def Let_def range_filter in_key_range_iff MemTable_iter_def ..

lemma get_Some_iff:
  assumes "sorted_entries (MemTable_iter sm mt)"
  shows "MemTable_get sm mt key m = Some v \<longleftrightarrow>
    (\<exists>s. newest_visible (set (MemTable_iter sm mt)) key m s \<and>
         (InternalKey key s Value, v) \<in> set (MemTable_iter sm mt))"
proof -
  let ?es = "MemTable_iter sm mt"
  have "newest_visible (set (filter (\<lambda>e. user_key (fst e) = key) ?es)) key m s
      \<longleftrightarrow> newest_visible (set ?es) key m s" for s
    by (auto simp: newest_visible_def)
  then show ?thesis
    using MemTable_get_scan_Some_iff[OF sorted_entries_filter[OF assms]]
    by (auto simp: get_eq_scan)
qed

lemma iter_new_MemTable [simp]: "MemTable_iter sm (MemTable_new sm s) = []"
  by (simp add: MemTable_iter_def MemTable_new_def iter_new)

lemma iter_apply_sorted:
  "sorted_entries (MemTable_iter sm mt) \<Longrightarrow>
     sorted_entries (MemTable_iter sm (MemTable_apply sm op seq mt))"
  by (cases op)
     (simp_all add: MemTable_iter_def MemTable_put_def MemTable_delete_def insert_sorted)

lemma iter_apply_map:
  "sorted_entries (MemTable_iter sm mt) \<Longrightarrow>
     map_of (MemTable_iter sm (MemTable_apply sm op seq mt)) =
       (map_of (MemTable_iter sm mt))(fst (op_entry op seq) \<mapsto> snd (op_entry op seq))"
  by (cases op) (simp_all add: MemTable_iter_def MemTable_put_def MemTable_delete_def insert_map)

lemma set_iter_apply:
  assumes sorted: "sorted_entries (MemTable_iter sm mt)"
    and new: "fst (op_entry op seq) \<notin> fst ` set (MemTable_iter sm mt)"
  shows "set (MemTable_iter sm (MemTable_apply sm op seq mt)) =
    insert (op_entry op seq) (set (MemTable_iter sm mt))"
proof -
  let ?es = "MemTable_iter sm mt" and ?es' = "MemTable_iter sm (MemTable_apply sm op seq mt)"
  have "(k, v) \<in> set ?es' \<longleftrightarrow> (k, v) \<in> insert (op_entry op seq) (set ?es)" for k v
  proof -
    have "(k, v) \<in> set ?es' \<longleftrightarrow> map_of ?es' k = Some v"
      using sorted_entries_distinct[OF iter_apply_sorted[OF sorted]] by simp
    also have "\<dots> \<longleftrightarrow> (k, v) = op_entry op seq \<or> k \<noteq> fst (op_entry op seq) \<and> map_of ?es k = Some v"
      using iter_apply_map[OF sorted] by (cases "op_entry op seq") auto
    also have "\<dots> \<longleftrightarrow> (k, v) \<in> insert (op_entry op seq) (set ?es)"
      using new sorted_entries_distinct[OF sorted] by (auto simp: image_iff)
    finally show ?thesis .
  qed
  then show ?thesis by auto
qed

lemma newest_visible_insert_new:
  assumes below: "\<And>e. e \<in> es \<Longrightarrow> sequence (fst e) < seq" and k: "fst e = InternalKey key seq t"
  shows "newest_visible (insert e es) k' m s \<longleftrightarrow>
    (if k' = key \<and> seq \<le> m then s = seq else newest_visible es k' m s)"
proof (cases "k' = key \<and> seq \<le> m")
  case True
  have e: "e = (InternalKey key seq t, snd e)" using k by (metis prod.collapse)
  have "s' < seq" if "(InternalKey k' s' t', v) \<in> es" for s' t' v
    using below[OF that] by simp
  then have old: "(InternalKey k' s' t', v) \<in> insert e es \<Longrightarrow> s' \<le> seq" for s' t' v
    using e by fastforce
  have mem: "(InternalKey k' seq t, snd e) \<in> insert e es" using e True by simp
  have "newest_visible (insert e es) k' m s \<Longrightarrow> s = seq"
    unfolding newest_visible_def using mem old True by (meson order.antisym)
  moreover have "newest_visible (insert e es) k' m seq"
    unfolding newest_visible_def using mem old True by blast
  ultimately show ?thesis using True by auto
next
  case False
  have "newest_visible (insert e es) k' m s \<longleftrightarrow> newest_visible es k' m s"
  proof (cases "k' = key")
    case True
    with False have "\<not> seq \<le> m" by simp
    with True show ?thesis unfolding newest_visible_def using k by auto
  next
    case neq: False
    then show ?thesis unfolding newest_visible_def using k by auto
  qed
  with False show ?thesis by (simp only: if_False)
qed

lemma get_apply:
  assumes sorted: "sorted_entries (MemTable_iter sm mt)"
    and below: "\<And>e. e \<in> set (MemTable_iter sm mt) \<Longrightarrow> sequence (fst e) < seq"
  shows "MemTable_get sm (MemTable_apply sm op seq mt) k m =
    (if seq \<le> m then apply_op op (\<lambda>k. MemTable_get sm mt k m) k else MemTable_get sm mt k m)"
proof -
  let ?es = "set (MemTable_iter sm mt)"
  have k: "fst (op_entry op seq) = InternalKey (op_key op) seq (case op of Put _ _ \<Rightarrow> Value | Delete _ \<Rightarrow> Deletion)"
    by (cases op) simp_all
  have fresh: "sequence k' = seq \<Longrightarrow> (k', v) \<notin> ?es" for k' v
    using below by fastforce
  have "fst (op_entry op seq) \<notin> fst ` ?es" using fresh k by fastforce
  then have set: "set (MemTable_iter sm (MemTable_apply sm op seq mt)) = insert (op_entry op seq) ?es"
    by (rule set_iter_apply[OF sorted])
  have new: "newest_visible (insert (op_entry op seq) ?es) k m s \<longleftrightarrow>
      (if k = op_key op \<and> seq \<le> m then s = seq else newest_visible ?es k m s)" for s
    by (rule newest_visible_insert_new[OF _ k]) (rule below)
  let ?new = "\<lambda>v. (InternalKey k seq Value, v) = op_entry op seq"
  have get': "MemTable_get sm (MemTable_apply sm op seq mt) k m = Some v \<longleftrightarrow>
      (\<exists>s. (if k = op_key op \<and> seq \<le> m then s = seq else newest_visible ?es k m s) \<and>
         (InternalKey k s Value, v) \<in> insert (op_entry op seq) ?es)" for v
    unfolding get_Some_iff[OF iter_apply_sorted[OF sorted]] set new ..
  have "MemTable_get sm (MemTable_apply sm op seq mt) k m = Some v \<longleftrightarrow>
      (if seq \<le> m then apply_op op (\<lambda>k. MemTable_get sm mt k m) k else MemTable_get sm mt k m) = Some v"
    for v
  proof (cases "k = op_key op \<and> seq \<le> m")
    case True
    then have "MemTable_get sm (MemTable_apply sm op seq mt) k m = Some v \<longleftrightarrow> ?new v"
      unfolding get' using fresh by auto
    also have "\<dots> \<longleftrightarrow> apply_op op (\<lambda>k. MemTable_get sm mt k m) k = Some v"
      using True by (cases op) auto
    finally show ?thesis using True by simp
  next
    case False
    have "(InternalKey k s Value, v) = op_entry op seq \<Longrightarrow> \<not> newest_visible ?es k m s" for s
      using False by (cases op) (auto simp: newest_visible_def)
    then have "MemTable_get sm (MemTable_apply sm op seq mt) k m = Some v \<longleftrightarrow>
        MemTable_get sm mt k m = Some v"
      unfolding get' get_Some_iff[OF sorted] using False by auto
    with False show ?thesis by (auto simp: apply_op_other)
  qed
  then show ?thesis by (metis not_None_eq)
qed

lemma apply_below:
  assumes sorted: "sorted_entries (MemTable_iter sm mt)"
    and below: "\<And>e. e \<in> set (MemTable_iter sm mt) \<Longrightarrow> sequence (fst e) < seq"
    and room: "unat seq + 1 < 2 ^ 64"
    and e: "e \<in> set (MemTable_iter sm (MemTable_apply sm op seq mt))"
  shows "sequence (fst e) < seq + 1"
proof -
  have nxt: "seq < seq + 1"
    using room by (simp add: word_less_nat_alt unat_word_ariths)
  have "sequence (fst (op_entry op seq)) = seq" by (cases op) simp_all
  moreover have "fst (op_entry op seq) \<notin> fst ` set (MemTable_iter sm mt)"
    using below calculation by fastforce
  ultimately show ?thesis
    using set_iter_apply[OF sorted] e below[of e] nxt
    by (cases "e = op_entry op seq") (auto intro: less_trans[of _ seq])
qed

lemma unat_suc_u64: "unat (seq :: u64) + 1 < 2 ^ 64 \<Longrightarrow> unat (seq + 1) = unat seq + 1"
  by (simp add: unat_word_ariths)

lemma get_apply_all:
  assumes "sorted_entries (MemTable_iter sm mt)"
    and "\<And>e. e \<in> set (MemTable_iter sm mt) \<Longrightarrow> sequence (fst e) < seq"
    and "unat seq + length ops < 2 ^ 64"
  shows "MemTable_get sm (MemTable_apply_all sm ops seq mt) k m =
    apply_ops (take (unat m + 1 - unat seq) ops) (\<lambda>k. MemTable_get sm mt k m) k"
  using assms
proof (induction ops arbitrary: seq mt)
  case Nil
  then show ?case by simp
next
  case (Cons op ops)
  have nxt: "unat (seq + 1) = unat seq + 1" using Cons.prems(3) by (simp add: unat_suc_u64)
  have "MemTable_get sm (MemTable_apply_all sm (op # ops) seq mt) k m =
      apply_ops (take (unat m + 1 - unat (seq + 1)) ops)
        (\<lambda>k. MemTable_get sm (MemTable_apply sm op seq mt) k m) k"
    using Cons.prems apply_below nxt by (simp add: Cons.IH iter_apply_sorted)
  also have "\<dots> = apply_ops (take (unat m + 1 - unat seq) (op # ops)) (\<lambda>k. MemTable_get sm mt k m) k"
  proof (cases "seq \<le> m")
    case True
    then have "unat m + 1 - unat seq = Suc (unat m + 1 - unat (seq + 1))"
      using nxt by (simp add: word_le_nat_alt Suc_diff_le)
    with True Cons.prems show ?thesis by (simp add: get_apply)
  next
    case False
    then have "unat m + 1 - unat seq = 0" by (simp add: word_le_nat_alt)
    with False Cons.prems nxt show ?thesis by (simp add: get_apply)
  qed
  finally show ?case .
qed

lemma apply_all_sorted:
  "sorted_entries (MemTable_iter sm mt) \<Longrightarrow>
     sorted_entries (MemTable_iter sm (MemTable_apply_all sm ops seq mt))"
  by (induction ops arbitrary: seq mt) (simp_all add: iter_apply_sorted)

lemma apply_all_set:
  assumes "sorted_entries (MemTable_iter sm mt)"
    and "\<And>e. e \<in> set (MemTable_iter sm mt) \<Longrightarrow> sequence (fst e) < seq"
    and "unat seq + length ops < 2 ^ 64"
  shows "set (MemTable_iter sm (MemTable_apply_all sm ops seq mt)) =
    set (MemTable_iter sm mt) \<union> {op_entry (ops ! i) (seq + of_nat i) |i. i < length ops}"
  using assms
proof (induction ops arbitrary: seq mt)
  case Nil
  then show ?case by simp
next
  case (Cons op ops)
  have "sequence (fst (op_entry op seq)) = seq" by (cases op) simp_all
  then have fresh: "fst (op_entry op seq) \<notin> fst ` set (MemTable_iter sm mt)"
    using Cons.prems(2) by fastforce
  have nxt: "unat (seq + 1) = unat seq + 1" using Cons.prems(3) by (simp add: unat_suc_u64)
  have "set (MemTable_iter sm (MemTable_apply_all sm (op # ops) seq mt)) =
      insert (op_entry op seq) (set (MemTable_iter sm mt)) \<union>
      {op_entry (ops ! i) (seq + 1 + of_nat i) |i. i < length ops}"
    using Cons.prems apply_below nxt
    by (simp add: Cons.IH iter_apply_sorted set_iter_apply[OF Cons.prems(1) fresh])
  moreover have "{op_entry (ops ! i) (seq + 1 + of_nat i) |i. i < length ops} \<union> {op_entry op seq} =
      {op_entry ((op # ops) ! i) (seq + of_nat i) |i. i < length (op # ops)}"
    (is "?A \<union> _ = ?B")
  proof (intro equalityI subsetI)
    fix x assume "x \<in> ?A \<union> {op_entry op seq}"
    then consider i where "i < length ops" "x = op_entry (ops ! i) (seq + 1 + of_nat i)"
      | "x = op_entry op seq" by blast
    then show "x \<in> ?B"
    proof cases
      case 1
      then show ?thesis by (auto intro!: exI[of _ "Suc i"] simp: add_ac)
    next
      case 2
      then show ?thesis by (auto intro!: exI[of _ 0])
    qed
  next
    fix x assume "x \<in> ?B"
    then obtain i where "i < length (op # ops)" "x = op_entry ((op # ops) ! i) (seq + of_nat i)"
      by blast
    then show "x \<in> ?A \<union> {op_entry op seq}" by (cases i) (auto simp: add_ac)
  qed
  ultimately show ?case by auto
qed

lemma apply_all_size:
  "mt_size (MemTable_apply_all sm ops seq mt) = mt_size mt + of_nat (sum_list (map mem_cost ops))"
proof (induction ops arbitrary: seq mt)
  case Nil
  then show ?case by simp
next
  case (Cons op ops)
  have "mt_size (MemTable_apply sm op seq mt) = mt_size mt + of_nat (mem_cost op)"
    by (cases op) (simp_all add: MemTable_put_def MemTable_delete_def Let_def)
  with Cons show ?case by simp
qed

lemma apply_all_len:
  assumes "sorted_entries (MemTable_iter sm mt)"
    and "\<And>e. e \<in> set (MemTable_iter sm mt) \<Longrightarrow> sequence (fst e) < seq"
    and "unat seq + length ops < 2 ^ 64"
  shows "MemTable_len sm (MemTable_apply_all sm ops seq mt) = MemTable_len sm mt + length ops"
  using assms
proof (induction ops arbitrary: seq mt)
  case Nil
  then show ?case by simp
next
  case (Cons op ops)
  let ?mt = "MemTable_apply sm op seq mt"
  have "sequence (fst (op_entry op seq)) = seq" by (cases op) simp_all
  then have fresh: "fst (op_entry op seq) \<notin> fst ` set (MemTable_iter sm mt)"
    using Cons.prems(2) by fastforce
  have dist: "distinct (MemTable_iter sm mt)" "distinct (MemTable_iter sm ?mt)"
    using Cons.prems(1) iter_apply_sorted[OF Cons.prems(1)]
    by (metis sorted_entries_distinct distinct_map)+
  have "length (MemTable_iter sm ?mt) = card (insert (op_entry op seq) (set (MemTable_iter sm mt)))"
    using distinct_card[OF dist(2)] set_iter_apply[OF Cons.prems(1) fresh] by simp
  also have "\<dots> = Suc (length (MemTable_iter sm mt))"
    using fresh distinct_card[OF dist(1)] by (metis List.finite_set card_insert_disjoint image_eqI)
  finally have "MemTable_len sm ?mt = Suc (MemTable_len sm mt)"
    by (simp add: MemTable_len_def MemTable_iter_def len_iter)
  moreover have "unat (seq + 1) = unat seq + 1" using Cons.prems(3) by (simp add: unat_suc_u64)
  ultimately show ?case
    using Cons.prems apply_below by (simp add: Cons.IH iter_apply_sorted)
qed

end

section \<open>A reference instance: the sorted association list\<close>

fun sl_insert :: "InternalKey \<Rightarrow> bytes \<Rightarrow> entry list \<Rightarrow> entry list" where
  "sl_insert k v [] = [(k, v)]"
| "sl_insert k v (e # es) =
     (if k < fst e then (k, v) # e # es
      else if k = fst e then (k, v) # es else e # sl_insert k v es)"

definition sorted_list_map :: "entry list SkipMap" where
  "sorted_list_map =
     \<lparr>sm_new = [], sm_insert = sl_insert,
      sm_range = (\<lambda>lo hi es. filter (\<lambda>e. lo \<le> fst e \<and> fst e < hi) es),
      sm_iter = (\<lambda>es. es), sm_len = length, sm_is_empty = (\<lambda>es. es = [])\<rparr>"

lemma fst_set_sl_insert: "fst ` set (sl_insert k v es) = insert k (fst ` set es)"
  by (induction es) auto

lemma sl_insert_sorted: "sorted_entries es \<Longrightarrow> sorted_entries (sl_insert k v es)"
proof (induction es)
  case Nil
  then show ?case by (simp add: sorted_entries_def)
next
  case (Cons e es)
  then have "fst e < fst x" if "x \<in> set (sl_insert k v es)" "fst e < k" for x
    using that fst_set_sl_insert[of k v es] by (force simp: sorted_entries_Cons)
  with Cons show ?case by (force simp: sorted_entries_Cons)
qed

lemma sl_insert_map: "sorted_entries es \<Longrightarrow> map_of (sl_insert k v es) = (map_of es)(k \<mapsto> v)"
  by (induction es) (auto simp: sorted_entries_Cons)

interpretation sl: skip_map sorted_list_map
  by unfold_locales
    (simp_all add: sorted_list_map_def sl_insert_sorted sl_insert_map)

section \<open>Properties\<close>

text \<open>
  C21. The memtable keeps every version: after operations are applied to an empty memtable with
  the sequence numbers \<open>base, base + 1, \<dots>\<close> (\<open>base\<close> at least 1, no overflow), reading at
  \<open>base + n - 1\<close> returns what the first \<open>n\<close> operations leave in the store.
\<close>

theorem MemTable_mvcc:
  assumes "skip_map sm" and "0 < base" and "unat base + length ops < 2 ^ 64" and "n \<le> length ops"
  shows "MemTable_get sm (MemTable_apply_all sm ops base (MemTable_new sm base)) key
           (base + of_nat n - 1) = apply_ops (take n ops) Map.empty key"
proof -
  have base: "1 \<le> unat base" using assms(2) by (simp add: word_less_nat_alt)
  have "unat (base + of_nat n) = unat base + n"
    using assms(3,4) by (simp add: unat_word_ariths unat_of_nat)
  then have m: "unat (base + of_nat n - 1) = unat base + n - 1"
    using base by (subst unat_sub) (simp_all add: word_le_nat_alt)
  have empty: "MemTable_get sm (MemTable_new sm base) k m = None" for k m
    by (simp add: skip_map.get_eq_scan[OF assms(1)] skip_map.iter_new_MemTable[OF assms(1)])
  have "MemTable_get sm (MemTable_apply_all sm ops base (MemTable_new sm base)) key
      (base + of_nat n - 1) = apply_ops (take n ops) (\<lambda>k. None) key"
    using skip_map.get_apply_all[OF assms(1), of "MemTable_new sm base" base ops key] assms(3) m base
    by (simp add: skip_map.iter_new_MemTable[OF assms(1)] sorted_entries_def empty)
  then show ?thesis by simp
qed

theorem MemTable_mvcc_witness:
  "MemTable_get sorted_list_map
     (MemTable_apply_all sorted_list_map [Put [1] [10], Put [1] [20], Delete [1]] 1
        (MemTable_new sorted_list_map 1)) [1] (1 + of_nat 2 - 1) = Some [20]"
  using MemTable_mvcc[OF sl.skip_map_axioms, of 1 "[Put [1] [10], Put [1] [20], Delete [1]]" 2 "[1]"]
  by simp

text \<open>
  C34. The bookkeeping of a memtable: after operations are applied to an empty memtable with
  increasing sequence numbers, iteration yields one entry per operation in key order, \<^verbatim>\<open>len\<close>
  counts them, and the size estimate is the sum of the costs, modulo \<open>2 ^ 64\<close>.
\<close>

theorem MemTable_bookkeeping:
  assumes "skip_map sm" and "unat base + length ops < 2 ^ 64"
  shows "sorted_entries (MemTable_iter sm (MemTable_apply_all sm ops base (MemTable_new sm base)))
    \<and> set (MemTable_iter sm (MemTable_apply_all sm ops base (MemTable_new sm base))) =
        {op_entry (ops ! i) (base + of_nat i) |i. i < length ops}
    \<and> MemTable_len sm (MemTable_apply_all sm ops base (MemTable_new sm base)) = length ops
    \<and> MemTable_approximate_size (MemTable_apply_all sm ops base (MemTable_new sm base)) =
        of_nat (sum_list (map mem_cost ops))"
proof -
  note new = skip_map.iter_new_MemTable[OF assms(1), of base]
  have s: "sorted_entries (MemTable_iter sm (MemTable_new sm base))"
    by (simp add: new sorted_entries_def)
  have len: "MemTable_len sm (MemTable_new sm base) = 0"
    using skip_map.len_iter[OF assms(1)] new by (simp add: MemTable_len_def MemTable_iter_def)
  show ?thesis
    using skip_map.apply_all_sorted[OF assms(1) s] skip_map.apply_all_set[OF assms(1) s _ assms(2)]
      skip_map.apply_all_len[OF assms(1) s _ assms(2)] skip_map.apply_all_size[OF assms(1)] new len
    by (simp add: MemTable_approximate_size_def MemTable_new_def)
qed

theorem MemTable_bookkeeping_witness:
  "MemTable_len sorted_list_map
     (MemTable_apply_all sorted_list_map [Put [1] [10, 11], Delete [2]] 5 (MemTable_new sorted_list_map 5)) = 2 \<and>
   MemTable_approximate_size
     (MemTable_apply_all sorted_list_map [Put [1] [10, 11], Delete [2]] 5 (MemTable_new sorted_list_map 5)) = 36"
  using MemTable_bookkeeping[OF sl.skip_map_axioms, of 5 "[Put [1] [10, 11], Delete [2]]"] by simp

end
