(* ===== verification/WAL_Record.thy ===== *)
theory WAL_Record
  imports Errors
begin

text \<open>
  \<^verbatim>\<open>src/src/wal/record.rs\<close>: the record format of the write-ahead log and of the manifest. A
  record is a 7-byte header (CRC-32 of type and data, 16-bit length, type byte) followed by the
  data. The checksum of the \<^verbatim>\<open>crc32fast\<close> crate is a parameter \<open>crc\<close>: feeding a hasher with
  two pieces and finalizing gives the checksum of their concatenation. The lemmas are the round
  trip of the codec, what an accepted record looks like, and how a cut record is rejected.
\<close>

section \<open>Definitions\<close>

definition MAX_RECORD_SIZE :: nat where
  "MAX_RECORD_SIZE = 32 * 1024"

definition HEADER_SIZE :: nat where
  "HEADER_SIZE = 7"

datatype RecordType = Full | First | Middle | Last

fun RecordType_as_u8 :: "RecordType \<Rightarrow> u8" where
  "RecordType_as_u8 Full = 1"
| "RecordType_as_u8 First = 2"
| "RecordType_as_u8 Middle = 3"
| "RecordType_as_u8 Last = 4"

definition RecordType_from_u8 :: "u8 \<Rightarrow> RecordType res" where
  "RecordType_from_u8 v =
     (if v = 1 then Ok Full else if v = 2 then Ok First
      else if v = 3 then Ok Middle else if v = 4 then Ok Last
      else Err (Corruption (''Invalid record type: '' @ fmt_dec (unat v))))"

record Record =
  rec_type :: RecordType
  rec_data :: bytes

definition Record_new :: "RecordType \<Rightarrow> bytes \<Rightarrow> Record" where
  "Record_new t d = \<lparr>rec_type = t, rec_data = d\<rparr>"

definition calculate_checksum :: "(bytes \<Rightarrow> u32) \<Rightarrow> RecordType \<Rightarrow> bytes \<Rightarrow> u32" where
  "calculate_checksum crc t d = crc ([RecordType_as_u8 t] @ d)"

definition Record_encode :: "(bytes \<Rightarrow> u32) \<Rightarrow> Record \<Rightarrow> bytes" where
  "Record_encode crc r =
     (let buf = u32_le 0 @ u16_le (of_nat (length (rec_data r)))
                  @ [RecordType_as_u8 (rec_type r)] @ rec_data r;
          checksum = calculate_checksum crc (rec_type r) (rec_data r)
      in u32_le checksum @ drop 4 buf)"

definition Record_decode :: "(bytes \<Rightarrow> u32) \<Rightarrow> bytes \<Rightarrow> Record res" where
  "Record_decode crc bs =
     (if length bs < HEADER_SIZE
      then Err (Corruption (''Record too short: '' @ fmt_dec (length bs) @ '' bytes''))
      else
        let checksum = le_u32 (take 4 bs);
            len = unat (le_u16 (slice 4 6 bs))
        in bind_res (RecordType_from_u8 (bs ! 6)) (\<lambda>t.
          let rest = drop 7 bs in
          if length rest < len
          then Err (Corruption (''Incomplete record: expected '' @ fmt_dec len @ '' bytes, got ''
                      @ fmt_dec (length rest)))
          else
            let d = take len rest; expected = calculate_checksum crc t d in
            if checksum \<noteq> expected
            then Err (Corruption (''Checksum mismatch: expected '' @ fmt_hex (unat expected)
                        @ '', got '' @ fmt_hex (unat checksum)))
            else Ok (Record_new t d)))"

definition Record_encoded_size :: "Record \<Rightarrow> nat" where
  "Record_encoded_size r = HEADER_SIZE + length (rec_data r)"

section \<open>Lemmas\<close>

lemma RecordType_from_as [simp]: "RecordType_from_u8 (RecordType_as_u8 t) = Ok t"
  by (cases t) (simp_all add: RecordType_from_u8_def)

lemma RecordType_from_Ok: "RecordType_from_u8 v = Ok t \<Longrightarrow> v = RecordType_as_u8 t"
  by (auto simp: RecordType_from_u8_def split: if_splits)

lemma Record_new_simps [simp]:
  "rec_type (Record_new t d) = t" "rec_data (Record_new t d) = d"
  "Record_new (rec_type r) (rec_data r) = r"
  by (simp_all add: Record_new_def)

lemma Record_encode_eq:
  "Record_encode crc r =
     u32_le (calculate_checksum crc (rec_type r) (rec_data r)) @
     u16_le (of_nat (length (rec_data r))) @ [RecordType_as_u8 (rec_type r)] @ rec_data r"
  by (simp add: Record_encode_def Let_def)

lemma length_Record_encode [simp]: "length (Record_encode crc r) = Record_encoded_size r"
  by (simp add: Record_encode_eq Record_encoded_size_def HEADER_SIZE_def)

lemma header_parts:
  assumes "length h = 4" and "length l = 2"
  shows "take 4 (h @ l @ [t] @ d) = h" "slice 4 6 (h @ l @ [t] @ d) = l"
    "(h @ l @ [t] @ d) ! 6 = t" "drop 7 (h @ l @ [t] @ d) = d"
  using assms by (simp_all add: slice_def nth_append)

lemma bytes_split_header:
  assumes "7 \<le> length bs"
  shows "bs = take 4 bs @ slice 4 6 bs @ [bs ! 6] @ drop 7 bs"
proof -
  have "bs = take 4 bs @ drop 4 bs" by simp
  also have "drop 4 bs = slice 4 6 bs @ drop 6 bs"
    by (metis slice_def append_take_drop_id drop_drop add_diff_cancel_left' numeral_plus_numeral
        semiring_norm(2,3,4,5,6,7,8,9,10))
  also have "drop 6 bs = [bs ! 6] @ drop 7 bs"
    using assms Cons_nth_drop_Suc[of 6 bs] by simp
  finally show ?thesis .
qed

text \<open>The round trip, also with other bytes behind the record.\<close>

lemma Record_decode_encode [codec_simps]:
  assumes "length (rec_data r) < 65536"
  shows "Record_decode crc (Record_encode crc r @ rest) = Ok r"
proof -
  let ?h = "u32_le (calculate_checksum crc (rec_type r) (rec_data r))"
  let ?l = "u16_le (of_nat (length (rec_data r)))"
  have eq: "Record_encode crc r @ rest = ?h @ ?l @ [RecordType_as_u8 (rec_type r)] @ rec_data r @ rest"
    by (simp add: Record_encode_eq)
  have len: "unat (of_nat (length (rec_data r)) :: u16) = length (rec_data r)"
    using assms by (rule unat_of_nat_u16)
  show ?thesis
    unfolding Record_decode_def eq
    by (simp only: header_parts length_u_le) (simp add: len HEADER_SIZE_def Let_def)
qed

text \<open>An accepted byte string is an encoding, perhaps with bytes behind it.\<close>

lemma Record_decode_Ok:
  assumes "Record_decode crc bs = Ok r"
  shows "\<exists>rest. bs = Record_encode crc r @ rest \<and> length (rec_data r) < 65536"
proof -
  let ?len = "unat (le_u16 (slice 4 6 bs))"
  have long: "7 \<le> length bs"
    using assms by (auto simp: Record_decode_def HEADER_SIZE_def split: if_splits)
  obtain t where t: "RecordType_from_u8 (bs ! 6) = Ok t"
    and fits: "?len \<le> length (drop 7 bs)" and r: "r = Record_new t (take ?len (drop 7 bs))"
    and sum: "le_u32 (take 4 bs) = calculate_checksum crc t (take ?len (drop 7 bs))"
    using assms by (auto simp: Record_decode_def HEADER_SIZE_def Let_def not_less split: if_splits)
  have small: "?len < 65536" using unat_lt2p[of "le_u16 (slice 4 6 bs)"] by simp
  have "length (rec_data r) = ?len" using r fits by simp
  moreover have "u32_le (calculate_checksum crc t (rec_data r)) = take 4 bs"
    using sum r long by (simp add: u32_le_le_u32 flip: sum)
  moreover have "u16_le (of_nat ?len) = slice 4 6 bs"
    using long by (simp add: u16_le_le_u16)
  moreover have "drop 7 bs = rec_data r @ drop ?len (drop 7 bs)"
    using r by (simp del: drop_drop)
  ultimately have "bs = Record_encode crc r @ drop ?len (drop 7 bs)"
    using bytes_split_header[OF long] RecordType_from_Ok[OF t] r
    by (simp add: Record_encode_eq)
  with small \<open>length (rec_data r) = ?len\<close> show ?thesis by (metis (no_types))
qed

text \<open>Every error the decoder reports is a corruption; it never panics.\<close>

lemma Record_decode_cases:
  "(\<exists>r. Record_decode crc bs = Ok r) \<or> (\<exists>msg. Record_decode crc bs = Err (Corruption msg))"
  by (auto simp: Record_decode_def RecordType_from_u8_def Let_def)

end
