(* ===== verification/WAL_Log.thy ===== *)
theory WAL_Log
  imports WAL_Record Buf_Writer
begin

text \<open>
  \<^verbatim>\<open>src/src/wal/writer.rs\<close>, \<^verbatim>\<open>reader.rs\<close> and \<^verbatim>\<open>mod.rs\<close>: the writer that fragments
  entries into records of at most 32 KiB, the reader that reassembles them and the recovery loop.
  Opening a file is done by the caller: the writer gets the outcome of \<^verbatim>\<open>OpenOptions::open\<close>,
  the reader the bytes of the file. Reads fail only by reaching the end of the file. The
  specification of an append is \<open>entry_bytes\<close>, what it adds to the stream of the writer.
\<close>

section \<open>The writer\<close>

record WALWriter =
  ww_path :: string
  ww_writer :: BufWriter
  ww_file_size :: u64

definition WALWriter_new :: "string \<Rightarrow> wfile res \<Rightarrow> WALWriter res" where
  "WALWriter_new path opened =
     bind_res opened (\<lambda>f.
       Ok \<lparr>ww_path = path, ww_writer = BufWriter_new f, ww_file_size = of_nat (length (wf_data f))\<rparr>)"

definition fragment_type :: "nat \<Rightarrow> nat \<Rightarrow> nat \<Rightarrow> RecordType" where
  "fragment_type data_len offset chunk_size =
     (if data_len \<le> MAX_RECORD_SIZE then Full
      else if offset = 0 then First
      else if data_len \<le> offset + chunk_size then Last
      else Middle)"

function WALWriter_append_loop ::
  "(bytes \<Rightarrow> u32) \<Rightarrow> bytes \<Rightarrow> nat \<Rightarrow> WALWriter \<Rightarrow> unit res \<times> WALWriter" where
  "WALWriter_append_loop crc data offset w =
     (if offset < length data then
        let chunk_size = min (length data - offset) MAX_RECORD_SIZE;
            chunk = slice offset (offset + chunk_size) data;
            r = Record_new (fragment_type (length data) offset chunk_size) chunk;
            encoded = Record_encode crc r
        in bind_st (BufWriter_write_all encoded (ww_writer w))
             (\<lambda>_ bw. WALWriter_append_loop crc data (offset + chunk_size)
                (w\<lparr>ww_writer := bw, ww_file_size := ww_file_size w + of_nat (length encoded)\<rparr>))
             (\<lambda>bw. w\<lparr>ww_writer := bw\<rparr>)
      else (Ok (), w))"
  by pat_completeness auto
termination
  by (relation "measure (\<lambda>(crc, data, offset, w). length data - offset)")
     (auto simp: MAX_RECORD_SIZE_def)

declare WALWriter_append_loop.simps [simp del]

definition WALWriter_append :: "(bytes \<Rightarrow> u32) \<Rightarrow> bytes \<Rightarrow> WALWriter \<Rightarrow> unit res \<times> WALWriter" where
  "WALWriter_append crc data w =
     (if data = [] then (Ok (), w) else WALWriter_append_loop crc data 0 w)"

definition WALWriter_sync :: "WALWriter \<Rightarrow> unit res \<times> WALWriter" where
  "WALWriter_sync w =
     bind_st (BufWriter_flush (ww_writer w))
       (\<lambda>_ bw. case BufWriter_sync_all bw of (r, bw') \<Rightarrow> (r, w\<lparr>ww_writer := bw'\<rparr>))
       (\<lambda>bw. w\<lparr>ww_writer := bw\<rparr>)"

text \<open>Dropping the writer flushes it and ignores the outcome; the file is what is left.\<close>

definition WALWriter_drop :: "WALWriter \<Rightarrow> wfile" where
  "WALWriter_drop w = bw_file (snd (BufWriter_flush (ww_writer w)))"

definition WALWriter_close :: "WALWriter \<Rightarrow> unit res \<times> wfile" where
  "WALWriter_close w = (case WALWriter_sync w of (r, w') \<Rightarrow> (r, WALWriter_drop w'))"

section \<open>The reader\<close>

record WALReader =
  wr_data :: bytes
  wr_cursor :: nat
  wr_position :: u64

definition WALReader_new :: "bytes res \<Rightarrow> WALReader res" where
  "WALReader_new opened =
     bind_res opened (\<lambda>bs. Ok \<lparr>wr_data = bs, wr_cursor = 0, wr_position = 0\<rparr>)"

text \<open>\<^verbatim>\<open>read_exact\<close>: the next \<open>n\<close> bytes, or the end of the file.\<close>

definition WALReader_read_exact :: "nat \<Rightarrow> WALReader \<Rightarrow> bytes option \<times> WALReader" where
  "WALReader_read_exact n rd =
     (if wr_cursor rd + n \<le> length (wr_data rd)
      then (Some (slice (wr_cursor rd) (wr_cursor rd + n) (wr_data rd)),
            rd\<lparr>wr_cursor := wr_cursor rd + n\<rparr>)
      else (None, rd\<lparr>wr_cursor := max (wr_cursor rd) (length (wr_data rd))\<rparr>))"

definition WALReader_read_record ::
  "(bytes \<Rightarrow> u32) \<Rightarrow> WALReader \<Rightarrow> Record option res \<times> WALReader" where
  "WALReader_read_record crc rd =
     (case WALReader_read_exact HEADER_SIZE rd of
        (None, rd1) \<Rightarrow> (Ok None, rd1)
      | (Some header, rd1) \<Rightarrow>
          let len = unat (le_u16 [header ! 4, header ! 5]);
              total_size = HEADER_SIZE + len
          in case (if 0 < len then WALReader_read_exact len rd1 else (Some [], rd1)) of
               (None, rd2) \<Rightarrow> (Err eof_error, rd2)
             | (Some body, rd2) \<Rightarrow>
                 (bind_res (Record_decode crc (header @ body)) (\<lambda>r. Ok (Some r)),
                  rd2\<lparr>wr_position := wr_position rd2 + of_nat total_size\<rparr>))"

lemma read_record_progress:
  assumes "WALReader_read_record crc rd = (Ok (Some r), rd')"
  shows "wr_data rd' = wr_data rd \<and> wr_cursor rd < wr_cursor rd' \<and> wr_cursor rd' \<le> length (wr_data rd)"
  using assms
  by (auto simp: WALReader_read_record_def WALReader_read_exact_def HEADER_SIZE_def Let_def
      split: if_splits prod.splits option.splits)

function WALReader_read_next_loop ::
  "(bytes \<Rightarrow> u32) \<Rightarrow> WALReader \<Rightarrow> bytes \<Rightarrow> bool \<Rightarrow> bytes option res \<times> WALReader" where
  "WALReader_read_next_loop crc rd assembled expecting =
     (case WALReader_read_record crc rd of
        (Ok None, rd') \<Rightarrow>
          (if expecting then Err (Corruption ''EOF while expecting continuation record'') else Ok None, rd')
      | (Err e, rd') \<Rightarrow> (Err e, rd')
      | (Panic, rd') \<Rightarrow> (Panic, rd')
      | (Ok (Some r), rd') \<Rightarrow>
          (case rec_type r of
             Full \<Rightarrow>
               (if expecting
                then Err (Corruption ''Unexpected Full record while expecting continuation'')
                else Ok (Some (rec_data r)), rd')
           | First \<Rightarrow>
               (if expecting
                then (Err (Corruption ''Unexpected First record while expecting continuation''), rd')
                else WALReader_read_next_loop crc rd' (rec_data r) True)
           | Middle \<Rightarrow>
               (if \<not> expecting
                then (Err (Corruption ''Unexpected Middle record without First''), rd')
                else WALReader_read_next_loop crc rd' (assembled @ rec_data r) expecting)
           | Last \<Rightarrow>
               (if \<not> expecting
                then Err (Corruption ''Unexpected Last record without First'')
                else Ok (Some (assembled @ rec_data r)), rd')))"
  by pat_completeness auto
termination
  by (relation "measure (\<lambda>(crc, rd, assembled, expecting). length (wr_data rd) - wr_cursor rd)")
     (auto dest!: read_record_progress[OF sym])

declare WALReader_read_next_loop.simps [simp del]

definition WALReader_read_next :: "(bytes \<Rightarrow> u32) \<Rightarrow> WALReader \<Rightarrow> bytes option res \<times> WALReader" where
  "WALReader_read_next crc rd = WALReader_read_next_loop crc rd [] False"

definition WALReader_seek :: "u64 \<Rightarrow> WALReader \<Rightarrow> WALReader" where
  "WALReader_seek pos rd = rd\<lparr>wr_cursor := unat pos, wr_position := pos\<rparr>"

lemma read_next_loop_progress:
  assumes "WALReader_read_next_loop crc rd a x = (Ok (Some d), rd')"
  shows "wr_data rd' = wr_data rd \<and> wr_cursor rd < wr_cursor rd' \<and> wr_cursor rd' \<le> length (wr_data rd)"
  using assms
proof (induction crc rd a x rule: WALReader_read_next_loop.induct)
  case (1 crc rd a x)
  obtain q rd1 where q: "WALReader_read_record crc rd = (q, rd1)" by fastforce
  note ih = 1(1,2)[OF q[symmetric], OF _ refl]
  show ?case
  proof (cases "\<exists>r. q = Ok (Some r)")
    case True
    then obtain r where r: "q = Ok (Some r)" by blast
    note step = read_record_progress[OF q[unfolded r]]
    from 1(3) show ?thesis
      by (subst (asm) WALReader_read_next_loop.simps)
         (use step r in \<open>auto simp: q split: RecordType.splits if_splits dest: ih\<close>)
  next
    case False
    with 1(3) show ?thesis
      by (subst (asm) WALReader_read_next_loop.simps)
         (auto simp: q split: res.splits option.splits if_splits)
  qed
qed

function WALReader_recover_loop ::
  "(bytes \<Rightarrow> u32) \<Rightarrow> WALReader \<Rightarrow> bytes list \<Rightarrow> bytes list res \<times> WALReader" where
  "WALReader_recover_loop crc rd entries =
     (case WALReader_read_next crc rd of
        (Ok (Some d), rd') \<Rightarrow> WALReader_recover_loop crc rd' (entries @ [d])
      | (Ok None, rd') \<Rightarrow> (Ok entries, rd')
      | (Err (Corruption msg), rd') \<Rightarrow> (Ok entries, rd')
      | (Err e, rd') \<Rightarrow> (Err e, rd')
      | (Panic, rd') \<Rightarrow> (Panic, rd'))"
  by pat_completeness auto
termination
  by (relation "measure (\<lambda>(crc, rd, entries). length (wr_data rd) - wr_cursor rd)")
     (auto simp: WALReader_read_next_def dest!: read_next_loop_progress[OF sym])

declare WALReader_recover_loop.simps [simp del]

definition WALReader_recover_all :: "(bytes \<Rightarrow> u32) \<Rightarrow> WALReader \<Rightarrow> bytes list res \<times> WALReader" where
  "WALReader_recover_all crc rd = WALReader_recover_loop crc rd []"

section \<open>The manager and the file names\<close>

record WAL =
  wal_writer :: WALWriter

definition WAL_open :: "string \<Rightarrow> wfile res \<Rightarrow> WAL res" where
  "WAL_open path opened = bind_res (WALWriter_new path opened) (\<lambda>w. Ok \<lparr>wal_writer = w\<rparr>)"

definition WAL_append :: "(bytes \<Rightarrow> u32) \<Rightarrow> bytes \<Rightarrow> WAL \<Rightarrow> unit res \<times> WAL" where
  "WAL_append crc data wal =
     (case WALWriter_append crc data (wal_writer wal) of (r, w) \<Rightarrow> (r, \<lparr>wal_writer = w\<rparr>))"

definition WAL_sync :: "WAL \<Rightarrow> unit res \<times> WAL" where
  "WAL_sync wal = (case WALWriter_sync (wal_writer wal) of (r, w) \<Rightarrow> (r, \<lparr>wal_writer = w\<rparr>))"

definition WAL_size :: "WAL \<Rightarrow> u64" where
  "WAL_size wal = ww_file_size (wal_writer wal)"

definition WAL_path :: "WAL \<Rightarrow> string" where
  "WAL_path wal = ww_path (wal_writer wal)"

definition WAL_close :: "WAL \<Rightarrow> unit res \<times> wfile" where
  "WAL_close wal = WALWriter_close (wal_writer wal)"

definition WAL_recover :: "(bytes \<Rightarrow> u32) \<Rightarrow> bytes res \<Rightarrow> bytes list res" where
  "WAL_recover crc opened =
     bind_res (WALReader_new opened) (\<lambda>rd. fst (WALReader_recover_all crc rd))"

definition wal_filename :: "u64 \<Rightarrow> string" where
  "wal_filename sq = fmt_06 (unat sq) @ ''.log''"

definition parse_wal_filename :: "string \<Rightarrow> u64 option" where
  "parse_wal_filename filename =
     (if \<not> ends_with ''.log'' filename then None
      else parse_u64 (trim_end_matches ''.log'' filename))"

end
