(* ===== verification/WAL_Recovery.thy ===== *)
theory WAL_Recovery
  imports WAL_Log
begin

text \<open>
  What the write-ahead log promises. An append extends the stream of the writer by
  \<open>entry_bytes\<close> (or by a proper prefix of it when a write fails); recovery returns the appended
  entries in order; a log whose last entry is cut off recovers the complete entries before it
  unless the cut lies in the data part of a record, where recovery reports an I/O error.
  The interface \<open>entry_log\<close> states what the database and the version set rely on when they
  replay a log.
\<close>

section \<open>The specification of an append\<close>

function fragments :: "bytes \<Rightarrow> nat \<Rightarrow> Record list" where
  "fragments data offset =
     (if offset < length data then
        let chunk_size = min (length data - offset) MAX_RECORD_SIZE in
        Record_new (fragment_type (length data) offset chunk_size)
          (slice offset (offset + chunk_size) data) # fragments data (offset + chunk_size)
      else [])"
  by pat_completeness auto
termination
  by (relation "measure (\<lambda>(data, offset). length data - offset)") (auto simp: MAX_RECORD_SIZE_def)

declare fragments.simps [simp del]

definition records_bytes :: "(bytes \<Rightarrow> u32) \<Rightarrow> Record list \<Rightarrow> bytes" where
  "records_bytes crc rs = concat (map (Record_encode crc) rs)"

definition entry_bytes :: "(bytes \<Rightarrow> u32) \<Rightarrow> bytes \<Rightarrow> bytes" where
  "entry_bytes crc data = records_bytes crc (fragments data 0)"

lemma records_bytes_simps [simp]:
  "records_bytes crc [] = []"
  "records_bytes crc (r # rs) = Record_encode crc r @ records_bytes crc rs"
  by (simp_all add: records_bytes_def)

lemma fragments_step:
  "offset < length data \<Longrightarrow> fragments data offset =
     Record_new (fragment_type (length data) offset (min (length data - offset) MAX_RECORD_SIZE))
       (slice offset (offset + min (length data - offset) MAX_RECORD_SIZE) data) #
     fragments data (offset + min (length data - offset) MAX_RECORD_SIZE)"
  by (subst fragments.simps) (simp add: Let_def)

lemma fragments_end [simp]: "length data \<le> offset \<Longrightarrow> fragments data offset = []"
  by (subst fragments.simps) simp

lemma entry_bytes_Nil [simp]: "entry_bytes crc [] = []"
  by (simp add: entry_bytes_def)

definition ww_stream :: "WALWriter \<Rightarrow> bytes" where
  "ww_stream w = bw_stream (ww_writer w)"

text \<open>The size the writer reports is the length of its stream, modulo \<open>2 ^ 64\<close>.\<close>

definition ww_size_ok :: "WALWriter \<Rightarrow> bool" where
  "ww_size_ok w \<longleftrightarrow> ww_file_size w = of_nat (length (ww_stream w))"

lemma append_loop_cases:
  obtains (ok) w' where "WALWriter_append_loop crc data offset w = (Ok (), w')"
      "ww_stream w' = ww_stream w @ records_bytes crc (fragments data offset)"
      "ww_size_ok w \<Longrightarrow> ww_size_ok w'" "ww_path w' = ww_path w"
      "fault_free (ww_writer w) \<Longrightarrow> fault_free (ww_writer w')"
  | (err) e w' p where "WALWriter_append_loop crc data offset w = (Err (Io e), w')"
      "ww_stream w' = ww_stream w @ p"
      "strict_prefix p (records_bytes crc (fragments data offset))"
      "\<not> fault_free (ww_writer w)" "ww_path w' = ww_path w"
proof (induction crc data offset w arbitrary: thesis rule: WALWriter_append_loop.induct)
  case (1 crc data offset w)
  show ?case
  proof (cases "offset < length data")
    case False
    then show ?thesis using 1(2)[of w]
      by (simp add: WALWriter_append_loop.simps[of crc data offset w])
  next
    case True
    define cs where "cs = min (length data - offset) MAX_RECORD_SIZE"
    define r where "r = Record_new (fragment_type (length data) offset cs)
      (slice offset (offset + cs) data)"
    define upd where "upd bw = w\<lparr>ww_writer := bw,
      ww_file_size := ww_file_size w + of_nat (length (Record_encode crc r))\<rparr>" for bw
    have step: "WALWriter_append_loop crc data offset w =
        bind_st (BufWriter_write_all (Record_encode crc r) (ww_writer w))
          (\<lambda>_ bw. WALWriter_append_loop crc data (offset + cs) (upd bw)) (\<lambda>bw. w\<lparr>ww_writer := bw\<rparr>)"
      using True unfolding r_def cs_def upd_def
      by (subst WALWriter_append_loop.simps) (simp only: Let_def if_True)
    have frags: "fragments data offset = r # fragments data (offset + cs)"
      using fragments_step[OF True] by (simp only: r_def cs_def)
    note ih = 1(1)[OF True cs_def refl r_def refl, folded upd_def]
    show ?thesis
    proof (cases rule: BufWriter_write_all_stream[of "Record_encode crc r" "ww_writer w"])
      case wr: (ok bw)
      have st: "ww_stream (upd bw) = ww_stream w @ Record_encode crc r"
        using wr(2) by (simp add: upd_def ww_stream_def)
      have sz: "ww_size_ok w \<Longrightarrow> ww_size_ok (upd bw)"
        using st by (simp add: ww_size_ok_def) (simp add: upd_def)
      have simps: "ww_writer (upd bw) = bw" "ww_path (upd bw) = ww_path w"
        by (simp_all add: upd_def)
      have eq: "WALWriter_append_loop crc data offset w =
          WALWriter_append_loop crc data (offset + cs) (upd bw)"
        by (simp add: step wr(1))
      show ?thesis
      proof (rule ih[of bw])
        fix w' assume a: "WALWriter_append_loop crc data (offset + cs) (upd bw) = (Ok (), w')"
          "ww_stream w' = ww_stream (upd bw) @ records_bytes crc (fragments data (offset + cs))"
          "ww_size_ok (upd bw) \<Longrightarrow> ww_size_ok w'" "ww_path w' = ww_path (upd bw)"
          "fault_free (ww_writer (upd bw)) \<Longrightarrow> fault_free (ww_writer w')"
        show ?thesis
          by (rule 1(2)[of w']) (use a st sz simps wr(3) eq frags in simp_all)
      next
        fix e w' p assume a: "WALWriter_append_loop crc data (offset + cs) (upd bw) = (Err (Io e), w')"
          "ww_stream w' = ww_stream (upd bw) @ p"
          "strict_prefix p (records_bytes crc (fragments data (offset + cs)))"
          "\<not> fault_free (ww_writer (upd bw))" "ww_path w' = ww_path (upd bw)"
        show ?thesis
          by (rule 1(3)[of e w' "Record_encode crc r @ p"])
             (use a st simps wr(3) eq frags in \<open>auto simp: strict_prefix_def\<close>)
      qed
    next
      case wr: (err e bw p)
      show ?thesis
      proof (rule 1(3)[of e "w\<lparr>ww_writer := bw\<rparr>" p])
        show "strict_prefix p (records_bytes crc (fragments data offset))"
          using wr(3) by (simp add: frags prefix_order.less_le_trans)
      qed (use wr in \<open>simp_all add: step ww_stream_def\<close>)
    qed
  qed
qed

lemma append_cases:
  obtains (ok) w' where "WALWriter_append crc data w = (Ok (), w')"
      "ww_stream w' = ww_stream w @ entry_bytes crc data"
      "ww_size_ok w \<Longrightarrow> ww_size_ok w'" "ww_path w' = ww_path w"
      "fault_free (ww_writer w) \<Longrightarrow> fault_free (ww_writer w')"
  | (err) e w' p where "WALWriter_append crc data w = (Err (Io e), w')"
      "ww_stream w' = ww_stream w @ p" "strict_prefix p (entry_bytes crc data)"
      "\<not> fault_free (ww_writer w)" "ww_path w' = ww_path w"
proof (cases "data = []")
  case True
  then show ?thesis using ok[of w] by (simp add: WALWriter_append_def)
next
  case False
  then have eq: "WALWriter_append crc data w = WALWriter_append_loop crc data 0 w"
    by (simp add: WALWriter_append_def)
  show ?thesis
    by (rule append_loop_cases[of crc data 0 w]) (use ok err eq in \<open>simp_all add: entry_bytes_def\<close>)
qed

section \<open>Reading records\<close>

definition rd_rest :: "WALReader \<Rightarrow> bytes" where
  "rd_rest rd = drop (wr_cursor rd) (wr_data rd)"

lemma read_exact_rest:
  assumes "0 < n"
  shows "WALReader_read_exact n rd =
    (if n \<le> length (rd_rest rd) then (Some (take n (rd_rest rd)), rd\<lparr>wr_cursor := wr_cursor rd + n\<rparr>)
     else (None, rd\<lparr>wr_cursor := max (wr_cursor rd) (length (wr_data rd))\<rparr>))"
  using assms by (auto simp: WALReader_read_exact_def rd_rest_def slice_def)

lemma rd_rest_simps [simp]:
  "rd_rest (rd\<lparr>wr_cursor := wr_cursor rd + n\<rparr>) = drop n (rd_rest rd)"
  "rd_rest (rd\<lparr>wr_cursor := max (wr_cursor rd) (length (wr_data rd))\<rparr>) = []"
  "rd_rest (rd\<lparr>wr_position := p\<rparr>) = rd_rest rd"
  "rd_rest (rd\<lparr>wr_cursor := c, wr_position := p\<rparr>) = rd_rest (rd\<lparr>wr_cursor := c\<rparr>)"
  by (simp_all add: rd_rest_def add.commute)

lemma encode_split:
  obtains h b where "Record_encode crc r = h @ b" "length h = 7" "length b = length (rec_data r)"
    "[h ! 4, h ! 5] = u16_le (of_nat (length (rec_data r)))"
proof -
  let ?c = "u32_le (calculate_checksum crc (rec_type r) (rec_data r))"
  let ?l = "u16_le (of_nat (length (rec_data r))) :: bytes"
  have l: "?l = [?l ! 0, ?l ! 1]"
    by (rule nth_equalityI) (auto simp: less_2_cases_iff)
  have "[(?c @ ?l @ [RecordType_as_u8 (rec_type r)]) ! 4, (?c @ ?l @ [RecordType_as_u8 (rec_type r)]) ! 5]
      = [?l ! 0, ?l ! 1]"
    by (simp add: nth_append)
  also have "\<dots> = ?l" by (rule l[symmetric])
  finally have "[(?c @ ?l @ [RecordType_as_u8 (rec_type r)]) ! 4,
      (?c @ ?l @ [RecordType_as_u8 (rec_type r)]) ! 5] = ?l" .
  then show ?thesis
    by (intro that[of "?c @ ?l @ [RecordType_as_u8 (rec_type r)]" "rec_data r"])
       (simp_all add: Record_encode_eq)
qed

lemma read_record_whole:
  assumes rest: "rd_rest rd = Record_encode crc r @ rest" and small: "length (rec_data r) < 65536"
  obtains rd' where "WALReader_read_record crc rd = (Ok (Some r), rd')" "rd_rest rd' = rest"
proof -
  obtain h b where hb: "Record_encode crc r = h @ b" "length h = 7" "length b = length (rec_data r)"
    "[h ! 4, h ! 5] = u16_le (of_nat (length (rec_data r)))" by (rule encode_split)
  have dec: "Record_decode crc (h @ b) = Ok r"
    using Record_decode_encode[OF small, of crc "[]"] by (simp add: hb(1))
  have len: "unat (of_nat (length (rec_data r)) :: u16) = length b"
    using unat_of_nat_u16[OF small] hb(3) by simp
  show ?thesis
  proof (cases "b = []")
    case True
    then show ?thesis using rest hb dec len
      by (intro that, simp add: WALReader_read_record_def read_exact_rest HEADER_SIZE_def Let_def)
         simp
  next
    case False
    then have "rec_data r \<noteq> []" using hb(3) by auto
    with False show ?thesis using rest hb dec len
      by (intro that, simp add: WALReader_read_record_def read_exact_rest HEADER_SIZE_def Let_def)
         (simp add: add.assoc)
  qed
qed

lemma read_record_cut:
  assumes rest: "rd_rest rd = take n (Record_encode crc r)" and n: "n < Record_encoded_size r"
    and small: "length (rec_data r) < 65536"
  obtains rd' where
    "WALReader_read_record crc rd = (if n < HEADER_SIZE then Ok None else Err eof_error, rd')"
proof -
  obtain h b where hb: "Record_encode crc r = h @ b" "length h = 7" "length b = length (rec_data r)"
    "[h ! 4, h ! 5] = u16_le (of_nat (length (rec_data r)))" by (rule encode_split)
  have len: "unat (of_nat (length (rec_data r)) :: u16) = length b"
    using unat_of_nat_u16[OF small] hb(3) by simp
  show ?thesis
  proof (cases "n < 7")
    case True
    then show ?thesis using rest hb(1,2)
      by (intro that) (simp add: WALReader_read_record_def read_exact_rest HEADER_SIZE_def)
  next
    case False
    then have body: "rd_rest rd = h @ take (n - 7) b" using rest hb(1,2) by simp
    have short: "n - 7 < length b"
      using n False hb(3) by (simp add: Record_encoded_size_def HEADER_SIZE_def)
    have "length (take (n - 7) b) < length b" "0 < length b" using short by (simp, linarith)
    then show ?thesis using body False hb(2,4) len short
      by (intro that) (simp add: WALReader_read_record_def read_exact_rest HEADER_SIZE_def Let_def)
  qed
qed

section \<open>Reading entries\<close>

lemma slice_join: "a \<le> b \<Longrightarrow> take a xs @ slice a b xs = take b xs"
  by (metis slice_def le_add_diff_inverse take_add)

lemma chunk_small:
  "length (slice offset (offset + min (length data - offset) MAX_RECORD_SIZE) data) < 65536"
  by (simp add: slice_def MAX_RECORD_SIZE_def)

lemma read_next_loop_whole:
  assumes "MAX_RECORD_SIZE < length data" and "0 < offset" and "offset < length data"
    and "rd_rest rd = records_bytes crc (fragments data offset) @ rest"
  shows "\<exists>rd'. WALReader_read_next_loop crc rd (take offset data) True = (Ok (Some data), rd') \<and>
    rd_rest rd' = rest"
  using assms
proof (induction data offset arbitrary: rd rule: fragments.induct)
  case (1 data offset)
  define cs where "cs = min (length data - offset) MAX_RECORD_SIZE"
  let ?r = "Record_new (fragment_type (length data) offset cs) (slice offset (offset + cs) data)"
  have frags: "fragments data offset = ?r # fragments data (offset + cs)"
    using fragments_step[OF 1(4)] by (simp only: cs_def)
  obtain rd1 where rd1: "WALReader_read_record crc rd = (Ok (Some ?r), rd1)"
    "rd_rest rd1 = records_bytes crc (fragments data (offset + cs)) @ rest"
    using read_record_whole[of rd crc ?r "records_bytes crc (fragments data (offset + cs)) @ rest"]
      1(5) frags chunk_small[of offset data] by (auto simp: cs_def)
  have cs: "0 < cs" using 1(4) by (simp add: cs_def MAX_RECORD_SIZE_def)
  have join: "take offset data @ slice offset (offset + cs) data = take (offset + cs) data"
    by (simp add: slice_join)
  show ?case
  proof (cases "length data \<le> offset + cs")
    case True
    then have "fragment_type (length data) offset cs = Last" "take (offset + cs) data = data"
      using 1(2,3) by (simp_all add: fragment_type_def)
    with True rd1 join show ?thesis
      by (subst WALReader_read_next_loop.simps) simp
  next
    case False
    then have "fragment_type (length data) offset cs = Middle"
      using 1(2,3) by (simp add: fragment_type_def)
    moreover have "\<exists>rd'. WALReader_read_next_loop crc rd1 (take (offset + cs) data) True =
        (Ok (Some data), rd') \<and> rd_rest rd' = rest"
      by (rule 1(1)[OF 1(4) cs_def]) (use 1(2,3) False rd1(2) in auto)
    ultimately show ?thesis
      using rd1(1) join by (subst WALReader_read_next_loop.simps) simp
  qed
qed

lemma read_next_whole:
  assumes data: "data \<noteq> []" and rest: "rd_rest rd = entry_bytes crc data @ rest"
  obtains rd' where "WALReader_read_next crc rd = (Ok (Some data), rd')" "rd_rest rd' = rest"
proof -
  define cs where "cs = min (length data) MAX_RECORD_SIZE"
  let ?r = "Record_new (fragment_type (length data) 0 cs) (take cs data)"
  have "entry_bytes crc data = Record_encode crc ?r @ records_bytes crc (fragments data cs)"
    using data fragments_step[of 0 data] by (simp add: entry_bytes_def cs_def slice_zero)
  moreover have "length (rec_data ?r) < 65536" by (simp add: cs_def MAX_RECORD_SIZE_def)
  ultimately obtain rd1 where rd1: "WALReader_read_record crc rd = (Ok (Some ?r), rd1)"
    "rd_rest rd1 = records_bytes crc (fragments data cs) @ rest"
    using read_record_whole[of rd crc ?r] rest by auto
  show ?thesis
  proof (cases "length data \<le> MAX_RECORD_SIZE")
    case True
    then show ?thesis using rd1
      by (intro that[of rd1]) (simp_all add: WALReader_read_next_def cs_def fragment_type_def
          WALReader_read_next_loop.simps[of crc rd])
  next
    case False
    then have "MAX_RECORD_SIZE < length data" "0 < cs" "cs < length data"
      by (simp_all add: cs_def MAX_RECORD_SIZE_def)
    from read_next_loop_whole[OF this rd1(2)] obtain rd' where
      "WALReader_read_next_loop crc rd1 (take cs data) True = (Ok (Some data), rd')" "rd_rest rd' = rest"
      by blast
    then show ?thesis using False rd1
      by (intro that[of rd']) (simp_all add: WALReader_read_next_def fragment_type_def
          WALReader_read_next_loop.simps[of crc rd])
  qed
qed

section \<open>Reading a log whose end is missing\<close>

lemma fragments_sizes:
  assumes "offset < length data"
  defines "cs \<equiv> min (length data - offset) MAX_RECORD_SIZE"
  shows "records_bytes crc (fragments data offset) =
      Record_encode crc (Record_new (fragment_type (length data) offset cs) (slice offset (offset + cs) data))
      @ records_bytes crc (fragments data (offset + cs))"
    and "length (slice offset (offset + cs) data) = cs"
    and "records_bytes crc (fragments data (offset + cs)) \<noteq> [] \<Longrightarrow> cs = MAX_RECORD_SIZE"
proof -
  show "records_bytes crc (fragments data offset) =
      Record_encode crc (Record_new (fragment_type (length data) offset cs) (slice offset (offset + cs) data))
      @ records_bytes crc (fragments data (offset + cs))"
    using fragments_step[OF assms(1)] by (simp add: cs_def)
  show "length (slice offset (offset + cs) data) = cs" using assms by simp
  show "records_bytes crc (fragments data (offset + cs)) \<noteq> [] \<Longrightarrow> cs = MAX_RECORD_SIZE"
    by (rule ccontr) (auto simp: cs_def min_def split: if_splits)
qed

lemma read_next_loop_cut:
  assumes "MAX_RECORD_SIZE < length data" and "0 < offset" and "offset < length data"
    and "rd_rest rd = take n (records_bytes crc (fragments data offset))"
    and "n < length (records_bytes crc (fragments data offset))"
  shows "\<exists>rd'. WALReader_read_next_loop crc rd acc True =
    (if n mod (HEADER_SIZE + MAX_RECORD_SIZE) < HEADER_SIZE
     then Err (Corruption ''EOF while expecting continuation record'') else Err eof_error, rd')"
  using assms
proof (induction data offset arbitrary: rd n acc rule: fragments.induct)
  case (1 data offset)
  define cs where "cs = min (length data - offset) MAX_RECORD_SIZE"
  define r where "r = Record_new (fragment_type (length data) offset cs) (slice offset (offset + cs) data)"
  note parts = fragments_sizes[OF 1(4), folded cs_def, folded r_def]
  have size: "Record_encoded_size r = HEADER_SIZE + cs"
    using parts(2) by (simp add: Record_encoded_size_def r_def)
  have small: "length (rec_data r) < 65536"
    using chunk_small[of offset data] by (simp add: r_def cs_def)
  have cs: "cs \<le> MAX_RECORD_SIZE" by (simp add: cs_def)
  show ?case
  proof (cases "n < Record_encoded_size r")
    case True
    then have "rd_rest rd = take n (Record_encode crc r)" using 1(5) parts(1) by simp
    then obtain rd1 where
      rd1: "WALReader_read_record crc rd = (if n < HEADER_SIZE then Ok None else Err eof_error, rd1)"
      using read_record_cut True small by blast
    have "n mod (HEADER_SIZE + MAX_RECORD_SIZE) = n" using True size cs by simp
    with rd1 show ?thesis
      by (subst WALReader_read_next_loop.simps) (simp add: eof_error_def)
  next
    case False
    define m where "m = n - Record_encoded_size r"
    have rest: "rd_rest rd = Record_encode crc r @ take m (records_bytes crc (fragments data (offset + cs)))"
      using 1(5) False parts(1) by (simp add: m_def)
    have m: "m < length (records_bytes crc (fragments data (offset + cs)))"
      using 1(6) False parts(1) by (simp add: m_def)
    then have "records_bytes crc (fragments data (offset + cs)) \<noteq> []" by auto
    then have full: "cs = MAX_RECORD_SIZE" and more: "offset + cs < length data"
      using parts(3) by (auto intro: leI ccontr)
    have type: "rec_type r = Middle"
      using 1(2,3) more by (simp add: r_def fragment_type_def)
    obtain rd1 where rd1: "WALReader_read_record crc rd = (Ok (Some r), rd1)"
      "rd_rest rd1 = take m (records_bytes crc (fragments data (offset + cs)))"
      using read_record_whole[OF rest small] by blast
    have "n mod (HEADER_SIZE + MAX_RECORD_SIZE) = m mod (HEADER_SIZE + MAX_RECORD_SIZE)"
      using False size full unfolding m_def by (metis le_mod_geq not_less)
    moreover have "\<exists>rd'. WALReader_read_next_loop crc rd1 (acc @ rec_data r) True =
      (if m mod (HEADER_SIZE + MAX_RECORD_SIZE) < HEADER_SIZE
       then Err (Corruption ''EOF while expecting continuation record'') else Err eof_error, rd')"
      by (rule 1(1)[OF 1(4) cs_def]) (use 1(2,3) more m rd1(2) in auto)
    ultimately show ?thesis
      using rd1(1) type by (subst WALReader_read_next_loop.simps) simp
  qed
qed

lemma read_next_cut:
  assumes rest: "rd_rest rd = take n (entry_bytes crc data)" and n: "n < length (entry_bytes crc data)"
  obtains rd' where "WALReader_read_next crc rd =
    (if n < HEADER_SIZE then Ok None
     else if n mod (HEADER_SIZE + MAX_RECORD_SIZE) < HEADER_SIZE
     then Err (Corruption ''EOF while expecting continuation record'') else Err eof_error, rd')"
proof -
  have "data \<noteq> []" using n by auto
  then have pos: "0 < length data" by simp
  define cs where "cs = min (length data) MAX_RECORD_SIZE"
  define r where "r = Record_new (fragment_type (length data) 0 cs) (slice 0 cs data)"
  note parts = fragments_sizes[OF pos, unfolded diff_zero add_0 add_0_left,
      folded cs_def, folded r_def, folded entry_bytes_def]
  have size: "Record_encoded_size r = HEADER_SIZE + cs"
    using parts(2) by (simp add: Record_encoded_size_def r_def)
  have small: "length (rec_data r) < 65536"
    using chunk_small[of 0 data] by (simp add: r_def cs_def)
  have cs: "cs \<le> MAX_RECORD_SIZE" by (simp add: cs_def)
  show ?thesis
  proof (cases "n < Record_encoded_size r")
    case True
    then have "rd_rest rd = take n (Record_encode crc r)" using rest parts(1) by simp
    then obtain rd1 where
      rd1: "WALReader_read_record crc rd = (if n < HEADER_SIZE then Ok None else Err eof_error, rd1)"
      using read_record_cut True small by blast
    have "n mod (HEADER_SIZE + MAX_RECORD_SIZE) = n" using True size cs by simp
    with rd1 show ?thesis
      by (intro that[of rd1]) (simp add: WALReader_read_next_def WALReader_read_next_loop.simps[of crc rd]
          eof_error_def)
  next
    case False
    define m where "m = n - Record_encoded_size r"
    have rest1: "rd_rest rd = Record_encode crc r @ take m (records_bytes crc (fragments data cs))"
      using rest False parts(1) by (simp add: m_def)
    have m: "m < length (records_bytes crc (fragments data cs))"
      using n False parts(1) by (simp add: m_def)
    then have ne: "records_bytes crc (fragments data cs) \<noteq> []" by auto
    then have full: "cs = MAX_RECORD_SIZE" and more: "cs < length data"
      using parts(3) by (auto intro: leI ccontr)
    have type: "rec_type r = First"
      using full more by (simp add: r_def fragment_type_def)
    obtain rd1 where rd1: "WALReader_read_record crc rd = (Ok (Some r), rd1)"
      "rd_rest rd1 = take m (records_bytes crc (fragments data cs))"
      using read_record_whole[OF rest1 small] by blast
    have "n mod (HEADER_SIZE + MAX_RECORD_SIZE) = m mod (HEADER_SIZE + MAX_RECORD_SIZE)"
      using False size full unfolding m_def by (metis le_mod_geq not_less)
    moreover have "\<not> n < HEADER_SIZE" using False size by simp
    moreover obtain rd' where "WALReader_read_next_loop crc rd1 (rec_data r) True =
      (if m mod (HEADER_SIZE + MAX_RECORD_SIZE) < HEADER_SIZE
       then Err (Corruption ''EOF while expecting continuation record'') else Err eof_error, rd')"
      using read_next_loop_cut[of data cs rd1 m crc "rec_data r"] full more m rd1(2)
      by (auto simp: MAX_RECORD_SIZE_def)
    ultimately show ?thesis
      using rd1(1) type by (intro that[of rd'])
        (simp add: WALReader_read_next_def WALReader_read_next_loop.simps[of crc rd])
  qed
qed

section \<open>The recovery loop\<close>

lemma recover_loop_entries:
  assumes "rd_rest rd = concat (map (entry_bytes crc) es) @ tail"
  shows "\<exists>rd'. WALReader_recover_loop crc rd acc =
      WALReader_recover_loop crc rd' (acc @ filter (\<lambda>e. e \<noteq> []) es) \<and> rd_rest rd' = tail"
  using assms
proof (induction es arbitrary: rd acc)
  case Nil
  then show ?case by auto
next
  case (Cons e es)
  show ?case
  proof (cases "e = []")
    case True
    with Cons show ?thesis by simp
  next
    case False
    obtain rd1 where rd1: "WALReader_read_next crc rd = (Ok (Some e), rd1)"
      "rd_rest rd1 = concat (map (entry_bytes crc) es) @ tail"
      using read_next_whole[OF False, of rd crc] Cons.prems by auto
    with Cons.IH[OF rd1(2), of "acc @ [e]"] False show ?thesis
      by (subst WALReader_recover_loop.simps) simp
  qed
qed

lemma recover_loop_end:
  assumes "rd_rest rd = []"
  shows "fst (WALReader_recover_loop crc rd acc) = Ok acc"
  using assms
  by (subst WALReader_recover_loop.simps)
     (simp add: WALReader_read_next_def WALReader_read_next_loop.simps[of crc rd]
       WALReader_read_record_def read_exact_rest HEADER_SIZE_def)

lemma recover_whole:
  "WAL_recover crc (Ok (concat (map (entry_bytes crc) es))) = Ok (filter (\<lambda>e. e \<noteq> []) es)"
  using recover_loop_entries[of "\<lparr>wr_data = concat (map (entry_bytes crc) es), wr_cursor = 0, wr_position = 0\<rparr>"
      crc es "[]" "[]"] recover_loop_end
  by (auto simp: WAL_recover_def WALReader_new_def WALReader_recover_all_def rd_rest_def)

lemma recover_cut:
  assumes n: "n < length (entry_bytes crc e)"
  shows "WAL_recover crc (Ok (concat (map (entry_bytes crc) es) @ take n (entry_bytes crc e))) =
    (if n mod (HEADER_SIZE + MAX_RECORD_SIZE) < HEADER_SIZE then Ok (filter (\<lambda>e. e \<noteq> []) es)
     else Err eof_error)"
proof -
  let ?bs = "concat (map (entry_bytes crc) es) @ take n (entry_bytes crc e)"
  obtain rd1 where rd1: "WALReader_recover_loop crc \<lparr>wr_data = ?bs, wr_cursor = 0, wr_position = 0\<rparr> [] =
      WALReader_recover_loop crc rd1 (filter (\<lambda>e. e \<noteq> []) es)"
    and rest: "rd_rest rd1 = take n (entry_bytes crc e)"
    using recover_loop_entries[of "\<lparr>wr_data = ?bs, wr_cursor = 0, wr_position = 0\<rparr>" crc es _ "[]"]
    by (auto simp: rd_rest_def)
  obtain rd2 where "WALReader_read_next crc rd1 =
    (if n < HEADER_SIZE then Ok None
     else if n mod (HEADER_SIZE + MAX_RECORD_SIZE) < HEADER_SIZE
     then Err (Corruption ''EOF while expecting continuation record'') else Err eof_error, rd2)"
    using read_next_cut[OF rest n] by blast
  moreover have "n < HEADER_SIZE \<Longrightarrow> n mod (HEADER_SIZE + MAX_RECORD_SIZE) < HEADER_SIZE"
    by simp
  ultimately have "fst (WALReader_recover_loop crc rd1 (filter (\<lambda>e. e \<noteq> []) es)) =
    (if n mod (HEADER_SIZE + MAX_RECORD_SIZE) < HEADER_SIZE then Ok (filter (\<lambda>e. e \<noteq> []) es)
     else Err eof_error)"
    by (subst WALReader_recover_loop.simps) (simp add: eof_error_def)
  then show ?thesis
    using rd1 by (simp add: WAL_recover_def WALReader_new_def WALReader_recover_all_def)
qed

section \<open>The interface of a log\<close>

text \<open>
  What a client may rely on: \<open>entry\<close> is what an append adds to the stream, \<open>recover\<close> reads the
  stream back. The laws cover a complete log and one whose last entry is cut off. Inside, every
  prefix of a stream is shown to recover a prefix of the entries or to fail with the end-of-file
  error: an entry that was only partly written is never returned.
\<close>

lemma prefix_concat_split:
  assumes "prefix p (concat (map f es))"
  obtains (whole) "p = concat (map f es)"
  | (cut) k n where "k < length es" "n < length (f (es ! k))"
      "p = concat (map f (take k es)) @ take n (f (es ! k))"
  using assms
proof (induction es arbitrary: p thesis)
  case Nil
  then show ?case by simp
next
  case (Cons e es)
  show ?case
  proof (cases "length p < length (f e)")
    case True
    have "p = take (length p) (f e @ concat (map f es))"
      using Cons.prems(3) by (metis append_eq_conv_conj list.simps(9) concat.simps(2) prefix_def)
    then have "p = take (length p) (f e)" using True by simp
    with True show ?thesis using Cons.prems(2)[of 0 "length p"] by simp
  next
    case False
    have "prefix (f e) (concat (map f (e # es)))" by simp
    from prefix_length_prefix[OF this Cons.prems(3)] obtain q where "p = f e @ q"
      using False by (auto simp: prefix_def)
    with Cons.prems(3) have q: "p = f e @ q" "prefix q (concat (map f es))" by simp_all
    show ?thesis
    proof (rule Cons.IH[OF _ _ q(2)])
      assume "q = concat (map f es)"
      with q(1) show ?thesis using Cons.prems(1) by simp
    next
      fix k n assume "k < length es" "n < length (f (es ! k))"
        "q = concat (map f (take k es)) @ take n (f (es ! k))"
      with q(1) show ?thesis using Cons.prems(2)[of "Suc k" n] by simp
    qed
  qed
qed

locale entry_log =
  fixes entry :: "bytes \<Rightarrow> bytes" and recover :: "bytes \<Rightarrow> bytes list res"
  assumes recover_all: "recover (concat (map entry es)) = Ok (filter (\<lambda>e. e \<noteq> []) es)"
    and recover_torn: "n < length (entry e) \<Longrightarrow>
      recover (concat (map entry es) @ take n (entry e)) \<in> {Ok (filter (\<lambda>e. e \<noteq> []) es), Err eof_error}"
begin

lemma recover_prefix_after:
  assumes "prefix (concat (map entry es1)) p" and "prefix p (concat (map entry (es1 @ es2)))"
  shows "recover p = Err eof_error \<or> (\<exists>k \<le> length es2. recover p = Ok (filter (\<lambda>e. e \<noteq> []) (es1 @ take k es2)))"
proof -
  obtain q where q: "p = concat (map entry es1) @ q" using assms(1) by (auto simp: prefix_def)
  then have "prefix q (concat (map entry es2))" using assms(2) by simp
  then show ?thesis
  proof (cases rule: prefix_concat_split)
    case whole
    then have "recover p = Ok (filter (\<lambda>e. e \<noteq> []) (es1 @ es2))" using recover_all[of "es1 @ es2"] q by simp
    then show ?thesis by (intro disjI2 exI[of _ "length es2"]) simp
  next
    case (cut k n)
    then have "p = concat (map entry (es1 @ take k es2)) @ take n (entry (es2 ! k))" using q by simp
    then show ?thesis using recover_torn[OF cut(2), of "es1 @ take k es2"] cut(1) by (auto intro: exI[of _ k])
  qed
qed

lemma recover_prefix:
  assumes "prefix p (concat (map entry es))"
  shows "recover p = Err eof_error \<or> (\<exists>k \<le> length es. recover p = Ok (filter (\<lambda>e. e \<noteq> []) (take k es)))"
  using recover_prefix_after[of "[]" p es] assms by simp

end

interpretation wal: entry_log "entry_bytes crc" "\<lambda>bs. WAL_recover crc (Ok bs)" for crc
  by unfold_locales (simp_all add: recover_whole recover_cut)

section \<open>Sequences of appends\<close>

fun WALWriter_append_all :: "(bytes \<Rightarrow> u32) \<Rightarrow> bytes list \<Rightarrow> WALWriter \<Rightarrow> unit res \<times> WALWriter" where
  "WALWriter_append_all crc [] w = (Ok (), w)"
| "WALWriter_append_all crc (e # es) w =
     try_st (WALWriter_append crc e w) (\<lambda>_. WALWriter_append_all crc es)"

lemma append_all_cases:
  obtains (ok) w' where "WALWriter_append_all crc es w = (Ok (), w')"
      "ww_stream w' = ww_stream w @ concat (map (entry_bytes crc) es)"
      "ww_size_ok w \<Longrightarrow> ww_size_ok w'"
      "fault_free (ww_writer w) \<Longrightarrow> fault_free (ww_writer w')"
  | (err) e w' p where "WALWriter_append_all crc es w = (Err (Io e), w')"
      "ww_stream w' = ww_stream w @ p" "strict_prefix p (concat (map (entry_bytes crc) es))"
      "\<not> fault_free (ww_writer w)"
proof (induction es arbitrary: w thesis)
  case Nil
  then show ?case by simp
next
  case (Cons e es)
  show ?case
  proof (cases rule: append_cases[of crc e w])
    case one: (ok w1)
    show ?thesis
    proof (rule Cons.IH[of w1])
      fix w' assume "WALWriter_append_all crc es w1 = (Ok (), w')"
        "ww_stream w' = ww_stream w1 @ concat (map (entry_bytes crc) es)"
        "ww_size_ok w1 \<Longrightarrow> ww_size_ok w'" "fault_free (ww_writer w1) \<Longrightarrow> fault_free (ww_writer w')"
      then show ?thesis using one by (intro Cons.prems(1)[of w']) simp_all
    next
      fix x w' p assume "WALWriter_append_all crc es w1 = (Err (Io x), w')"
        "ww_stream w' = ww_stream w1 @ p" "strict_prefix p (concat (map (entry_bytes crc) es))"
        "\<not> fault_free (ww_writer w1)"
      then show ?thesis using one
        by (intro Cons.prems(2)[of x w' "entry_bytes crc e @ p"]) (auto simp: strict_prefix_def)
    qed
  next
    case one: (err x w' p)
    then show ?thesis
      by (intro Cons.prems(2)[of x w' p])
         (auto intro: prefix_order.less_le_trans[of p "entry_bytes crc e"])
  qed
qed

lemma sync_Ok:
  assumes "WALWriter_sync w = (Ok (), w')"
  shows "wf_synced (bw_file (ww_writer w')) = ww_stream w \<and> ww_stream w' = ww_stream w"
proof -
  obtain bw where fl: "BufWriter_flush_buf (ww_writer w) = (Ok (), bw)"
    and sy: "BufWriter_sync_all bw = (Ok (), ww_writer w')"
    using assms by (auto simp: WALWriter_sync_def BufWriter_flush_def bind_st_def split: prod.splits res.splits)
  have "bw_buf bw = []" "bw_stream bw = ww_stream w"
    using BufWriter_flush_buf_result[of "ww_writer w"] BufWriter_flush_buf_stream[of "ww_writer w"] fl
    by (auto simp: ww_stream_def)
  then show ?thesis
    using BufWriter_sync_all_Ok[OF sy] by (simp add: ww_stream_def bw_stream_def)
qed

text \<open>Whatever a file holds, reading it ends in entries or in the end-of-file error.\<close>

lemma read_record_outcomes:
  "fst (WALReader_read_record crc rd) \<in> range Ok \<union> {Err eof_error} \<union> range (\<lambda>msg. Err (Corruption msg))"
  using Record_decode_cases
  by (auto simp: WALReader_read_record_def Let_def split: prod.splits option.splits)
     (metis bind_res_simps(1,2) rangeI)+

lemma read_next_loop_outcomes:
  "fst (WALReader_read_next_loop crc rd acc x) \<in>
     range Ok \<union> {Err eof_error} \<union> range (\<lambda>msg. Err (Corruption msg))"
proof (induction crc rd acc x rule: WALReader_read_next_loop.induct)
  case (1 crc rd acc x)
  obtain q rd1 where q: "WALReader_read_record crc rd = (q, rd1)" by fastforce
  note ih = 1[OF q[symmetric], OF _ refl]
  from read_record_outcomes[of crc rd] consider r where "q = Ok r" | "q = Err eof_error"
    | msg where "q = Err (Corruption msg)" by (auto simp: q)
  then show ?case
  proof cases
    case (1 r)
    then show ?thesis
      using ih by (subst WALReader_read_next_loop.simps)
        (auto simp: q split: option.splits RecordType.splits)
  qed (subst WALReader_read_next_loop.simps, simp add: q)+
qed

lemma recover_loop_outcomes:
  "fst (WALReader_recover_loop crc rd acc) \<in> range Ok \<union> {Err eof_error}"
proof (induction crc rd acc rule: WALReader_recover_loop.induct)
  case (1 crc rd acc)
  obtain q rd1 where q: "WALReader_read_next crc rd = (q, rd1)" by fastforce
  from read_next_loop_outcomes[of crc rd "[]" False] consider "q = Ok None" | d where "q = Ok (Some d)"
    | "q = Err eof_error" | msg where "q = Err (Corruption msg)"
    using q by (auto simp: WALReader_read_next_def) (metis not_Some_eq)
  then show ?case
  proof cases
    case (2 d)
    with 1[OF q[symmetric] this refl] show ?thesis
      by (subst WALReader_recover_loop.simps) (simp add: q)
  qed (subst WALReader_recover_loop.simps, simp add: q eof_error_def)+
qed

section \<open>File names\<close>

lemma fmt_06_no_dot: "n < 2 ^ 64 \<Longrightarrow> CHR ''.'' \<notin> set (fmt_06 n)"
  by (rule parse_digits_chars[OF parse_digits_fmt_06])

lemma trim_end_matches_once:
  assumes "c \<in> set suf" and "c \<notin> set s"
  shows "trim_end_matches suf (s @ suf) = s"
proof -
  have "\<not> ends_with suf s" using assms ends_with_set by blast
  moreover have "suf \<noteq> []" using assms(1) by auto
  ultimately show ?thesis
    by (subst trim_end_matches.simps) (simp add: trim_end_matches.simps[of suf s])
qed

lemma parse_wal_filename_inverse: "parse_wal_filename (wal_filename sq) = Some sq"
proof -
  have "CHR ''.'' \<notin> set (fmt_06 (unat sq))" using fmt_06_no_dot unat_lt2p[of sq] by simp
  then have "trim_end_matches ''.log'' (fmt_06 (unat sq) @ ''.log'') = fmt_06 (unat sq)"
    by (intro trim_end_matches_once[of "CHR ''.''"]) simp_all
  then show ?thesis
    by (simp only: parse_wal_filename_def wal_filename_def ends_with_append parse_u64_fmt_06 not_True_eq_False
        if_False)
qed

section \<open>Properties\<close>

text \<open>
  C22. Crash safety of the log: whatever write failures occur while entries are appended to a new
  log, and whatever prefix of the bytes handed to the file survives a crash, recovery either
  returns the first \<open>k\<close> entries, for some \<open>k\<close>, in order and unchanged (empty entries are not
  stored) or reports the end of the file. It never returns a partly written entry.
\<close>

theorem WAL_crash_recovery:
  assumes "WALWriter_new path (Ok f) = Ok w" and "wf_data f = []"
    and "WALWriter_append_all crc es w = (r, w')" and "prefix p (wf_data (bw_file (ww_writer w')))"
  shows "WAL_recover crc (Ok p) = Err eof_error \<or>
    (\<exists>k \<le> length es. WAL_recover crc (Ok p) = Ok (filter (\<lambda>e. e \<noteq> []) (take k es)))"
proof -
  have "ww_stream w = []" using assms(1,2) by (auto simp: WALWriter_new_def ww_stream_def)
  then have "prefix (ww_stream w') (concat (map (entry_bytes crc) es))"
    using assms(3) by (cases rule: append_all_cases[of crc es w]) (auto simp: strict_prefix_def)
  then have "prefix p (concat (map (entry_bytes crc) es))"
    using assms(4) by (auto simp: ww_stream_def bw_stream_def prefix_def)
  then show ?thesis by (rule wal.recover_prefix)
qed

definition one_fault_file :: wfile where
  "one_fault_file = \<lparr>wf_data = [], wf_synced = [], wf_faults = [Some (3, IoError KOther ''disk full'')]\<rparr>"

theorem WAL_crash_recovery_witness:
  "\<exists>e r w'. length e = 9000 \<and>
     WALWriter_append_all (\<lambda>_. 0) [e]
       \<lparr>ww_path = ''000001.log'', ww_writer = BufWriter_new one_fault_file, ww_file_size = 0\<rparr> = (r, w') \<and>
     wf_data (bw_file (ww_writer w')) = [0, 0, 0] \<and>
     (WAL_recover (\<lambda>_. 0) (Ok [0, 0, 0]) = Err eof_error \<or>
      (\<exists>k \<le> 1. WAL_recover (\<lambda>_. 0) (Ok [0, 0, 0]) = Ok (filter (\<lambda>e. e \<noteq> []) (take k [e]))))"
proof -
  let ?w = "\<lparr>ww_path = ''000001.log'', ww_writer = BufWriter_new one_fault_file, ww_file_size = 0\<rparr>"
  obtain e :: bytes where e: "length e = 9000" by (metis length_replicate)
  obtain r w' where run: "WALWriter_append_all (\<lambda>_. 0) [e] ?w = (r, w')" by fastforce
  have chunk: "slice 0 9000 e = e" "e \<noteq> []" using e by (auto simp: slice_def)
  have z: "u32_le 0 = [0, 0, 0, 0]" by (simp add: u32_le_def le_bytes_zero eval_nat_numeral)
  have enc: "Record_encode (\<lambda>_. 0) (Record_new Full e) = [0, 0, 0, 0] @ u16_le 9000 @ [1] @ e"
    using e z by (simp add: Record_encode_eq calculate_checksum_def)
  let ?enc = "[0, 0, 0, 0] @ u16_le 9000 @ [1] @ e"
  obtain bw where wr: "BufWriter_write_all ?enc (BufWriter_new one_fault_file) =
      (Err (Io (IoError KOther ''disk full'')), bw)" "wf_data (bw_file bw) = [0, 0, 0]"
    using e by (simp add: BufWriter_write_all_def BufWriter_new_def buf_capacity_def
        BufWriter_flush_buf_def file_write_all_def next_fault_def one_fault_file_def)
  have "WALWriter_append (\<lambda>_. 0) e ?w = (Err (Io (IoError KOther ''disk full'')), ?w\<lparr>ww_writer := bw\<rparr>)"
    using e chunk enc wr(1)
    by (simp add: WALWriter_append_def WALWriter_append_loop.simps[of _ _ 0] MAX_RECORD_SIZE_def
        fragment_type_def Let_def)
  then have "wf_data (bw_file (ww_writer w')) = [0, 0, 0]" using run wr(2) by auto
  moreover have "WALWriter_new ''000001.log'' (Ok one_fault_file) = Ok ?w" "wf_data one_fault_file = []"
    by (simp_all add: WALWriter_new_def one_fault_file_def)
  ultimately show ?thesis
    using WAL_crash_recovery[OF _ _ run, of "''000001.log''" one_fault_file "[0, 0, 0]"] run e
    by (intro exI[of _ e] exI[of _ r] exI[of _ w']) simp
qed

text \<open>
  C23. Durability: when every append and the \<^verbatim>\<open>sync\<close> after them return \<^verbatim>\<open>Ok\<close>, the bytes
  known to be on disk recover to exactly the appended entries, and the size the log reports is
  the number of those bytes.
\<close>

theorem WAL_durability:
  assumes "WALWriter_new path (Ok f) = Ok w" and "wf_data f = []"
    and "WALWriter_append_all crc es w = (Ok (), w1)" and "WALWriter_sync w1 = (Ok (), w2)"
  shows "WAL_recover crc (Ok (wf_synced (bw_file (ww_writer w2)))) = Ok (filter (\<lambda>e. e \<noteq> []) es)
    \<and> ww_file_size w1 = of_nat (length (wf_synced (bw_file (ww_writer w2))))"
proof -
  have w: "ww_stream w = []" "ww_size_ok w"
    using assms(1,2) by (auto simp: WALWriter_new_def ww_stream_def ww_size_ok_def)
  from assms(3) have "ww_stream w1 = concat (map (entry_bytes crc) es)" "ww_size_ok w1"
    using w by (cases rule: append_all_cases[of crc es w]; auto)+
  then show ?thesis
    using sync_Ok[OF assms(4)] wal.recover_all[of crc es] by (simp add: ww_size_ok_def)
qed

theorem WAL_durability_witness:
  "\<exists>w1 w2. WALWriter_append_all (\<lambda>_. 0) [[1, 2], [], [3]]
       \<lparr>ww_path = ''a'', ww_writer = BufWriter_new (file_of []), ww_file_size = 0\<rparr> = (Ok (), w1) \<and>
     WALWriter_sync w1 = (Ok (), w2) \<and>
     WAL_recover (\<lambda>_. 0) (Ok (wf_synced (bw_file (ww_writer w2)))) = Ok [[1, 2], [3]]"
proof -
  let ?w = "\<lparr>ww_path = ''a'', ww_writer = BufWriter_new (file_of []), ww_file_size = 0\<rparr>"
  have ff: "fault_free (ww_writer ?w)" by (simp add: fault_free_def BufWriter_new_def file_of_def)
  obtain w1 where w1: "WALWriter_append_all (\<lambda>_. 0) [[1, 2], [], [3]] ?w = (Ok (), w1)"
    "fault_free (ww_writer w1)"
    using ff by (cases rule: append_all_cases[of "\<lambda>_. 0" "[[1, 2], [], [3]]" ?w]) auto
  obtain bw where bw: "BufWriter_flush (ww_writer w1) = (Ok (), bw)" "fault_free bw"
    using BufWriter_flush_ok[OF w1(2)] by blast
  then obtain w2 where w2: "WALWriter_sync w1 = (Ok (), w2)"
    using BufWriter_sync_all_ok[OF bw(2)] by (auto simp: WALWriter_sync_def)
  show ?thesis
    using WAL_durability[OF _ _ w1(1) w2, of "''a''" "file_of []"] w1(1) w2
    by (auto simp: WALWriter_new_def file_of_def)
qed

text \<open>
  C31. The exact outcome of recovery when the last entry of the log is cut after \<open>n\<close> bytes: the
  entries before it if the cut lies in (or just before) a record header, and an I/O error, not the
  entries recovered so far, if it lies in the data part of a record.
\<close>

theorem WAL_torn_tail:
  assumes "n < length (entry_bytes crc e)"
  shows "WAL_recover crc (Ok (concat (map (entry_bytes crc) es) @ take n (entry_bytes crc e))) =
    (if n mod (HEADER_SIZE + MAX_RECORD_SIZE) < HEADER_SIZE then Ok (filter (\<lambda>e. e \<noteq> []) es)
     else Err eof_error)"
  by (rule recover_cut[OF assms])

theorem WAL_torn_tail_witness:
  "WAL_recover (\<lambda>_. 0) (Ok (concat (map (entry_bytes (\<lambda>_. 0)) [[5]]) @
     take 8 (entry_bytes (\<lambda>_. 0) [6, 7]))) = Err eof_error"
proof -
  have "length (entry_bytes (\<lambda>_. 0) [6, 7]) = 9"
    by (simp add: entry_bytes_def fragments.simps[of _ 0] MAX_RECORD_SIZE_def Record_encoded_size_def
        HEADER_SIZE_def slice_def Let_def)
  then show ?thesis
    using WAL_torn_tail[of 8 "\<lambda>_. 0" "[6, 7]" "[[5]]"] by (simp add: HEADER_SIZE_def MAX_RECORD_SIZE_def)
qed

text \<open>
  C32. Recovery is total: on a file with arbitrary contents it returns entries or the end-of-file
  error, it does not panic and reports no other error.
\<close>

theorem WAL_recover_total:
  "WAL_recover crc (Ok bs) \<in> range Ok \<union> {Err eof_error}"
  using recover_loop_outcomes[of crc "\<lparr>wr_data = bs, wr_cursor = 0, wr_position = 0\<rparr>" "[]"]
  by (simp add: WAL_recover_def WALReader_new_def WALReader_recover_all_def)

text \<open>
  C33. The record codec: a byte string decodes to a record exactly when it starts with the
  encoding of that record and the record's data fits the 16-bit length field.
\<close>

theorem Record_decode_iff:
  "Record_decode crc bs = Ok r \<longleftrightarrow>
     (\<exists>rest. bs = Record_encode crc r @ rest) \<and> length (rec_data r) < 65536"
  using Record_decode_Ok[of crc bs r] Record_decode_encode[of r crc] by auto

end
