(* ===== verification/DB.thy ===== *)
theory DB
  imports Version MemTable WAL_Recovery
begin

text \<open>
  \<^verbatim>\<open>src/src/lib.rs\<close> and \<^verbatim>\<open>src/src/snapshot.rs\<close>: the database. Its state is the record \<open>DB\<close>
  with the fields of the source, the shared block cache, and the file system it works on. Every
  method is one atomic step: the locks and atomic counters of the source are the fields they
  protect. A result \<open>Panic\<close> also stands for a compaction that does not return.
  \<^verbatim>\<open>Arc::ptr_eq\<close> of two readers is equality: the readers of one level above 0 have different paths,
  and a compaction of level 0 takes all its readers.
\<close>

section \<open>Definitions\<close>

record 'm DB =
  db_path :: string
  db_options :: Options
  db_memtable :: "'m MemTable"
  db_immutable :: "'m MemTable list"
  db_wal :: WAL
  db_sstables :: "SSTableReader list list"
  db_sequence :: u64
  db_next_file_number :: u64
  db_wal_file_number :: u64
  db_version_set :: VersionSet
  db_picker :: CompactionPicker
  db_cache :: BlockCache
  db_fs :: fsys

subsection \<open>Log entries\<close>

text \<open>\<^verbatim>\<open>"put:key_len:key:value"\<close> and \<^verbatim>\<open>"del:key_len:key"\<close>\<close>

fun wal_entry :: "WriteOp \<Rightarrow> bytes" where
  "wal_entry (Put key v) = [112, 117, 116, 58] @ u32_le (of_nat (length key)) @ [58] @ key @ [58] @ v"
| "wal_entry (Delete key) = [100, 101, 108, 58] @ u32_le (of_nat (length key)) @ [58] @ key"

definition starts_with :: "bytes \<Rightarrow> bytes \<Rightarrow> bool" where
  "starts_with pre bs \<longleftrightarrow> take (length pre) bs = pre"

text \<open>The entry as recovery reads it; \<open>None\<close> for an entry that is skipped with a warning.\<close>

definition parse_wal_entry :: "bytes \<Rightarrow> WriteOp option" where
  "parse_wal_entry entry0 =
     (if starts_with [112, 117, 116, 58] entry0 then
        let entry = drop 4 entry0 in
        if length entry < 4 then None
        else
          let key_len = unat (le_u32 (take 4 entry));
              entry = drop 4 entry
          in if entry = [] \<or> entry ! 0 \<noteq> 58 then None
             else
               let entry = drop 1 entry in
               if length entry < key_len + 1 then None
               else
                 let key = take key_len entry;
                     entry = drop key_len entry
                 in if entry = [] \<or> entry ! 0 \<noteq> 58 then None
                    else Some (Put key (drop 1 entry))
      else if starts_with [100, 101, 108, 58] entry0 then
        let entry = drop 4 entry0 in
        if length entry < 4 then None
        else
          let key_len = unat (le_u32 (take 4 entry));
              entry = drop 4 entry
          in if entry = [] \<or> entry ! 0 \<noteq> 58 then None
             else
               let entry = drop 1 entry in
               if length entry < key_len then None
               else Some (Delete (take key_len entry))
      else None)"

text \<open>Every recovered entry takes a sequence number, also one that is skipped.\<close>

fun replay :: "'m SkipMap \<Rightarrow> bytes list \<Rightarrow> u64 \<Rightarrow> 'm MemTable \<Rightarrow> u64 \<times> 'm MemTable" where
  "replay sm [] seq mt = (seq, mt)"
| "replay sm (entry # es) seq mt =
     (let seq = seq + 1 in
      replay sm es seq (case parse_wal_entry entry of None \<Rightarrow> mt | Some op \<Rightarrow> MemTable_apply sm op seq mt))"

subsection \<open>Opening\<close>

text \<open>The scan for the log with the highest number, from 1 on; of equal numbers the last wins.\<close>

fun latest_wal :: "string list \<Rightarrow> u64 \<times> string \<Rightarrow> u64 \<times> string" where
  "latest_wal [] best = best"
| "latest_wal (path # paths) best =
     latest_wal paths
       (case Option.bind (path_file_name path) parse_wal_filename of
          Some num \<Rightarrow> if fst best \<le> num then (num, path) else best
        | None \<Rightarrow> best)"

fun load_tables :: "ext \<Rightarrow> string list \<Rightarrow> fsys \<Rightarrow> SSTableReader list res \<times> fsys" where
  "load_tables x [] fs = (Ok [], fs)"
| "load_tables x (path # paths) fs =
     (case fs_open_read path fs of
        (opened, fs) \<Rightarrow>
          (case SSTableReader_open_with_cache x path opened True of
             Ok rd \<Rightarrow> try_st (load_tables x paths fs) (\<lambda>rds fs. (Ok (rd # rds), fs))
           | Err e \<Rightarrow> load_tables x paths fs
           | Panic \<Rightarrow> (Panic, fs)))"

text \<open>A directory that cannot be listed counts as empty.\<close>

definition read_dir_or_empty :: "fsys \<Rightarrow> string list \<times> fsys" where
  "read_dir_or_empty fs = (case fs_read_dir fs of (Ok paths, fs) \<Rightarrow> (paths, fs) | (_, fs) \<Rightarrow> ([], fs))"

definition is_table_path :: "string \<Rightarrow> bool" where
  "is_table_path path = (case path_file_name path of Some n \<Rightarrow> ends_with ''.sst'' n | None \<Rightarrow> False)"

text \<open>\<^verbatim>\<open>{:?}\<close> of a path without characters that are escaped.\<close>

definition fmt_path :: "string \<Rightarrow> string" where
  "fmt_path path = [CHR 0x22] @ path @ [CHR 0x22]"

definition prepare_dir :: "string \<Rightarrow> Options \<Rightarrow> fsys \<Rightarrow> unit res \<times> fsys" where
  "prepare_dir path opts fs =
     (if \<not> fs_dir fs then
        if create_if_missing opts then fs_create_dir_all fs
        else (Err (NotFound (''Database directory does not exist: '' @ fmt_path path)), fs)
      else if error_if_exists opts then (Err (AlreadyExists (''Database already exists: '' @ fmt_path path)), fs)
      else (Ok (), fs))"

definition DB_open ::
  "ext \<Rightarrow> json \<Rightarrow> 'm SkipMap \<Rightarrow> string \<Rightarrow> Options \<Rightarrow> fsys \<Rightarrow> 'm DB res \<times> fsys" where
  "DB_open x js sm path opts fs0 =
     try_st (Options_validate opts, fs0) (\<lambda>_ fs.
     try_st (prepare_dir path opts fs) (\<lambda>_ fs.
     let (paths, fs) = read_dir_or_empty fs;
         (wal_number, wal_path) = latest_wal paths (1, path_join path (wal_filename 1))
     in case fs_open_write False wal_path fs of
       (opened, fs) \<Rightarrow>
     try_st (WAL_open wal_path opened, fs) (\<lambda>wal fs.
     try_st (if fs_exists wal_path fs \<and> 0 < WAL_size wal
             then (case fs_open_read wal_path fs of (bs, fs) \<Rightarrow> (WAL_recover (x_crc x) bs, fs))
             else (Ok [], fs)) (\<lambda>entries fs.
     let (seq, memtable) = replay sm entries 0 (MemTable_new sm (0 + 1));
         (paths, fs) = read_dir_or_empty fs
     in try_st (load_tables x (sort (filter is_table_path paths)) fs) (\<lambda>tables fs.
     if max_levels opts = 0 \<and> tables \<noteq> [] then (Panic, fs)
     else
       try_st (VersionSet_new js path (max_levels opts) fs) (\<lambda>vs fs.
         (Ok \<lparr>db_path = path, db_options = opts, db_memtable = memtable, db_immutable = [], db_wal = wal,
              db_sstables = (replicate (max_levels opts) [])[0 := tables], db_sequence = seq,
              db_next_file_number = 2, db_wal_file_number = wal_number, db_version_set = vs,
              db_picker = CompactionPicker_new (max_levels opts),
              db_cache = BlockCache_new (block_cache_size opts), db_fs = fs\<rparr>, fs)))))))"

subsection \<open>Writing\<close>

text \<open>The log and its file change together.\<close>

definition set_wal :: "WAL \<Rightarrow> 'm DB \<Rightarrow> 'm DB" where
  "set_wal wal db =
     db\<lparr>db_wal := wal,
        db_fs := fs_store (WAL_path wal) (wf_data (bw_file (ww_writer (wal_writer wal)))) (db_fs db)\<rparr>"

fun wal_append_all :: "ext \<Rightarrow> WriteOp list \<Rightarrow> 'm DB \<Rightarrow> unit res \<times> 'm DB" where
  "wal_append_all x [] db = (Ok (), db)"
| "wal_append_all x (op # ops) db =
     (case WAL_append (x_crc x) (wal_entry op) (db_wal db) of
        (r, wal) \<Rightarrow> try_st (r, set_wal wal db) (\<lambda>_. wal_append_all x ops))"

definition wal_sync :: "'m DB \<Rightarrow> unit res \<times> 'm DB" where
  "wal_sync db = (case WAL_sync (db_wal db) of (r, wal) \<Rightarrow> (r, set_wal wal db))"

text \<open>Step 2 of \<^verbatim>\<open>put\<close>, \<^verbatim>\<open>delete\<close> and \<^verbatim>\<open>write\<close>.\<close>

definition log_ops :: "ext \<Rightarrow> WriteOp list \<Rightarrow> 'm DB \<Rightarrow> unit res \<times> 'm DB" where
  "log_ops x ops db =
     (if use_wal (db_options db) then
        try_st (wal_append_all x ops db) (\<lambda>_ db.
          if sync_wal (db_options db) then wal_sync db else (Ok (), db))
      else (Ok (), db))"

definition freeze_memtable :: "'m SkipMap \<Rightarrow> 'm DB \<Rightarrow> unit res \<times> 'm DB" where
  "freeze_memtable sm db =
     (Ok (), db\<lparr>db_memtable := MemTable_new sm (db_sequence db + 1),
                db_immutable := db_immutable db @ [db_memtable db]\<rparr>)"

definition freeze_if_full :: "'m SkipMap \<Rightarrow> 'm DB \<Rightarrow> unit res \<times> 'm DB" where
  "freeze_if_full sm db =
     (if memtable_size (db_options db) \<le> unat (MemTable_approximate_size (db_memtable db))
      then freeze_memtable sm db else (Ok (), db))"

definition DB_put :: "ext \<Rightarrow> 'm SkipMap \<Rightarrow> bytes \<Rightarrow> bytes \<Rightarrow> 'm DB \<Rightarrow> unit res \<times> 'm DB" where
  "DB_put x sm key v db0 =
     (let seq = db_sequence db0 + 1 in
      try_st (log_ops x [Put key v] (db0\<lparr>db_sequence := seq\<rparr>)) (\<lambda>_ db.
        freeze_if_full sm (db\<lparr>db_memtable := MemTable_put sm key v seq (db_memtable db)\<rparr>)))"

definition DB_delete :: "ext \<Rightarrow> 'm SkipMap \<Rightarrow> bytes \<Rightarrow> 'm DB \<Rightarrow> unit res \<times> 'm DB" where
  "DB_delete x sm key db0 =
     (let seq = db_sequence db0 + 1 in
      try_st (log_ops x [Delete key] (db0\<lparr>db_sequence := seq\<rparr>)) (\<lambda>_ db.
        (Ok (), db\<lparr>db_memtable := MemTable_delete sm key seq (db_memtable db)\<rparr>)))"

definition DB_write :: "ext \<Rightarrow> 'm SkipMap \<Rightarrow> WriteBatch \<Rightarrow> 'm DB \<Rightarrow> unit res \<times> 'm DB" where
  "DB_write x sm batch db0 =
     (if WriteBatch_is_empty batch then (Ok (), db0)
      else
        let base_seq = db_sequence db0 + 1;
            ops = WriteBatch_iter batch
        in try_st (log_ops x ops (db0\<lparr>db_sequence := db_sequence db0 + of_nat (WriteBatch_len batch)\<rparr>)) (\<lambda>_ db.
             freeze_if_full sm (db\<lparr>db_memtable := MemTable_apply_all sm ops base_seq (db_memtable db)\<rparr>)))"

subsection \<open>Reading\<close>

fun search_memtables :: "'m SkipMap \<Rightarrow> bytes \<Rightarrow> u64 \<Rightarrow> 'm MemTable list \<Rightarrow> bytes option" where
  "search_memtables sm key max_seq [] = None"
| "search_memtables sm key max_seq (mt # mts) =
     (case MemTable_get sm mt key max_seq of
        Some v \<Rightarrow> Some v
      | None \<Rightarrow> search_memtables sm key max_seq mts)"

fun search_tables :: "ext \<Rightarrow> bytes \<Rightarrow> SSTableReader list \<Rightarrow> BlockCache \<Rightarrow> bytes option res \<times> BlockCache" where
  "search_tables x key [] cache = (Ok None, cache)"
| "search_tables x key (rd # rds) cache =
     try_st (SSTableReader_get x rd key cache) (\<lambda>r cache.
       case r of Some v \<Rightarrow> (Ok (Some v), cache) | None \<Rightarrow> search_tables x key rds cache)"

fun search_levels :: "ext \<Rightarrow> bytes \<Rightarrow> SSTableReader list list \<Rightarrow> BlockCache \<Rightarrow> bytes option res \<times> BlockCache" where
  "search_levels x key [] cache = (Ok None, cache)"
| "search_levels x key (level # levels) cache =
     try_st (search_tables x key (rev level) cache) (\<lambda>r cache.
       case r of Some v \<Rightarrow> (Ok (Some v), cache) | None \<Rightarrow> search_levels x key levels cache)"

definition DB_get_at_sequence ::
  "ext \<Rightarrow> 'm SkipMap \<Rightarrow> bytes \<Rightarrow> u64 \<Rightarrow> 'm DB \<Rightarrow> bytes option res \<times> 'm DB" where
  "DB_get_at_sequence x sm key max_seq db =
     (case MemTable_get sm (db_memtable db) key max_seq of
        Some v \<Rightarrow> (Ok (Some v), db)
      | None \<Rightarrow>
          (case search_memtables sm key max_seq (rev (db_immutable db)) of
             Some v \<Rightarrow> (Ok (Some v), db)
           | None \<Rightarrow>
               (case search_levels x key (db_sstables db) (db_cache db) of
                  (r, cache) \<Rightarrow> (r, db\<lparr>db_cache := cache\<rparr>))))"

definition DB_get :: "ext \<Rightarrow> 'm SkipMap \<Rightarrow> bytes \<Rightarrow> 'm DB \<Rightarrow> bytes option res \<times> 'm DB" where
  "DB_get x sm key db =
     (let max_seq = db_sequence db in DB_get_at_sequence x sm key max_seq db)"

text \<open>A snapshot refers to the database and remembers its sequence number.\<close>

record Snapshot =
  sn_sequence :: u64

definition DB_snapshot :: "'m DB \<Rightarrow> Snapshot" where
  "DB_snapshot db = \<lparr>sn_sequence = db_sequence db\<rparr>"

definition Snapshot_get :: "ext \<Rightarrow> 'm SkipMap \<Rightarrow> Snapshot \<Rightarrow> bytes \<Rightarrow> 'm DB \<Rightarrow> bytes option res \<times> 'm DB" where
  "Snapshot_get x sm sn key db = DB_get_at_sequence x sm key (sn_sequence sn) db"

subsection \<open>Flushing\<close>

text \<open>Of the versions of a key, which are adjacent and newest first, only the first is written.\<close>

fun flush_loop :: "ext \<Rightarrow> entry list \<Rightarrow> bytes option \<Rightarrow> nat \<Rightarrow> SSTableBuilder \<Rightarrow> nat res \<times> SSTableBuilder" where
  "flush_loop x [] last_user_key entry_count sb = (Ok entry_count, sb)"
| "flush_loop x ((k, v) # es) last_user_key entry_count sb =
     (if last_user_key = Some (user_key k) then flush_loop x es last_user_key entry_count sb
      else try_st (SSTableBuilder_add x (user_key k) v sb) (\<lambda>_.
             flush_loop x es (Some (user_key k)) (entry_count + 1)))"

text \<open>The file of a finished, abandoned or dropped builder.\<close>

definition set_file :: "string \<Rightarrow> wfile \<Rightarrow> 'm DB \<Rightarrow> 'm DB" where
  "set_file path f db = db\<lparr>db_fs := fs_store path (wf_data f) (db_fs db)\<rparr>"

definition fs_do :: "(fsys \<Rightarrow> 'a res \<times> fsys) \<Rightarrow> 'm DB \<Rightarrow> 'a res \<times> 'm DB" where
  "fs_do act db = (case act (db_fs db) of (r, fs) \<Rightarrow> (r, db\<lparr>db_fs := fs\<rparr>))"

definition remove_if_exists :: "string \<Rightarrow> 'm DB \<Rightarrow> unit res \<times> 'm DB" where
  "remove_if_exists path db =
     (if fs_exists path (db_fs db) then fs_do (fs_remove_file path) db else (Ok (), db))"

definition open_table :: "ext \<Rightarrow> string \<Rightarrow> 'm DB \<Rightarrow> SSTableReader res \<times> 'm DB" where
  "open_table x path db =
     (case fs_do (fs_open_read path) db of
        (opened, db) \<Rightarrow> (SSTableReader_open_with_cache x path opened True, db))"

text \<open>\<^verbatim>\<open>sstables[0].insert(0, reader)\<close>\<close>

definition add_level0 :: "SSTableReader \<Rightarrow> 'm DB \<Rightarrow> unit res \<times> 'm DB" where
  "add_level0 rd db =
     (case db_sstables db of
        [] \<Rightarrow> (Panic, db)
      | l0 # ls \<Rightarrow> (Ok (), db\<lparr>db_sstables := (rd # l0) # ls\<rparr>))"

definition flush_memtable_to_sstable ::
  "ext \<Rightarrow> 'm SkipMap \<Rightarrow> 'm MemTable \<Rightarrow> 'm DB \<Rightarrow> u64 res \<times> 'm DB" where
  "flush_memtable_to_sstable x sm mt db0 =
     (let num = db_next_file_number db0;
          path = path_join (db_path db0) (sst_file_name num);
          db = db0\<lparr>db_next_file_number := num + 1\<rparr>
      in case fs_do (fs_open_write True path) db of
        (created, db) \<Rightarrow>
      try_st (SSTableBuilder_new created, db) (\<lambda>sb0 db.
      let sb1 = SSTableBuilder_set_compression (compression (db_options db))
                  (SSTableBuilder_set_block_size (block_size (db_options db)) sb0)
      in case flush_loop x (MemTable_iter sm mt) None 0 sb1 of
        (Err e, sb) \<Rightarrow> (Err e, set_file path (drop_builder sb) db)
      | (Panic, sb) \<Rightarrow> (Panic, set_file path (drop_builder sb) db)
      | (Ok entry_count, sb) \<Rightarrow>
          if entry_count = 0 then
            (case SSTableBuilder_abandon sb of
               (abandoned, f) \<Rightarrow>
                 try_st (abandoned, set_file path f db) (\<lambda>_ db.
                 try_st (remove_if_exists path db) (\<lambda>_ db. (Ok 0, db))))
          else
            (case SSTableBuilder_finish x sb of
               (finished, f) \<Rightarrow>
                 try_st (finished, set_file path f db) (\<lambda>file_size db.
                 try_st (open_table x path db) (\<lambda>rd db.
                 try_st (add_level0 rd db) (\<lambda>_ db. (Ok num, db)))))))"

text \<open>The loop of \<^verbatim>\<open>flush\<close>: the oldest frozen memtable is removed from the list, then written.\<close>

fun flush_immutables :: "ext \<Rightarrow> 'm SkipMap \<Rightarrow> 'm MemTable list \<Rightarrow> 'm DB \<Rightarrow> unit res \<times> 'm DB" where
  "flush_immutables x sm [] db = (Ok (), db)"
| "flush_immutables x sm (mt # mts) db =
     try_st (flush_memtable_to_sstable x sm mt (db\<lparr>db_immutable := mts\<rparr>)) (\<lambda>_. flush_immutables x sm mts)"

definition rotate_wal :: "'m DB \<Rightarrow> unit res \<times> 'm DB" where
  "rotate_wal db0 =
     (let new_wal_number = db_wal_file_number db0 + 1;
          new_wal_path = path_join (db_path db0) (wal_filename new_wal_number);
          db = db0\<lparr>db_wal_file_number := new_wal_number\<rparr>
      in case fs_do (fs_open_write False new_wal_path) db of
        (opened, db) \<Rightarrow>
      try_st (WAL_open new_wal_path opened, db) (\<lambda>new_wal db.
        let old_wal = db_wal db;
            old_path = WAL_path old_wal;
            db = set_file old_path (WALWriter_drop (wal_writer old_wal)) (db\<lparr>db_wal := new_wal\<rparr>)
        in remove_if_exists old_path db))"

subsection \<open>Compaction\<close>

definition log_version_edit :: "json \<Rightarrow> VersionEdit \<Rightarrow> 'm DB \<Rightarrow> unit res \<times> 'm DB" where
  "log_version_edit js edit db =
     (case VersionSet_log_edit js edit (db_version_set db) of
        (r, vs) \<Rightarrow>
          (r, db\<lparr>db_version_set := vs,
                 db_fs := (case vs_manifest_file vs of
                             None \<Rightarrow> db_fs db
                           | Some f \<Rightarrow> fs_store (vs_manifest_path vs) (wf_data f) (db_fs db))\<rparr>))"

fun log_version_edits :: "json \<Rightarrow> VersionEdit list \<Rightarrow> 'm DB \<Rightarrow> unit res \<times> 'm DB" where
  "log_version_edits js [] db = (Ok (), db)"
| "log_version_edits js (e # es) db = try_st (log_version_edit js e db) (\<lambda>_. log_version_edits js es)"

fun remove_files :: "string list \<Rightarrow> 'm DB \<Rightarrow> unit res \<times> 'm DB" where
  "remove_files [] db = (Ok (), db)"
| "remove_files (p # ps) db = try_st (remove_if_exists p db) (\<lambda>_. remove_files ps)"

text \<open>The number of a reader as \<^verbatim>\<open>file_number()\<close> parses it again from its path.\<close>

fun input_infos :: "SSTableReader list \<Rightarrow> (u64 \<times> string) list res" where
  "input_infos [] = Ok []"
| "input_infos (rd # rds) =
     (case SSTableReader_file_number rd of
        None \<Rightarrow> Err (Internal (''Input SSTable has invalid filename: '' @ fmt_path (sr_path rd)))
      | Some n \<Rightarrow> bind_res (input_infos rds) (\<lambda>infos. Ok ((n, sr_path rd) # infos)))"

text \<open>Replacing the inputs by the new reader in the list of levels.\<close>

definition install_output :: "CompactionTask \<Rightarrow> SSTableReader \<Rightarrow> 'm DB \<Rightarrow> unit res \<times> 'm DB" where
  "install_output task rd db =
     (if length (db_sstables db) \<le> ct_level task then (Panic, db)
      else
        let levels = (db_sstables db)[ct_level task :=
              filter (\<lambda>r. r \<notin> set (ct_inputs task)) (db_sstables db ! ct_level task)];
            db = db\<lparr>db_sstables := levels\<rparr>
        in if length levels \<le> ct_output_level task then (Panic, db)
           else if ct_output_level task = 0
           then (Ok (), db\<lparr>db_sstables := levels[0 := rd # levels ! 0]\<rparr>)
           else (Ok (), db\<lparr>db_sstables := levels[ct_output_level task := levels ! ct_output_level task @ [rd]]\<rparr>))"

definition read_smallest_key :: "ext \<Rightarrow> SSTableReader \<Rightarrow> 'm DB \<Rightarrow> bytes res \<times> 'm DB" where
  "read_smallest_key x rd db =
     (case SSTableReader_smallest_key x rd (db_cache db) of
        (r, cache) \<Rightarrow>
          (bind_res r (\<lambda>k. case k of None \<Rightarrow> Err (Internal ''New SSTable has no keys'') | Some key \<Rightarrow> Ok key),
           db\<lparr>db_cache := cache\<rparr>))"

definition compact :: "ext \<Rightarrow> json \<Rightarrow> CompactionTask \<Rightarrow> 'm DB \<Rightarrow> unit res \<times> 'm DB" where
  "compact x js task db0 =
     (let num = db_next_file_number db0;
          db = db0\<lparr>db_next_file_number := num + 1\<rparr>;
          job = CompactionJob_new (ct_inputs task) (ct_output_level task) (db_path db) (block_size (db_options db))
      in case CompactionJob_run x num job (db_fs db) of
        None \<Rightarrow> (Panic, db)
      | Some (r, fs) \<Rightarrow>
      try_st (r, db\<lparr>db_fs := fs\<rparr>) (\<lambda>result db.
        if cr_file_number result = 0 then (Ok (), db)
        else
          try_st (open_table x (cr_output_path result) db) (\<lambda>rd db.
          try_st (read_smallest_key x rd db) (\<lambda>smallest db.
          try_st (bind_res (SSTableReader_largest_key rd)
                    (\<lambda>k. case k of None \<Rightarrow> Err (Internal ''New SSTable has no keys'') | Some key \<Rightarrow> Ok key), db)
            (\<lambda>largest db.
          try_st (input_infos (ct_inputs task), db) (\<lambda>infos db.
          try_st (log_version_edits js
                    (AddFile (ct_output_level task) (cr_file_number result) (sr_file_size rd) smallest largest #
                     map (\<lambda>(n, _). DeleteFile (ct_level task) n) infos) db) (\<lambda>_ db.
          try_st (install_output task rd db) (\<lambda>_ db.
            remove_files (map snd infos) db))))))))"

definition maybe_trigger_compaction :: "ext \<Rightarrow> json \<Rightarrow> 'm DB \<Rightarrow> unit res \<times> 'm DB" where
  "maybe_trigger_compaction x js db =
     try_st (pick_compaction (db_picker db) (db_sstables db), db) (\<lambda>task db.
       case task of None \<Rightarrow> (Ok (), db) | Some t \<Rightarrow> compact x js t db)"

subsection \<open>Flush, close, drop\<close>

definition DB_flush :: "ext \<Rightarrow> json \<Rightarrow> 'm SkipMap \<Rightarrow> 'm DB \<Rightarrow> unit res \<times> 'm DB" where
  "DB_flush x js sm db0 =
     try_st (if MemTable_is_empty sm (db_memtable db0) then (Ok (), db0) else freeze_memtable sm db0) (\<lambda>_ db.
     try_st (flush_immutables x sm (db_immutable db) db) (\<lambda>_ db.
     try_st (rotate_wal db) (\<lambda>_ db.
       maybe_trigger_compaction x js db)))"

definition DB_close :: "ext \<Rightarrow> json \<Rightarrow> 'm SkipMap \<Rightarrow> 'm DB \<Rightarrow> unit res \<times> 'm DB" where
  "DB_close x js sm db0 =
     try_st (DB_flush x js sm db0) (\<lambda>_ db.
       if use_wal (db_options db) then wal_sync db else (Ok (), db))"

text \<open>Dropping the database: errors are only printed. What is left is the file system.\<close>

definition DB_drop :: "ext \<Rightarrow> json \<Rightarrow> 'm SkipMap \<Rightarrow> 'm DB \<Rightarrow> fsys" where
  "DB_drop x js sm db0 =
     (let db1 = snd (DB_flush x js sm db0);
          db2 = (if use_wal (db_options db1) then snd (wal_sync db1) else db1)
      in db_fs (set_file (WAL_path (db_wal db2)) (WALWriter_drop (wal_writer (db_wal db2))) db2))"

definition DB_cache_stats :: "'m DB \<Rightarrow> CacheStats" where
  "DB_cache_stats db = bc_stats (db_cache db)"

definition DB_clear_cache :: "'m DB \<Rightarrow> 'm DB" where
  "DB_clear_cache db = db\<lparr>db_cache := BlockCache_clear (db_cache db)\<rparr>"

definition DB_reset_cache_stats :: "'m DB \<Rightarrow> 'm DB" where
  "DB_reset_cache_stats db = db\<lparr>db_cache := BlockCache_reset_stats (db_cache db)\<rparr>"

end
