(* ===== verification/LSM.thy ===== *)
theory LSM
  imports DB
begin

text \<open>
  The abstract log-structured store. A memtable is the list of operations since its creation, a table
  the list of its entries; reading takes the first layer that has a value: the memtable, the frozen
  memtables from the newest on, then the levels with their tables from the last to the first. The
  lemmas relate memtables and table lists of the database to it.
\<close>

section \<open>Specification\<close>

record lsm =
  l_mem :: "WriteOp list"
  l_imm :: "WriteOp list list"
  l_tables :: "kv list list list"

fun first_some :: "'a option list \<Rightarrow> 'a option" where
  "first_some [] = None"
| "first_some (r # rs) = (case r of Some v \<Rightarrow> Some v | None \<Rightarrow> first_some rs)"

definition mem_lookup :: "WriteOp list \<Rightarrow> bytes \<Rightarrow> bytes option" where
  "mem_lookup ops key = apply_ops ops Map.empty key"

definition lsm_get :: "lsm \<Rightarrow> bytes \<Rightarrow> bytes option" where
  "lsm_get a key = first_some (map (\<lambda>ops. mem_lookup ops key) (l_mem a # rev (l_imm a)) @
     map (\<lambda>es. sst_lookup es key) (concat (map rev (l_tables a))))"

definition lsm_append :: "WriteOp list \<Rightarrow> lsm \<Rightarrow> lsm" where
  "lsm_append ops a = a\<lparr>l_mem := l_mem a @ ops\<rparr>"

definition lsm_freeze :: "lsm \<Rightarrow> lsm" where
  "lsm_freeze a = a\<lparr>l_mem := [], l_imm := l_imm a @ [l_mem a]\<rparr>"

text \<open>The table of a flushed memtable: the last operation of each key, a deletion as an empty value.\<close>

fun as_tombstone :: "WriteOp \<Rightarrow> WriteOp" where
  "as_tombstone (Put k v) = Put k v"
| "as_tombstone (Delete k) = Put k []"

definition flush_entries :: "WriteOp list \<Rightarrow> kv list" where
  "flush_entries ops =
     map (\<lambda>k. (k, the (apply_ops (map as_tombstone ops) Map.empty k))) (sorted_list_of_set (op_key ` set ops))"

definition lsm_add_table :: "kv list \<Rightarrow> lsm \<Rightarrow> lsm" where
  "lsm_add_table es a =
     (if es = [] then a else a\<lparr>l_tables := (es # hd (l_tables a)) # tl (l_tables a)\<rparr>)"

definition lsm_flush :: "lsm \<Rightarrow> lsm" where
  "lsm_flush a =
     (let a' = (if l_mem a = [] then a else lsm_freeze a) in
      fold (\<lambda>ops. lsm_add_table (flush_entries ops)) (l_imm a') (a'\<lparr>l_imm := []\<rparr>))"

text \<open>The memtables that wait for a flush, oldest first.\<close>

definition lsm_pending :: "lsm \<Rightarrow> WriteOp list list" where
  "lsm_pending a = l_imm a @ (if l_mem a = [] then [] else [l_mem a])"

lemma concat_rev_empty [simp]: "concat (map rev (replicate n ([] :: kv list list))) = []"
  by (induction n) simp_all

section \<open>Memtables\<close>

definition last_op :: "WriteOp list \<Rightarrow> bytes \<Rightarrow> (ValueType \<times> bytes) option" where
  "last_op ops key = map_option (\<lambda>op. case op of Put _ v \<Rightarrow> (Value, v) | Delete _ \<Rightarrow> (Deletion, []))
     (find (\<lambda>op. op_key op = key) (rev ops))"

definition first_version :: "entry list \<Rightarrow> bytes \<Rightarrow> (ValueType \<times> bytes) option" where
  "first_version es key = map_option (\<lambda>(k, v). (value_type k, v)) (find (\<lambda>e. user_key (fst e) = key) es)"

definition mem_rep :: "'m SkipMap \<Rightarrow> 'm MemTable \<Rightarrow> WriteOp list \<Rightarrow> u64 \<Rightarrow> bool" where
  "mem_rep sm mt ops seq \<longleftrightarrow>
     sorted_entries (MemTable_iter sm mt) \<and> (\<forall>e \<in> set (MemTable_iter sm mt). sequence (fst e) \<le> seq) \<and>
     first_version (MemTable_iter sm mt) = last_op ops"

lemma last_op_snoc:
  "last_op (ops @ [op]) key =
     (if op_key op = key then Some (case op of Put _ v \<Rightarrow> (Value, v) | Delete _ \<Rightarrow> (Deletion, [])) else last_op ops key)"
  by (simp add: last_op_def)

lemma last_op_Nil [simp]: "last_op [] = Map.empty"
  by (simp add: last_op_def fun_eq_iff)

lemma mem_lookup_last:
  "mem_lookup ops key = (case last_op ops key of Some (Value, v) \<Rightarrow> Some v | _ \<Rightarrow> None)"
proof (induction ops rule: rev_induct)
  case Nil
  then show ?case by (simp add: mem_lookup_def)
next
  case (snoc op ops)
  then show ?case by (cases op) (auto simp: mem_lookup_def last_op_snoc)
qed

lemma tombstone_last: "apply_ops (map as_tombstone ops) Map.empty key = map_option snd (last_op ops key)"
proof (induction ops rule: rev_induct)
  case Nil
  then show ?case by simp
next
  case (snoc op ops)
  then show ?case by (cases op) (auto simp: last_op_snoc)
qed

lemma last_op_values: "last_op ops key = Some (t, v) \<Longrightarrow> t = Deletion \<Longrightarrow> v = []"
  by (auto simp: last_op_def) (metis (no_types, lifting) Pair_inject ValueType.distinct(1) WriteOp.exhaust WriteOp.simps(5,6))

lemma last_op_keys: "last_op ops key = None \<longleftrightarrow> key \<notin> op_key ` set ops"
  by (auto simp: last_op_def find_None_iff)

text \<open>The first entry with a property in a sorted list is the least one.\<close>

lemma find_sorted_iff:
  assumes "sorted_entries es"
  shows "find P es = Some e \<longleftrightarrow> e \<in> set es \<and> P e \<and> (\<forall>e' \<in> set es. P e' \<longrightarrow> fst e \<le> fst e')"
  using assms
proof (induction es)
  case Nil
  then show ?case by simp
next
  case (Cons a es)
  have srt: "sorted_entries es" "\<forall>e' \<in> set es. fst a < fst e'" using Cons.prems by (simp_all add: sorted_entries_Cons)
  show ?case
  proof (cases "P a")
    case True
    have "e = a" if "e \<in> set (a # es)" "fst e \<le> fst a" using that srt(2) by auto
    then show ?thesis using True srt(2) by auto
  next
    case False
    then show ?thesis using Cons.IH[OF srt(1)] by auto
  qed
qed

lemma first_version_insert:
  assumes "sorted_entries es'" and "sorted_entries es" and "set es' = insert (op_entry op seq) (set es)"
    and below: "\<forall>e \<in> set es. sequence (fst e) < seq"
  shows "first_version es' key = (if op_key op = key
      then Some (case op of Put _ v \<Rightarrow> (Value, v) | Delete _ \<Rightarrow> (Deletion, [])) else first_version es key)"
proof (cases "op_key op = key")
  case True
  let ?e = "op_entry op seq"
  have e: "user_key (fst ?e) = key" "sequence (fst ?e) = seq" using True by (cases op; simp)+
  have "fst ?e \<le> fst e'" if "e' \<in> set es'" "user_key (fst e') = key" for e'
  proof (cases "e' = ?e")
    case False
    then have "sequence (fst e') < seq" using that(1) assms(3) below by auto
    then show ?thesis using e that(2) by (auto simp: le_less InternalKey_less_iff)
  qed simp
  then have "find (\<lambda>e. user_key (fst e) = key) es' = Some ?e"
    unfolding find_sorted_iff[OF assms(1)] using e assms(3) by auto
  then show ?thesis using True by (cases op) (simp_all add: first_version_def)
next
  case False
  then have "user_key (fst (op_entry op seq)) \<noteq> key" by (cases op) simp_all
  then have "find (\<lambda>e. user_key (fst e) = key) es' = Some e \<longleftrightarrow> find (\<lambda>e. user_key (fst e) = key) es = Some e" for e
    unfolding find_sorted_iff[OF assms(1)] find_sorted_iff[OF assms(2)] assms(3) by auto
  then have "find (\<lambda>e. user_key (fst e) = key) es' = find (\<lambda>e. user_key (fst e) = key) es"
    by (metis option.exhaust)
  then show ?thesis using False by (simp add: first_version_def)
qed

lemma mem_rep_new: "skip_map sm \<Longrightarrow> mem_rep sm (MemTable_new sm s) [] seq"
  by (simp add: mem_rep_def skip_map.iter_new_MemTable sorted_entries_def first_version_def fun_eq_iff)

lemma mem_rep_later: "mem_rep sm mt ops seq \<Longrightarrow> seq \<le> seq' \<Longrightarrow> mem_rep sm mt ops seq'"
  by (auto simp: mem_rep_def)

lemma mem_rep_apply:
  assumes sm: "skip_map sm" and rep: "mem_rep sm mt ops seq" and seq: "seq < seq'"
  shows "mem_rep sm (MemTable_apply sm op seq' mt) (ops @ [op]) seq'"
proof -
  let ?es = "MemTable_iter sm mt" and ?es' = "MemTable_iter sm (MemTable_apply sm op seq' mt)"
  have srt: "sorted_entries ?es" and le: "\<forall>e \<in> set ?es. sequence (fst e) \<le> seq"
    and first: "first_version ?es = last_op ops" using rep by (simp_all add: mem_rep_def)
  have below: "\<forall>e \<in> set ?es. sequence (fst e) < seq'" using le seq by auto
  have sq: "sequence (fst (op_entry op seq')) = seq'" by (cases op) simp_all
  then have "fst (op_entry op seq') \<notin> fst ` set ?es" using below by fastforce
  then have set: "set ?es' = insert (op_entry op seq') (set ?es)" by (rule skip_map.set_iter_apply[OF sm srt])
  have srt': "sorted_entries ?es'" by (rule skip_map.iter_apply_sorted[OF sm srt])
  have "first_version ?es' = last_op (ops @ [op])"
    by (rule ext) (simp add: first_version_insert[OF srt' srt set below] last_op_snoc first)
  then show ?thesis using srt' set sq below by (auto simp: mem_rep_def less_imp_le)
qed

lemma mem_rep_get:
  assumes sm: "skip_map sm" and rep: "mem_rep sm mt ops seq" and m: "seq \<le> m"
  shows "MemTable_get sm mt key m = mem_lookup ops key"
proof -
  let ?es = "MemTable_iter sm mt"
  have le: "\<forall>e \<in> set ?es. sequence (fst e) \<le> m" and first: "first_version ?es = last_op ops"
    using rep m by (auto simp: mem_rep_def)
  have "MemTable_get_scan key m (filter (\<lambda>e. user_key (fst e) = key) es) =
      (case first_version es key of Some (Value, v) \<Rightarrow> Some v | _ \<Rightarrow> None)"
    if "\<forall>e \<in> set es. sequence (fst e) \<le> m" for es
    using that
    by (induction es) (auto simp: first_version_def split: ValueType.splits)
  then show ?thesis
    using le first by (simp add: skip_map.get_eq_scan[OF sm] mem_lookup_last)
qed

section \<open>Flushing a memtable\<close>

lemma flush_loop_compacted:
  "flush_loop x es prev n sb =
     loop_end (n + length (compacted 0 prev (map (\<lambda>(k, v). (user_key k, v)) es)))
       (SSTableBuilder_add_all x (compacted 0 prev (map (\<lambda>(k, v). (user_key k, v)) es)) sb)"
proof (induction x es prev n sb rule: flush_loop.induct)
  case (1 x prev n sb)
  then show ?case by simp
next
  case (2 x k v es prev n sb)
  show ?case
  proof (cases "prev = Some (user_key k)")
    case True
    then show ?thesis using 2(1) by simp
  next
    case False
    obtain r sb' where add: "SSTableBuilder_add x (user_key k) v sb = (r, sb')" by fastforce
    show ?thesis using False 2(2)[OF False] add by (cases r) auto
  qed
qed

lemma sorted_user_keys: "sorted_entries es \<Longrightarrow> sorted (map fst (map (\<lambda>(k, v). (user_key k, v)) es))"
proof (induction es)
  case (Cons e es)
  have "user_key (fst e) \<le> user_key (fst e')" if "e' \<in> set es" for e'
    using Cons.prems that by (auto simp: sorted_entries_Cons InternalKey_less_iff le_less)
  then show ?case using Cons by (auto simp: sorted_entries_Cons case_prod_beta)
qed simp

lemma map_of_user_keys:
  "map_of (map (\<lambda>(k, v). (user_key k, v)) es) key = map_option snd (first_version es key)"
  by (induction es) (auto simp: first_version_def)

lemma kv_sorted_unique:
  assumes "kv_sorted es" and "map_of es = m" and "finite K" and "dom m = K"
  shows "es = map (\<lambda>k. (k, the (m k))) (sorted_list_of_set K)"
proof -
  have d: "distinct (map fst es)" "sorted (map fst es)"
    using assms(1) by (auto simp: kv_sorted_def sorted_wrt_less_distinct strict_sorted_iff)
  have "fst ` set es = K" using assms(2,4) by (metis dom_map_of_conv_image_fst)
  then have "map fst es = sorted_list_of_set K"
    using d by (metis list.set_map sorted_list_of_set.idem_if_sorted_distinct)
  moreover have "e = (fst e, the (m (fst e)))" if "e \<in> set es" for e
    using that d(1) assms(2) by (metis map_of_is_SomeI option.sel prod.collapse)
  ultimately show ?thesis
    by (metis (no_types, lifting) list.map_comp map_idI comp_def)
qed

lemma flush_entries_unique:
  assumes "kv_sorted es" and "\<And>key. map_of es key = map_option snd (last_op ops key)"
  shows "es = flush_entries ops"
proof -
  have m: "map_of es = apply_ops (map as_tombstone ops) Map.empty"
    by (rule ext) (simp add: assms(2) tombstone_last)
  have "dom (apply_ops (map as_tombstone ops) Map.empty) = op_key ` set ops"
    unfolding m[symmetric] dom_def assms(2) using last_op_keys[of ops] by auto
  then show ?thesis using kv_sorted_unique[OF assms(1) m] by (simp add: flush_entries_def)
qed

lemma memtable_entries:
  assumes rep: "mem_rep sm mt ops seq" and keys: "[] \<notin> op_key ` set ops"
  defines "out \<equiv> map (\<lambda>(k, v). (user_key k, v)) (MemTable_iter sm mt)"
  shows "compacted 0 None out = flush_entries ops" and "kv_sorted (flush_entries ops)"
    and "map_of (flush_entries ops) key = map_option snd (last_op ops key)"
proof -
  have srt: "sorted (map fst out)" and first: "first_version (MemTable_iter sm mt) = last_op ops"
    using rep sorted_user_keys by (auto simp: out_def mem_rep_def)
  have look: "map_of (compacted 0 None out) k = map_option snd (last_op ops k)" for k
    using compacted_lookup[OF srt, of None 0 k] by (simp add: out_def map_of_user_keys first kept_def option.case_eq_if)
  have "[] \<notin> fst ` set (compacted 0 None out)"
    using look[of "[]"] keys last_op_keys[of ops "[]"] by (metis map_of_eq_None_iff option.map_disc_iff)
  then have sorted: "kv_sorted (compacted 0 None out)"
    using compacted_above[OF srt, of None 0] by (simp add: kv_sorted_def)
  show eq: "compacted 0 None out = flush_entries ops" by (rule flush_entries_unique[OF sorted look])
  show "kv_sorted (flush_entries ops)" "map_of (flush_entries ops) key = map_option snd (last_op ops key)"
    using sorted look eq by simp_all
qed

end
