(* ===== verification/DB_Refine.thy ===== *)
theory DB_Refine
  imports LSM
begin

text \<open>
  The database implements the abstract store: \<open>db_rep\<close> relates a database to a store, reading
  returns what the store reads, writing appends to its memtable, freezing and flushing move data down.
\<close>

section \<open>The relation\<close>

definition table_is :: "ext \<Rightarrow> (CacheKey \<rightharpoonup> bytes) \<Rightarrow> SSTableReader \<Rightarrow> kv list \<Rightarrow> bool" where
  "table_is x store rd es \<longleftrightarrow> (\<exists>bs. table_rep x rd bs \<and> stored_entries bs = es \<and> served x store rd bs)"

text \<open>The path of a reader ends in its number.\<close>

definition named_reader :: "SSTableReader \<Rightarrow> bool" where
  "named_reader rd \<longleftrightarrow> (\<exists>dir. sr_path rd = path_join dir (sst_file_name (sr_file_number rd)))"

definition tables_rep ::
  "ext \<Rightarrow> SSTableReader list list \<Rightarrow> u64 \<Rightarrow> BlockCache \<Rightarrow> kv list list list \<Rightarrow> bool" where
  "tables_rep x levels next_number cache tss \<longleftrightarrow>
     (\<exists>store. list_all2 (list_all2 (table_is x store)) levels tss \<and> coherent store cache \<and>
        (\<forall>k \<in> dom store. file_id k < next_number)) \<and>
     (\<forall>l \<in> set levels. distinct (map sr_file_number l)) \<and> 
     (\<forall>rd \<in> set (concat levels). sr_file_number rd < next_number \<and> named_reader rd)"

definition db_rep :: "ext \<Rightarrow> 'm SkipMap \<Rightarrow> 'm DB \<Rightarrow> lsm \<Rightarrow> bool" where
  "db_rep x sm db a \<longleftrightarrow>
     mem_rep sm (db_memtable db) (l_mem a) (db_sequence db) \<and>
     list_all2 (\<lambda>mt ops. mem_rep sm mt ops (db_sequence db)) (db_immutable db) (l_imm a) \<and>
     tables_rep x (db_sstables db) (db_next_file_number db) (db_cache db) (l_tables a)"

text \<open>The part of the relation about the memtables, which write calls depend on.\<close>

definition mems_rep :: "'m SkipMap \<Rightarrow> 'm DB \<Rightarrow> lsm \<Rightarrow> bool" where
  "mems_rep sm db a \<longleftrightarrow> mem_rep sm (db_memtable db) (l_mem a) (db_sequence db) \<and>
     list_all2 (\<lambda>mt ops. mem_rep sm mt ops (db_sequence db)) (db_immutable db) (l_imm a)"

lemma db_rep_split: "db_rep x sm db a \<longleftrightarrow>
    mems_rep sm db a \<and> tables_rep x (db_sstables db) (db_next_file_number db) (db_cache db) (l_tables a)"
  by (simp add: db_rep_def mems_rep_def)

section \<open>Reading\<close>

lemma first_some_append:
  "first_some (xs @ ys) = (case first_some xs of Some v \<Rightarrow> Some v | None \<Rightarrow> first_some ys)"
  by (induction xs) (auto split: option.splits)

lemma search_memtables_rep:
  assumes "skip_map sm" and "list_all2 (\<lambda>mt ops. mem_rep sm mt ops seq) mts opss" and "seq \<le> m"
  shows "search_memtables sm key m mts = first_some (map (\<lambda>ops. mem_lookup ops key) opss)"
  using assms(2)
  by (induction rule: list_all2_induct) (simp_all add: mem_rep_get[OF assms(1) _ assms(3)] split: option.split)

lemma search_tables_rep:
  assumes "list_all2 (table_is x store) rds ess" and "coherent store cache"
  shows "\<exists>cache'. search_tables x key rds cache = (Ok (first_some (map (\<lambda>es. sst_lookup es key) ess)), cache') \<and>
    coherent store cache'"
  using assms
proof (induction arbitrary: cache rule: list_all2_induct)
  case Nil
  then show ?case by simp
next
  case (Cons rd rds es ess)
  obtain bs where bs: "table_rep x rd bs" "stored_entries bs = es" "served x store rd bs"
    using Cons.hyps(1) by (auto simp: table_is_def)
  obtain c where c: "SSTableReader_get x rd key cache = (Ok (sst_lookup es key), c)" "coherent store c"
    using table_get[OF bs(1) Cons.prems bs(3)] bs(2) by metis
  then show ?case using Cons.IH[OF c(2)] by (cases "sst_lookup es key") auto
qed

lemma search_levels_rep:
  assumes "list_all2 (list_all2 (table_is x store)) levels tss" and "coherent store cache"
  shows "\<exists>cache'. search_levels x key levels cache =
      (Ok (first_some (map (\<lambda>es. sst_lookup es key) (concat (map rev tss)))), cache') \<and> coherent store cache'"
  using assms
proof (induction arbitrary: cache rule: list_all2_induct)
  case Nil
  then show ?case by simp
next
  case (Cons level levels ts tss)
  have "list_all2 (table_is x store) (rev level) (rev ts)" using Cons.hyps(1) by simp
  then obtain c where c: "search_tables x key (rev level) cache =
      (Ok (first_some (map (\<lambda>es. sst_lookup es key) (rev ts))), c)" "coherent store c"
    using search_tables_rep[OF _ Cons.prems] by blast
  show ?case
    using Cons.IH[OF c(2)] c by (cases "first_some (map (\<lambda>es. sst_lookup es key) (rev ts))")
      (auto simp: first_some_append)
qed

lemma get_at_sequence_rep:
  assumes sm: "skip_map sm" and rep: "db_rep x sm db a" and m: "db_sequence db \<le> m"
  shows "\<exists>cache. DB_get_at_sequence x sm key m db = (Ok (lsm_get a key), db\<lparr>db_cache := cache\<rparr>) \<and>
    db_rep x sm (db\<lparr>db_cache := cache\<rparr>) a"
proof -
  obtain store where st: "list_all2 (list_all2 (table_is x store)) (db_sstables db) (l_tables a)"
    "coherent store (db_cache db)" "\<forall>k \<in> dom store. file_id k < db_next_file_number db"
    using rep by (auto simp: db_rep_def tables_rep_def)
  obtain cache where c: "search_levels x key (db_sstables db) (db_cache db) =
      (Ok (first_some (map (\<lambda>es. sst_lookup es key) (concat (map rev (l_tables a))))), cache)" "coherent store cache"
    using search_levels_rep[OF st(1,2)] by blast
  have mem: "MemTable_get sm (db_memtable db) key m = mem_lookup (l_mem a) key"
    using mem_rep_get[OF sm _ m] rep by (simp add: db_rep_def)
  have imm: "search_memtables sm key m (rev (db_immutable db)) = first_some (map (\<lambda>ops. mem_lookup ops key) (rev (l_imm a)))"
    using search_memtables_rep[OF sm _ m, of "rev (db_immutable db)" "rev (l_imm a)"] rep by (simp add: db_rep_def)
  have same: "db\<lparr>db_cache := db_cache db\<rparr> = db" by simp
  have rep': "db_rep x sm (db\<lparr>db_cache := cache\<rparr>) a"
    using rep st c(2) by (auto simp: db_rep_def tables_rep_def)
  show ?thesis
  proof (cases "mem_lookup (l_mem a) key = None \<and> first_some (map (\<lambda>ops. mem_lookup ops key) (rev (l_imm a))) = None")
    case True
    then show ?thesis using mem imm c rep'
      by (intro exI[of _ cache]) (simp add: DB_get_at_sequence_def lsm_get_def first_some_append)
  next
    case False
    then show ?thesis using mem imm rep same
      by (intro exI[of _ "db_cache db"]) (auto simp: DB_get_at_sequence_def lsm_get_def first_some_append split: option.splits)
  qed
qed

section \<open>Writing\<close>

lemma set_wal_fields [simp]:
  "db_path (set_wal w db) = db_path db" "db_options (set_wal w db) = db_options db"
  "db_memtable (set_wal w db) = db_memtable db" "db_immutable (set_wal w db) = db_immutable db"
  "db_sstables (set_wal w db) = db_sstables db" "db_sequence (set_wal w db) = db_sequence db"
  "db_next_file_number (set_wal w db) = db_next_file_number db" "db_cache (set_wal w db) = db_cache db"
  "db_wal_file_number (set_wal w db) = db_wal_file_number db" "db_version_set (set_wal w db) = db_version_set db"
  "db_picker (set_wal w db) = db_picker db" "db_wal (set_wal w db) = w"
  by (simp_all add: set_wal_def)

text \<open>Logging changes nothing but the log and its file.\<close>

definition same_data :: "'m DB \<Rightarrow> 'm DB \<Rightarrow> bool" where
  "same_data db db' \<longleftrightarrow>
     db_path db' = db_path db \<and> db_options db' = db_options db \<and> db_memtable db' = db_memtable db \<and>
     db_immutable db' = db_immutable db \<and> db_sstables db' = db_sstables db \<and> db_sequence db' = db_sequence db \<and>
     db_next_file_number db' = db_next_file_number db \<and> db_cache db' = db_cache db \<and>
     db_wal_file_number db' = db_wal_file_number db \<and> db_version_set db' = db_version_set db \<and>
     db_picker db' = db_picker db"

lemma same_data_refl [simp]: "same_data db db"
  by (simp add: same_data_def)

lemma same_data_trans: "same_data a b \<Longrightarrow> same_data b c \<Longrightarrow> same_data a c"
  by (simp add: same_data_def)

lemma same_data_set_wal [simp]: "same_data db (set_wal w db)"
  by (simp add: same_data_def)

lemma wal_append_all_data: "wal_append_all x ops db = (r, db') \<Longrightarrow> same_data db db'"
proof (induction x ops db rule: wal_append_all.induct)
  case (1 x db)
  then show ?case by simp
next
  case (2 x op ops db)
  obtain q w where q: "WAL_append (x_crc x) (wal_entry op) (db_wal db) = (q, w)" by fastforce
  show ?case
    using 2 q same_data_trans[OF same_data_set_wal[where w = w and db = db]] by (cases q) auto
qed

lemma log_ops_data: "log_ops x ops db = (r, db') \<Longrightarrow> same_data db db'"
  unfolding log_ops_def bind_st_def
  by (auto split: if_splits prod.splits res.splits simp: wal_sync_def
      intro: wal_append_all_data same_data_trans[OF wal_append_all_data])

lemma db_rep_same_data: "same_data db db' \<Longrightarrow> db_rep x sm db a \<Longrightarrow> db_rep x sm db' a"
  by (simp add: db_rep_def same_data_def)

lemma db_rep_sequence: "db_rep x sm db a \<Longrightarrow> db_sequence db \<le> seq \<Longrightarrow> db_rep x sm (db\<lparr>db_sequence := seq\<rparr>) a"
  by (auto simp: db_rep_def elim!: mem_rep_later list.rel_mono_strong)

lemma freeze_rep:
  assumes "skip_map sm" and "db_rep x sm db a" and "freeze_memtable sm db = (r, db')"
  shows "r = Ok () \<and> db_rep x sm db' (lsm_freeze a) \<and> db_sequence db' = db_sequence db"
  using assms by (auto simp: freeze_memtable_def db_rep_def lsm_freeze_def mem_rep_new list_all2_appendI)

lemma mem_rep_apply_all:
  assumes "skip_map sm" and "mem_rep sm mt ops seq" and "unat seq + length new < 2 ^ 64"
  shows "mem_rep sm (MemTable_apply_all sm new (seq + 1) mt) (ops @ new) (seq + of_nat (length new))"
  using assms(2,3)
proof (induction new arbitrary: mt ops seq)
  case Nil
  then show ?case by simp
next
  case (Cons op new)
  have u: "unat (seq + 1) = unat seq + 1" using Cons.prems(2) by (simp add: unat_word_ariths)
  then have "mem_rep sm (MemTable_apply sm op (seq + 1) mt) (ops @ [op]) (seq + 1)"
    by (intro mem_rep_apply[OF assms(1) Cons.prems(1)]) (simp add: word_less_nat_alt)
  from Cons.IH[OF this] show ?case using Cons.prems(2) u by (simp add: add_ac)
qed

text \<open>What the three write operations do in common.\<close>

definition lsm_written :: "WriteOp list \<Rightarrow> lsm \<Rightarrow> lsm \<Rightarrow> bool" where
  "lsm_written ops a a' \<longleftrightarrow> a' = lsm_append ops a \<or> a' = lsm_freeze (lsm_append ops a)"

lemma freeze_mems: "skip_map sm \<Longrightarrow> mems_rep sm db a \<Longrightarrow> mems_rep sm (snd (freeze_memtable sm db)) (lsm_freeze a)"
  by (auto simp: freeze_memtable_def mems_rep_def lsm_freeze_def mem_rep_new list_all2_appendI)

lemma write_ops_mems:
  assumes sm: "skip_map sm" and rep: "mems_rep sm db a" and room: "unat (db_sequence db) + length ops < 2 ^ 64"
    and log: "log_ops x ops (db\<lparr>db_sequence := db_sequence db + of_nat (length ops)\<rparr>) = (r, db1)"
  shows "mems_rep sm db1 a"
    and "mems_rep sm (db1\<lparr>db_memtable := MemTable_apply_all sm ops (db_sequence db + 1) (db_memtable db1)\<rparr>) (lsm_append ops a)"
proof -
  let ?n = "of_nat (length ops) :: u64"
  have "unat (db_sequence db + ?n) = unat (db_sequence db) + length ops"
    using room by (simp add: unat_word_ariths unat_of_nat)
  then have le: "db_sequence db \<le> db_sequence db + ?n" by (simp add: word_le_nat_alt)
  have same: "same_data (db\<lparr>db_sequence := db_sequence db + ?n\<rparr>) db1" by (rule log_ops_data[OF log])
  with rep le show rep1: "mems_rep sm db1 a"
    by (auto simp: mems_rep_def same_data_def elim!: mem_rep_later list.rel_mono_strong)
  have "mem_rep sm (MemTable_apply_all sm ops (db_sequence db + 1) (db_memtable db1)) (l_mem a @ ops) (db_sequence db + ?n)"
    using mem_rep_apply_all[OF sm, of "db_memtable db" "l_mem a" "db_sequence db" ops] rep room same
    by (simp add: mems_rep_def same_data_def)
  then show "mems_rep sm (db1\<lparr>db_memtable := MemTable_apply_all sm ops (db_sequence db + 1) (db_memtable db1)\<rparr>) (lsm_append ops a)"
    using rep1 same by (simp add: mems_rep_def lsm_append_def same_data_def)
qed

end
