(* ===== verification/DB_Flush.thy ===== *)
theory DB_Flush
  imports DB_Refine
begin

text \<open>Flushing a memtable to a table of level 0, and rotating the log.\<close>

section \<open>File names\<close>

lemma parse_digits_no_slash: "parse_digits acc s = Some n \<Longrightarrow> CHR ''/'' \<notin> set s"
  by (induction acc s rule: parse_digits.induct)
     (auto simp: char_digit_def split: option.splits if_splits)

lemma fmt_06_no_slash: "CHR ''/'' \<notin> set (fmt_06 (unat (num :: u64)))"
  using parse_digits_no_slash[OF parse_digits_fmt_06[of "unat num"]] unat_lt2p[of num] by simp

lemma path_file_name_join:
  assumes "CHR ''/'' \<notin> set name" and "name \<noteq> []" and "name \<noteq> ''.''" and "name \<noteq> ''..''"
  shows "path_file_name (path_join dir name) = Some name"
proof -
  have "takeWhile (\<lambda>c. c \<noteq> CHR ''/'') (rev (path_join dir name)) = rev name"
    using assms(1) by (auto simp: path_join_def takeWhile_append)
  then show ?thesis using assms by (simp add: path_file_name_def)
qed

lemma table_number_of_path: "table_file_number x (path_join dir (sst_file_name num)) = num"
proof -
  let ?n = "fmt_06 (unat num)"
  note c = fmt_06_no_slash[of num]
  have "length (sst_file_name num) \<ge> 4" by (simp add: sst_file_name_def)
  then have "sst_file_name num \<noteq> []" "sst_file_name num \<noteq> ''.''" "sst_file_name num \<noteq> ''..''" by auto
  then have "path_file_name (path_join dir (sst_file_name num)) = Some (?n @ ''.sst'')"
    using path_file_name_join[of "sst_file_name num" dir] c by (simp add: sst_file_name_def)
  then show ?thesis by (simp add: table_file_number_def strip_suffix_append parse_u64_fmt_06)
qed

section \<open>Adding a table\<close>

lemma table_store_dom: "k \<in> dom (table_store x rd bs) \<Longrightarrow> file_id k = sr_file_number rd"
  by (auto simp: table_store_def CacheKey_new_def dest!: map_of_SomeD)

lemma served_mono: "served x store rd bs \<Longrightarrow> (\<And>k v. store k = Some v \<Longrightarrow> store' k = Some v) \<Longrightarrow> served x store' rd bs"
  unfolding served_def by blast

lemma table_is_mono: "table_is x store rd es \<Longrightarrow> (\<And>k v. store k = Some v \<Longrightarrow> store' k = Some v) \<Longrightarrow> table_is x store' rd es"
  unfolding table_is_def using served_mono by blast

text \<open>A store for the tables in use can be extended by a table with a new number.\<close>

lemma store_extend:
  assumes lv: "list_all2 (list_all2 (table_is x store)) levels tss" and coh: "coherent store cache"
    and dom: "\<forall>k \<in> dom store. file_id k < num" and num: "sr_file_number rd = num" "unat num + 1 < 2 ^ 64"
    and t: "table_rep x rd bs" "stored_entries bs = es" "served x (table_store x rd bs) rd bs"
  obtains store' where "list_all2 (list_all2 (table_is x store')) levels tss" "coherent store' cache"
    "\<forall>k \<in> dom store'. file_id k < num + 1" "table_is x store' rd es"
proof -
  let ?t = "table_store x rd bs"
  define store' where "store' = ?t ++ store"
  have fresh: "k \<notin> dom store" if "k \<in> dom ?t" for k using table_store_dom[OF that] dom num(1) by auto
  have old: "store k = Some v \<Longrightarrow> store' k = Some v" for k v by (simp add: store'_def)
  have new: "?t k = Some v \<Longrightarrow> store' k = Some v" for k v
    using fresh[of k] by (auto simp: store'_def map_add_def split: option.splits)
  have le: "num < num + 1" using num(2) by (simp add: word_less_nat_alt unat_word_ariths)
  have "\<forall>k \<in> dom store'. file_id k < num + 1"
  proof
    fix k
    assume "k \<in> dom store'"
    then consider "k \<in> dom store" | "k \<in> dom ?t" by (auto simp: store'_def)
    then show "file_id k < num + 1"
      using dom table_store_dom[of k x rd bs] num(1) le by cases (auto intro: order.strict_trans)
  qed
  moreover have "list_all2 (list_all2 (table_is x store')) levels tss"
    using lv by (rule list.rel_mono_strong) (auto elim!: list.rel_mono_strong intro: table_is_mono old)
  moreover have "coherent store' cache" using coh old by (auto simp: coherent_def)
  moreover have "table_is x store' rd es"
    unfolding table_is_def using t served_mono[of x ?t rd bs store'] new by blast
  ultimately show ?thesis by (intro that)
qed

lemma tables_rep_next:
  assumes "tables_rep x levels num cache tss" and "unat num + 1 < 2 ^ 64"
  shows "tables_rep x levels (num + 1) cache tss"
proof -
  have "num < num + 1" using assms(2) by (simp add: word_less_nat_alt unat_word_ariths)
  then have "n < num \<Longrightarrow> n < num + 1" for n by (rule order.strict_trans[rotated])
  then show ?thesis using assms(1) unfolding tables_rep_def by blast
qed

lemma tables_rep_add:
  assumes rep: "tables_rep x (l0 # ls) num cache (t0 # ts)" and num: "sr_file_number rd = num" "unat num + 1 < 2 ^ 64"
    and named: "named_reader rd"
    and t: "table_rep x rd bs" "stored_entries bs = es" "served x (table_store x rd bs) rd bs"
  shows "tables_rep x ((rd # l0) # ls) (num + 1) cache ((es # t0) # ts)"
proof -
  obtain store where st: "list_all2 (list_all2 (table_is x store)) (l0 # ls) (t0 # ts)" "coherent store cache"
    "\<forall>k \<in> dom store. file_id k < num" using rep by (auto simp: tables_rep_def)
  obtain store' where "list_all2 (list_all2 (table_is x store')) (l0 # ls) (t0 # ts)" "coherent store' cache"
    "\<forall>k \<in> dom store'. file_id k < num + 1" "table_is x store' rd es"
    by (rule store_extend[OF st num t])
  moreover have "num < num + 1" using num(2) by (simp add: word_less_nat_alt unat_word_ariths)
  moreover have "\<forall>l \<in> set (l0 # ls). distinct (map sr_file_number l)" "\<forall>r \<in> set (concat (l0 # ls)). sr_file_number r < num \<and> named_reader r"
    using rep by (simp_all add: tables_rep_def)
  ultimately show ?thesis using num(1) named
    unfolding tables_rep_def by (intro conjI exI[of _ store']) (auto intro: order.strict_trans)
qed

section \<open>Flushing one memtable\<close>

lemma flush_entries_Nil [simp]: "flush_entries ops = [] \<longleftrightarrow> ops = []"
  by (auto simp: flush_entries_def)

lemma flush_builder_rep:
  "sb_rep x (SSTableBuilder_set_compression c (SSTableBuilder_set_block_size n
     (case SSTableBuilder_new (Ok (file_of [])) of Ok sb \<Rightarrow> sb))) [] []"
  using sb_rep_new[of "file_of []" _ x] sb_rep_config(1,2) by (simp add: SSTableBuilder_new_def file_of_def)

text \<open>What a flush leaves alone.\<close>

definition same_but_tables :: "'m DB \<Rightarrow> 'm DB \<Rightarrow> bool" where
  "same_but_tables db db' \<longleftrightarrow>
     db_path db' = db_path db \<and> db_options db' = db_options db \<and> db_memtable db' = db_memtable db \<and>
     db_immutable db' = db_immutable db \<and> db_wal db' = db_wal db \<and> db_sequence db' = db_sequence db \<and>
     db_cache db' = db_cache db \<and> db_wal_file_number db' = db_wal_file_number db \<and>
     db_version_set db' = db_version_set db \<and> db_picker db' = db_picker db"

text \<open>Writing a memtable that is not empty: the file, and the reader that is added to level 0.\<close>

lemma flush_memtable_files:
  assumes mt: "mem_rep sm mt ops seq" and keys: "[] \<notin> op_key ` set ops" "ops \<noteq> []"
    and size: "kv_size (flush_entries ops) + 8 < 2 ^ 32" and snap: "compression (db_options db) = Snappy \<longrightarrow> snappy_law x"
    and fs: "fs_sound (db_fs db)" and levels: "db_sstables db = l0 # ls"
  defines "path \<equiv> path_join (db_path db) (sst_file_name (db_next_file_number db))"
  obtains g rd bs where "flush_memtable_to_sstable x sm mt db = (Ok (db_next_file_number db),
      db\<lparr>db_next_file_number := db_next_file_number db + 1, db_fs := fs_store path g (db_fs db), db_sstables := (rd # l0) # ls\<rparr>)"
    "opens_as x g (flush_entries ops)" "table_rep x rd bs" "stored_entries bs = flush_entries ops"
    "sr_file_number rd = db_next_file_number db" "served x (table_store x rd bs) rd bs" "named_reader rd"
proof -
  let ?num = "db_next_file_number db" and ?es = "flush_entries ops"
  define sb0 where "sb0 = SSTableBuilder_set_compression (compression (db_options db))
    (SSTableBuilder_set_block_size (block_size (db_options db)) (case SSTableBuilder_new (Ok (file_of [])) of Ok sb \<Rightarrow> sb))"
  have sb0: "sb_rep x sb0 [] []" "sb_compression sb0 = compression (db_options db)"
    using flush_builder_rep by (simp_all add: sb0_def SSTableBuilder_set_compression_def)
  note me = memtable_entries[OF mt keys(1)]
  obtain sb f where b: "SSTableBuilder_add_all x ?es sb0 = (Ok (), sb)"
    "SSTableBuilder_finish x sb = (Ok (of_nat (length (wf_data f))), f)" "opens_as x (wf_data f) ?es"
    by (rule build_opens_as[OF sb0(1) _ me(2) size]) (use sb0(2) snap in auto)
  have loop: "flush_loop x (MemTable_iter sm mt) None 0 sb0 = (Ok (length ?es), sb)"
    by (simp add: flush_loop_compacted me(1) b(1))
  define db1 where "db1 = db\<lparr>db_next_file_number := ?num + 1, db_fs := fs_store path [] (db_fs db)\<rparr>"
  have start: "fs_do (fs_open_write True path) (db\<lparr>db_next_file_number := ?num + 1\<rparr>) = (Ok (file_of []), db1)"
    using fs by (simp add: fs_do_def fs_open_write_sound db1_def)
  have new: "SSTableBuilder_new (Ok (file_of [])) = Ok (case SSTableBuilder_new (Ok (file_of [])) of Ok sb \<Rightarrow> sb)"
    by (simp add: SSTableBuilder_new_def)
  obtain rd bs where rd: "SSTableReader_open_with_cache x path (Ok (wf_data f)) True = Ok rd" "table_rep x rd bs"
    "stored_entries bs = ?es" "sr_file_number rd = ?num" "served x (table_store x rd bs) rd bs" "named_reader rd"
    by (rule opens_asE[OF b(3), of path True]) (use table_number_of_path in \<open>auto simp: named_reader_def path_def\<close>)
  have "fs_open_read path (db_fs (set_file path f db1)) = (Ok (wf_data f), db_fs (set_file path f db1))"
    using fs by (intro fs_open_read_sound) (simp_all add: set_file_def db1_def)
  then have opened: "open_table x path (set_file path f db1) = (Ok rd, set_file path f db1)"
    using rd(1) by (simp add: open_table_def fs_do_def)
  have "flush_memtable_to_sstable x sm mt db = (Ok ?num, (set_file path f db1)\<lparr>db_sstables := (rd # l0) # ls\<rparr>)"
    unfolding flush_memtable_to_sstable_def Let_def path_def[symmetric] start prod.case
    using keys(2) b(2) opened levels loop
    by (subst new) (simp add: sb0_def[symmetric] db1_def add_level0_def set_file_def)
  moreover have "(set_file path f db1)\<lparr>db_sstables := (rd # l0) # ls\<rparr> =
      db\<lparr>db_next_file_number := ?num + 1, db_fs := fs_store path (wf_data f) (db_fs db), db_sstables := (rd # l0) # ls\<rparr>"
    by (simp add: set_file_def db1_def fs_store_def update_last)
  ultimately show ?thesis using that[OF _ b(3) rd(2-)] by simp
qed

text \<open>An empty memtable leaves no file.\<close>

lemma flush_empty_memtable:
  assumes mt: "mem_rep sm mt [] seq" and fs: "fs_sound (db_fs db)"
  obtains fs' where "flush_memtable_to_sstable x sm mt db = (Ok 0, db\<lparr>db_next_file_number := db_next_file_number db + 1, db_fs := fs'\<rparr>)"
    "fs_sound fs'"
proof -
  let ?num = "db_next_file_number db"
  let ?path = "path_join (db_path db) (sst_file_name ?num)"
  define db1 where "db1 = db\<lparr>db_next_file_number := ?num + 1, db_fs := fs_store ?path [] (db_fs db)\<rparr>"
  have start: "fs_do (fs_open_write True ?path) (db\<lparr>db_next_file_number := ?num + 1\<rparr>) = (Ok (file_of []), db1)"
    using fs by (simp add: fs_do_def fs_open_write_sound db1_def)
  obtain sb0 where new: "SSTableBuilder_new (Ok (file_of [])) = Ok sb0" by (simp add: SSTableBuilder_new_def)
  define sb where "sb = SSTableBuilder_set_compression (compression (db_options db1))
    (SSTableBuilder_set_block_size (block_size (db_options db1)) sb0)"
  have loop: "flush_loop x (MemTable_iter sm mt) None 0 sb = (Ok 0, sb)"
    using memtable_entries(1)[OF mt] by (simp add: flush_loop_compacted flush_entries_def)
  obtain q where q: "SSTableBuilder_abandon sb = (Ok (), q)" by (simp add: SSTableBuilder_abandon_def)
  have ex: "fs_exists ?path (db_fs (set_file ?path q db1))" by (simp add: fs_exists_def set_file_def)
  obtain fs' where "fs_remove_file ?path (db_fs (set_file ?path q db1)) = (Ok (), fs')" "fs_sound fs'"
    using fs_remove_file_sound[of "db_fs (set_file ?path q db1)" ?path] fs by (auto simp: set_file_def db1_def)
  moreover from this have "flush_memtable_to_sstable x sm mt db = (Ok 0, (set_file ?path q db1)\<lparr>db_fs := fs'\<rparr>)"
    using q ex loop new start by (simp add: flush_memtable_to_sstable_def Let_def remove_if_exists_def fs_do_def sb_def[symmetric])
  ultimately show ?thesis using that by (simp add: set_file_def db1_def)
qed

lemma flush_memtable_rep:
  assumes rep: "db_rep x sm db a" and mt: "mem_rep sm mt ops seq" and keys: "[] \<notin> op_key ` set ops"
    and size: "kv_size (flush_entries ops) + 8 < 2 ^ 32" and snap: "compression (db_options db) = Snappy \<longrightarrow> snappy_law x"
    and fs: "fs_sound (db_fs db)" and num: "unat (db_next_file_number db) + 1 < 2 ^ 64" and ne: "l_tables a \<noteq> []"
  shows "\<exists>r db'. flush_memtable_to_sstable x sm mt db = (Ok r, db') \<and>
    db_rep x sm db' (lsm_add_table (flush_entries ops) a) \<and> fs_sound (db_fs db') \<and> same_but_tables db db' \<and>
    db_next_file_number db' = db_next_file_number db + 1"
proof (cases "ops = []")
  case True
  obtain fs' where "flush_memtable_to_sstable x sm mt db =
      (Ok 0, db\<lparr>db_next_file_number := db_next_file_number db + 1, db_fs := fs'\<rparr>)" "fs_sound fs'"
    by (rule flush_empty_memtable[OF _ fs]) (use mt True in auto)
  then show ?thesis
    using True rep tables_rep_next[OF _ num] by (auto simp: db_rep_def lsm_add_table_def same_but_tables_def)
next
  case False
  obtain l0 ls where l: "db_sstables db = l0 # ls"
    using rep ne by (cases "db_sstables db") (auto simp: db_rep_def tables_rep_def)
  obtain t0 ts where t: "l_tables a = t0 # ts" using ne by (cases "l_tables a") auto
  obtain g rd bs where f: "flush_memtable_to_sstable x sm mt db = (Ok (db_next_file_number db),
      db\<lparr>db_next_file_number := db_next_file_number db + 1,
         db_fs := fs_store (path_join (db_path db) (sst_file_name (db_next_file_number db))) g (db_fs db), db_sstables := (rd # l0) # ls\<rparr>)"
    "table_rep x rd bs" "stored_entries bs = flush_entries ops" "sr_file_number rd = db_next_file_number db"
    "served x (table_store x rd bs) rd bs" "named_reader rd"
    by (rule flush_memtable_files[OF mt keys False size snap fs l])
  have "tables_rep x ((rd # l0) # ls) (db_next_file_number db + 1) (db_cache db) ((flush_entries ops # t0) # ts)"
    using tables_rep_add[OF _ f(4) num f(6,2,3,5)] rep l t by (simp add: db_rep_def)
  then show ?thesis using f(1) rep False fs by (auto simp: db_rep_def lsm_add_table_def same_but_tables_def t)
qed

section \<open>Flushing all frozen memtables\<close>

text \<open>What a flush needs of the operations of a memtable.\<close>

definition flushable :: "WriteOp list \<Rightarrow> bool" where
  "flushable ops \<longleftrightarrow> [] \<notin> op_key ` set ops \<and> kv_size (flush_entries ops) + 8 < 2 ^ 32"

lemma lsm_add_table_simps [simp]:
  "l_mem (lsm_add_table es a) = l_mem a" "l_imm (lsm_add_table es a) = l_imm a"
  "l_tables a \<noteq> [] \<Longrightarrow> l_tables (lsm_add_table es a) \<noteq> []"
  "l_tables a \<noteq> [] \<Longrightarrow> length (l_tables (lsm_add_table es a)) = length (l_tables a)"
  by (auto simp: lsm_add_table_def neq_Nil_conv)

lemma same_but_tables_refl: "same_but_tables db db"
  by (simp add: same_but_tables_def)

lemma same_but_tables_trans: "same_but_tables a b \<Longrightarrow> same_but_tables b c \<Longrightarrow> same_but_tables a c"
  by (simp add: same_but_tables_def)

lemma same_but_tables_trans_imm:
  "same_but_tables (a\<lparr>db_immutable := mts\<rparr>) b \<Longrightarrow> same_but_tables (b\<lparr>db_immutable := []\<rparr>) c \<Longrightarrow>
     same_but_tables (a\<lparr>db_immutable := []\<rparr>) c"
  by (simp add: same_but_tables_def)

lemma flush_immutables_rep:
  assumes "list_all2 (\<lambda>mt ops. mem_rep sm mt ops seq) mts opss"
    and "db_rep x sm (db\<lparr>db_immutable := []\<rparr>) (a\<lparr>l_imm := []\<rparr>)" and "\<forall>ops \<in> set opss. flushable ops"
    and "compression (db_options db) = Snappy \<longrightarrow> snappy_law x"
    and "fs_sound (db_fs db)" and "unat (db_next_file_number db) + length mts < 2 ^ 64" and "l_tables a \<noteq> []"
    and "mts = [] \<Longrightarrow> db_immutable db = []" and "seq = db_sequence db"
  shows "\<exists>db'. flush_immutables x sm mts db = (Ok (), db') \<and>
    db_rep x sm db' (fold (\<lambda>ops. lsm_add_table (flush_entries ops)) opss (a\<lparr>l_imm := []\<rparr>)) \<and>
    fs_sound (db_fs db') \<and> same_but_tables (db\<lparr>db_immutable := []\<rparr>) db' \<and>
    db_next_file_number db' = db_next_file_number db + of_nat (length mts)"
  using assms
proof (induction mts opss arbitrary: db a rule: list_all2_induct)
  case Nil
  then have eq: "db\<lparr>db_immutable := []\<rparr> = db" by simp
  show ?case using Nil(1,4) unfolding eq by (simp add: same_but_tables_refl)
next
  case (Cons mt mts ops opss)
  let ?db = "db\<lparr>db_immutable := mts\<rparr>" and ?es = "flush_entries ops"
  have fl: "[] \<notin> op_key ` set ops" "kv_size ?es + 8 < 2 ^ 32" using Cons.prems(2) by (simp_all add: flushable_def)
  have num: "unat (db_next_file_number ?db) + 1 < 2 ^ 64" using Cons.prems(5) by simp
  have "db_rep x sm ?db (a\<lparr>l_imm := opss\<rparr>)"
    using Cons.prems(1,8) Cons.hyps(2) by (simp add: db_rep_def)
  from flush_memtable_rep[OF this Cons.hyps(1) fl _ _ num, of] Cons.prems
  obtain r db1 where db1: "flush_memtable_to_sstable x sm mt ?db = (Ok r, db1)"
    "db_rep x sm db1 (lsm_add_table ?es (a\<lparr>l_imm := opss\<rparr>))" "fs_sound (db_fs db1)" "same_but_tables ?db db1"
    "db_next_file_number db1 = db_next_file_number db + 1" by auto
  let ?a1 = "lsm_add_table ?es (a\<lparr>l_imm := opss\<rparr>)"
  have a1: "?a1\<lparr>l_imm := []\<rparr> = lsm_add_table ?es (a\<lparr>l_imm := []\<rparr>)" by (simp add: lsm_add_table_def)
  have same: "db_sequence db1 = db_sequence db" "db_options db1 = db_options db" "db_immutable db1 = mts"
    using db1(4) by (simp_all add: same_but_tables_def)
  have "unat (db_next_file_number db1) = unat (db_next_file_number db) + 1"
    using Cons.prems(5) db1(5) by (simp add: unat_word_ariths)
  then obtain db' where "flush_immutables x sm mts db1 = (Ok (), db')"
    "db_rep x sm db' (fold (\<lambda>ops. lsm_add_table (flush_entries ops)) opss (?a1\<lparr>l_imm := []\<rparr>))"
    "fs_sound (db_fs db')" "same_but_tables (db1\<lparr>db_immutable := []\<rparr>) db'"
    "db_next_file_number db' = db_next_file_number db1 + of_nat (length mts)"
    using Cons.IH[of db1 ?a1] Cons.prems db1 same by (auto simp: db_rep_def)
  then show ?case
    using db1 same_but_tables_trans_imm[OF db1(4)] unfolding a1 by (auto simp: add_ac)
qed

section \<open>Rotating the log\<close>

text \<open>The new log is a fault-free file with what its path held before; the file of the old log is gone.\<close>

definition new_wal :: "string \<Rightarrow> bytes \<Rightarrow> WAL" where
  "new_wal path bs = \<lparr>wal_writer = \<lparr>ww_path = path, ww_writer = BufWriter_new (file_of bs), ww_file_size = of_nat (length bs)\<rparr>\<rparr>"

lemma rotate_wal_files:
  assumes "fs_sound (db_fs db)"
  defines "p \<equiv> path_join (db_path db) (wal_filename (db_wal_file_number db + 1))"
  defines "bs \<equiv> case fs_lookup (db_fs db) p of None \<Rightarrow> [] | Some b \<Rightarrow> b"
  shows "\<exists>fs'. rotate_wal db =
      (Ok (), db\<lparr>db_wal_file_number := db_wal_file_number db + 1, db_wal := new_wal p bs, db_fs := fs'\<rparr>) \<and>
    fs_sound fs' \<and> fs_dir fs' = fs_dir (db_fs db) \<and> (fs_distinct (db_fs db) \<longrightarrow> fs_distinct fs') \<and>
    fs_lookup fs' = (fs_lookup (db_fs db))(p \<mapsto> bs, WAL_path (db_wal db) := None)"
proof -
  let ?n = "db_wal_file_number db + 1"
  define db1 where "db1 = db\<lparr>db_wal_file_number := ?n, db_fs := fs_store p bs (db_fs db)\<rparr>"
  have op: "fs_do (fs_open_write False p) (db\<lparr>db_wal_file_number := ?n\<rparr>) = (Ok (file_of bs), db1)"
    using fs_open_write_sound[OF assms(1), of False p] by (simp add: fs_do_def bs_def db1_def)
  have w: "WAL_open p (Ok (file_of bs)) = Ok (new_wal p bs)"
    by (simp add: WAL_open_def WALWriter_new_def new_wal_def file_of_def)
  let ?old = "db_wal db1"
  define db2 where "db2 = set_file (WAL_path ?old) (WALWriter_drop (wal_writer ?old)) (db1\<lparr>db_wal := new_wal p bs\<rparr>)"
  have sound: "fs_sound (db_fs db2)" using assms(1) by (simp add: db2_def set_file_def db1_def)
  have ex: "fs_exists (WAL_path ?old) (db_fs db2)" by (simp add: db2_def set_file_def fs_exists_def)
  obtain fs' where fs': "fs_remove_file (WAL_path ?old) (db_fs db2) = (Ok (), fs')" "fs_sound fs'"
    "fs_lookup fs' = (fs_lookup (db_fs db2))(WAL_path ?old := None)" "fs_dir fs' = fs_dir (db_fs db2)"
    "fs_distinct (db_fs db2) \<longrightarrow> fs_distinct fs'" using fs_remove_file_sound[OF sound, of "WAL_path ?old"] by blast
  have "rotate_wal db = (Ok (), db2\<lparr>db_fs := fs'\<rparr>)"
    using op w ex fs'(1) by (simp add: rotate_wal_def Let_def remove_if_exists_def fs_do_def db2_def[symmetric] p_def[symmetric])
  then show ?thesis using fs'(2-) by (auto simp: db2_def db1_def set_file_def)
qed

lemma rotate_wal_sound:
  assumes "fs_sound (db_fs db)"
  shows "\<exists>db'. rotate_wal db = (Ok (), db') \<and> fs_sound (db_fs db') \<and>
    (\<forall>x sm a. db_rep x sm db a \<longrightarrow> db_rep x sm db' a) \<and>
    db_wal_file_number db' = db_wal_file_number db + 1 \<and> db_options db' = db_options db \<and>
    db_sequence db' = db_sequence db \<and> db_version_set db' = db_version_set db \<and> db_picker db' = db_picker db \<and>
    db_path db' = db_path db \<and> db_sstables db' = db_sstables db \<and> db_next_file_number db' = db_next_file_number db \<and>
    db_cache db' = db_cache db \<and> fault_free (ww_writer (wal_writer (db_wal db')))"
  using rotate_wal_files[OF assms] by (auto simp: db_rep_def new_wal_def BufWriter_new_def file_of_def fault_free_def)

end
