(* ===== verification/DB_Compact.thy ===== *)
theory DB_Compact
  imports DB_Flush
begin

text \<open>
  Compaction in the database: a task over the first tables of a level replaces them by their merge at
  the end of the next level, in memory, in the manifest and on disk. If the merge is empty the
  inputs stay where they are.
\<close>

section \<open>Specification\<close>

definition compact_entries :: "nat \<Rightarrow> kv list list \<Rightarrow> kv list" where
  "compact_entries lvl ts =
     map (\<lambda>k. (k, the (kept lvl (map_of (concat ts) k))))
       (sorted_list_of_set {k \<in> fst ` set (concat ts). kept lvl (map_of (concat ts) k) \<noteq> None})"

definition lsm_compact :: "nat \<Rightarrow> nat \<Rightarrow> lsm \<Rightarrow> lsm" where
  "lsm_compact n m a =
     (let es = compact_entries (n + 1) (take m (l_tables a ! n)) in
      if es = [] then a
      else a\<lparr>l_tables := (l_tables a)[n := drop m (l_tables a ! n), n + 1 := l_tables a ! (n + 1) @ [es]]\<rparr>)"

text \<open>The compaction after a flush; which level is over its size depends on the encoding of the tables.\<close>

inductive lsm_maybe_compact :: "lsm \<Rightarrow> lsm \<Rightarrow> bool" where
  no_compaction: "length (l_tables a ! 0) < MAX_LEVEL0_FILES \<Longrightarrow> lsm_maybe_compact a a"
| compact_level0: "MAX_LEVEL0_FILES \<le> length (l_tables a ! 0) \<Longrightarrow>
    lsm_maybe_compact a (lsm_compact 0 (length (l_tables a ! 0)) a)"
| compact_level: "length (l_tables a ! 0) < MAX_LEVEL0_FILES \<Longrightarrow> 1 \<le> n \<Longrightarrow> n + 1 < length (l_tables a) \<Longrightarrow>
    l_tables a ! n \<noteq> [] \<Longrightarrow> lsm_maybe_compact a (lsm_compact n 1 a)"

inductive_cases lsm_maybe_compactE: "lsm_maybe_compact a a'"

section \<open>Steps of a compaction\<close>

lemma compact_entries_unique:
  assumes "kv_sorted es" and "\<And>key. map_of es key = kept lvl (map_of (concat ts) key)"
  shows "es = compact_entries lvl ts"
proof -
  let ?m = "\<lambda>k. kept lvl (map_of (concat ts) k)"
  have "map_of (concat ts) k \<noteq> None" if "?m k \<noteq> None" for k using that by (auto simp: kept_def split: option.splits)
  then have "dom ?m = {k \<in> fst ` set (concat ts). ?m k \<noteq> None}"
    by (auto simp: dom_def map_of_eq_None_iff simp del: set_concat)
  then show ?thesis
    using kv_sorted_unique[OF assms(1), of ?m] assms(2) by (auto simp: compact_entries_def fun_eq_iff)
qed

lemma reader_number:
  assumes "named_reader rd"
  shows "SSTableReader_file_number rd = Some (sr_file_number rd)"
proof -
  obtain dir where p: "sr_path rd = path_join dir (sst_file_name (sr_file_number rd))"
    using assms by (auto simp: named_reader_def)
  have "path_file_name (sr_path rd) = Some (fmt_06 (unat (sr_file_number rd)) @ ''.sst'')"
    unfolding p sst_file_name_def
    by (rule path_file_name_join) (use fmt_06_no_slash[of "sr_file_number rd"] in \<open>auto simp: append_eq_Cons_conv\<close>)
  then show ?thesis by (simp add: SSTableReader_file_number_def strip_suffix_append parse_u64_fmt_06)
qed

lemma input_infos_ok: "\<forall>rd \<in> set rds. named_reader rd \<Longrightarrow>
  input_infos rds = Ok (map (\<lambda>rd. (sr_file_number rd, sr_path rd)) rds)"
  by (induction rds) (simp_all add: reader_number)

text \<open>The manifest is writable and has all levels.\<close>

definition manifest_ok :: "json \<Rightarrow> VersionSet \<Rightarrow> nat \<Rightarrow> bool" where
  "manifest_ok js vs n \<longleftrightarrow> (\<forall>e. \<exists>t. js_to_string js e = Inr t) \<and> length (v_levels (vs_current vs)) = n \<and>
     (\<forall>f. vs_manifest_file vs = Some f \<longrightarrow> wf_faults f = [])"

lemma VersionSet_apply_edit_ok:
  assumes "edit_in_range (length (v_levels (vs_current vs))) e"
  obtains vs' where "VersionSet_apply_edit e vs = Ok vs'" "vs_manifest_file vs' = vs_manifest_file vs"
    "length (v_levels (vs_current vs')) = length (v_levels (vs_current vs))"
  using Version_apply_files[OF assms] by (cases e) (auto simp: VersionSet_apply_edit_def intro: that)

lemma log_edit_ok:
  assumes "manifest_ok js vs n" and "edit_in_range n e"
  obtains vs' where "VersionSet_log_edit js e vs = (Ok (), vs')" "manifest_ok js vs' n"
proof -
  obtain vs1 where vs1: "VersionSet_apply_edit e vs = Ok vs1" "vs_manifest_file vs1 = vs_manifest_file vs"
    "length (v_levels (vs_current vs1)) = n" 
    using VersionSet_apply_edit_ok[of vs e] assms by (auto simp: manifest_ok_def)
  obtain t where t: "js_to_string js e = Inr t" using assms(1) by (auto simp: manifest_ok_def)
  show ?thesis
  proof (cases "vs_manifest_file vs")
    case None
    then show ?thesis using vs1 assms(1) that[of vs1] by (auto simp: VersionSet_log_edit_def manifest_ok_def)
  next
    case (Some f)
    then have "wf_faults f = []" using assms(1) by (simp add: manifest_ok_def)
    then show ?thesis
      using Some vs1 t assms(1) that[of "vs1\<lparr>vs_manifest_file := Some (f\<lparr>wf_data := wf_data f @ t @ [10]\<rparr>)\<rparr>"]
      by (auto simp: VersionSet_log_edit_def manifest_ok_def file_write_all_clean)
  qed
qed

text \<open>Logging edits changes the version set and the files, removing files only the files.\<close>

lemma log_version_edits_ok:
  assumes "manifest_ok js (db_version_set db) n" and "\<forall>e \<in> set es. edit_in_range n e" and "fs_sound (db_fs db)"
  shows "\<exists>vs fs. log_version_edits js es db = (Ok (), db\<lparr>db_version_set := vs, db_fs := fs\<rparr>) \<and>
    manifest_ok js vs n \<and> fs_sound fs"
  using assms
proof (induction es arbitrary: db)
  case Nil
  then show ?case by (intro exI[of _ "db_version_set db"] exI[of _ "db_fs db"]) simp
next
  case (Cons e es)
  obtain vs1 where vs1: "VersionSet_log_edit js e (db_version_set db) = (Ok (), vs1)" "manifest_ok js vs1 n"
    using log_edit_ok[OF Cons.prems(1)] Cons.prems(2) by auto
  define fs1 where "fs1 = (case vs_manifest_file vs1 of None \<Rightarrow> db_fs db
    | Some f \<Rightarrow> fs_store (vs_manifest_path vs1) (wf_data f) (db_fs db))"
  have fs1: "fs_sound fs1" using Cons.prems(3) by (simp add: fs1_def split: option.split)
  have step: "log_version_edit js e db = (Ok (), db\<lparr>db_version_set := vs1, db_fs := fs1\<rparr>)"
    using vs1(1) by (simp add: log_version_edit_def fs1_def)
  obtain vs fs where "log_version_edits js es (db\<lparr>db_version_set := vs1, db_fs := fs1\<rparr>) =
      (Ok (), db\<lparr>db_version_set := vs1, db_fs := fs1\<rparr>\<lparr>db_version_set := vs, db_fs := fs\<rparr>)"
    "manifest_ok js vs n" "fs_sound fs"
    using Cons.IH[of "db\<lparr>db_version_set := vs1, db_fs := fs1\<rparr>"] vs1(2) fs1 Cons.prems(2) by auto
  then show ?case using step by (intro exI[of _ vs] exI[of _ fs]) simp
qed

lemma remove_files_ok:
  assumes "fs_sound (db_fs db)"
  shows "\<exists>fs. remove_files ps db = (Ok (), db\<lparr>db_fs := fs\<rparr>) \<and> fs_sound fs"
  using assms
proof (induction ps arbitrary: db)
  case Nil
  then show ?case by (intro exI[of _ "db_fs db"]) simp
next
  case (Cons p ps)
  obtain fs1 where fs1: "remove_if_exists p db = (Ok (), db\<lparr>db_fs := fs1\<rparr>)" "fs_sound fs1"
  proof (cases "fs_exists p (db_fs db)")
    case True
    obtain fs' where "fs_remove_file p (db_fs db) = (Ok (), fs')" "fs_sound fs'"
      by (rule fs_remove_file_sound[OF Cons.prems])
    then show ?thesis using True that by (simp add: remove_if_exists_def fs_do_def)
  next
    case False
    then show ?thesis using Cons.prems that[of "db_fs db"] by (simp add: remove_if_exists_def)
  qed
  obtain fs where "remove_files ps (db\<lparr>db_fs := fs1\<rparr>) = (Ok (), db\<lparr>db_fs := fs1\<rparr>\<lparr>db_fs := fs\<rparr>)" "fs_sound fs"
    using Cons.IH[of "db\<lparr>db_fs := fs1\<rparr>"] fs1(2) by auto
  then show ?case using fs1(1) by (intro exI[of _ fs]) simp
qed

section \<open>The tables after a compaction\<close>

lemma filter_not_taken: "distinct xs \<Longrightarrow> filter (\<lambda>r. r \<notin> set (take m xs)) xs = drop m xs"
proof -
  assume "distinct xs"
  then have "set (take m xs) \<inter> set (drop m xs) = {}" by (simp add: set_take_disj_set_drop_if_distinct)
  then have "filter (\<lambda>r. r \<notin> set (take m xs)) (take m xs @ drop m xs) = drop m xs"
    unfolding filter_append by (auto simp: filter_empty_conv filter_id_conv)
  then show ?thesis by simp
qed

lemma list_all2_take_drop:
  assumes "list_all2 P xs ys"
  shows "list_all2 P (take m xs) (take m ys)" "list_all2 P (drop m xs) (drop m ys)"
  using assms by (simp_all add: list_all2_conv_all_nth)

lemma install_output_rep:
  assumes st': "list_all2 (list_all2 (table_is x store')) (db_sstables db) tss" "coherent store' cache"
      "\<forall>k \<in> dom store'. file_id k < num + 1" "table_is x store' rd es"
    and dist: "\<forall>l \<in> set (db_sstables db). distinct (map sr_file_number l)"
    and nums: "\<forall>r \<in> set (concat (db_sstables db)). sr_file_number r < num \<and> named_reader r"
    and n: "n + 1 < length tss" and rd: "sr_file_number rd = num" "unat num + 1 < 2 ^ 64" "named_reader rd"
    and task: "ct_level task = n" "ct_output_level task = n + 1" "ct_inputs task = take m (db_sstables db ! n)"
  shows "\<exists>levels. install_output task rd db = (Ok (), db\<lparr>db_sstables := levels\<rparr>) \<and>
    tables_rep x levels (num + 1) cache (tss[n := drop m (tss ! n), n + 1 := tss ! (n + 1) @ [es]])"
proof -
  let ?ls = "db_sstables db"
  have len: "length ?ls = length tss" using st'(1) by (rule list_all2_lengthD)
  have lv: "list_all2 (table_is x store') (?ls ! i) (tss ! i)" if "i < length tss" for i
    using st'(1) that len by (simp add: list_all2_conv_all_nth)
  have "distinct (map sr_file_number (?ls ! n))" using dist n len by simp
  then have flt: "filter (\<lambda>r. r \<notin> set (ct_inputs task)) (?ls ! n) = drop m (?ls ! n)"
    unfolding task(3) by (intro filter_not_taken) (simp add: distinct_map)
  define levels where "levels = ?ls[n := drop m (?ls ! n), n + 1 := ?ls ! (n + 1) @ [rd]]"
  have ins: "install_output task rd db = (Ok (), db\<lparr>db_sstables := levels\<rparr>)"
    using n len flt by (simp add: install_output_def task Let_def levels_def)
  have less: "num < num + 1" using rd(2) by (simp add: word_less_nat_alt unat_word_ariths)
  have mem: "r = rd \<or> r \<in> set (concat ?ls)" if "l \<in> set levels" "r \<in> set l" for l r
    using that n len unfolding levels_def
    by (auto dest!: subsetD[OF set_update_subset_insert] in_set_dropD simp: nth_mem)
  have "list_all2 (list_all2 (table_is x store')) levels (tss[n := drop m (tss ! n), n + 1 := tss ! (n + 1) @ [es]])"
    unfolding levels_def using n st'(1,4) lv
    by (intro list_all2_update_cong) (auto intro: list_all2_take_drop(2) list_all2_appendI)
  moreover have "distinct (map sr_file_number l)" if "l \<in> set levels" for l
  proof -
    have "l = drop m (?ls ! n) \<or> l = ?ls ! (n + 1) @ [rd] \<or> l \<in> set ?ls"
      using that unfolding levels_def by (auto dest!: subsetD[OF set_update_subset_insert])
    moreover have "num \<notin> sr_file_number ` set (?ls ! (n + 1))" using nums n len by force
    ultimately show ?thesis using dist n len rd(1) by (auto simp: drop_map[symmetric])
  qed
  moreover have "\<forall>r \<in> set (concat levels). sr_file_number r < num + 1 \<and> named_reader r"
  proof
    fix r
    assume "r \<in> set (concat levels)"
    then have "r = rd \<or> r \<in> set (concat ?ls)" using mem by auto
    then show "sr_file_number r < num + 1 \<and> named_reader r"
      using nums rd(1,3) less order.strict_trans[OF _ less] by blast
  qed
  ultimately have "tables_rep x levels (num + 1) cache (tss[n := drop m (tss ! n), n + 1 := tss ! (n + 1) @ [es]])"
    using st'(2,3) unfolding tables_rep_def by blast
  then show ?thesis using ins by blast
qed

section \<open>The whole compaction\<close>

text \<open>The job of a compaction: its output is what the abstract compaction keeps.\<close>

lemma tables_are_blocks:
  assumes "list_all2 (table_is x store) rds ts"
  obtains bss where "list_all2 (table_rep x) rds bss" "map stored_entries bss = ts"
  using assms
proof (induction arbitrary: thesis rule: list_all2_induct)
  case (Cons rd rds es ess)
  obtain bss where "list_all2 (table_rep x) rds bss" "map stored_entries bss = ess" by (rule Cons.IH)
  moreover obtain bs where "table_rep x rd bs" "stored_entries bs = es" using Cons.hyps(1) by (auto simp: table_is_def)
  ultimately show ?case by (intro Cons.prems[of "bs # bss"]) simp_all
qed simp

lemma compaction_job_rep:
  fixes dir :: string and num :: u64 and lvl :: nat
  assumes "list_all2 (table_is x store) rds ts" and "fs_sound fs" and "kv_size (concat ts) + 8 < 2 ^ 32"
  defines "path \<equiv> path_join dir (sst_file_name num)" and "es \<equiv> compact_entries lvl ts"
  obtains r fs' where "CompactionJob_run x num (CompactionJob_new rds lvl dir bsize) fs = Some (Ok r, fs')" "fs_sound fs'"
    "cr_output_path r = path"
    "if es = [] then cr_file_number r = 0
     else cr_file_number r = num \<and> (\<exists>g. fs_lookup fs' (path) = Some g \<and> opens_as x g es)"
proof -
  let ?job = "CompactionJob_new rds lvl dir bsize"
  obtain bss where bss: "list_all2 (table_rep x) rds bss" "map stored_entries bss = ts" by (rule tables_are_blocks[OF assms(1)])
  have src: "job_sources bss = concat ts" using bss(2) by (simp add: job_sources_def)
  have job: "cj_inputs ?job = rds" "cj_output_level ?job = lvl" "cj_db_path ?job = dir"
    by (simp_all add: CompactionJob_new_def)
  obtain es' r fs' where es: "kv_sorted es'" "\<forall>key. map_of es' key = kept lvl (map_of (concat ts) key)"
    and run: "CompactionJob_run x num ?job fs = Some (Ok r, fs')" "fs_sound fs'" "cr_output_path r = path"
    and out: "if es' = [] then cr_file_number r = 0 \<and> fs_lookup fs' = (fs_lookup fs)(path := None)
      else cr_file_number r = num \<and> (\<exists>g. fs_lookup fs' = (fs_lookup fs)(path \<mapsto> g) \<and> opens_as x g es')"
    using CompactionJob_run_tables[of x ?job bss fs "path" num] bss(1) assms(2,3) unfolding job src path_def by blast
  have "es' = es" using es unfolding es_def by (intro compact_entries_unique) auto
  then show ?thesis using that[OF run] out by (auto split: if_splits)
qed

text \<open>From the new table on: its bounds, the manifest, the levels, the removal of the inputs.\<close>

lemma compact_output:
  assumes tr: "tables_rep x (db_sstables db0) num (db_cache db0) tss" and man: "manifest_ok js (db_version_set db0) (length tss)"
    and num: "num = db_next_file_number db0" "0 < num" "unat num + 1 < 2 ^ 64" and n: "n + 1 < length tss"
    and task: "ct_level task = n" "ct_output_level task = n + 1" "ct_inputs task = take m (db_sstables db0 ! n)"
    and path: "path = path_join (db_path db0) (sst_file_name num)" "fs_lookup fs1 path = Some g" "opens_as x g es" "es \<noteq> []"
    and job: "CompactionJob_run x num (CompactionJob_new (ct_inputs task) (n + 1) (db_path db0) (block_size (db_options db0))) (db_fs db0) =
      Some (Ok r, fs1)" "fs_sound fs1" "cr_output_path r = path" "cr_file_number r = num"
  shows "\<exists>cache vs levels fs. compact x js task db0 = (Ok (), db0\<lparr>db_next_file_number := num + 1, db_cache := cache,
      db_version_set := vs, db_sstables := levels, db_fs := fs\<rparr>) \<and> manifest_ok js vs (length tss) \<and> fs_sound fs \<and>
    tables_rep x levels (num + 1) cache (tss[n := drop m (tss ! n), n + 1 := tss ! (n + 1) @ [es]])"
proof -
  define db where "db = db0\<lparr>db_next_file_number := num + 1, db_fs := fs1\<rparr>"
  have parts [simp]: "db_sstables db = db_sstables db0" "db_cache db = db_cache db0" "db_fs db = fs1" "db_version_set db = db_version_set db0"
    "db0\<lparr>db_next_file_number := db_next_file_number db0 + 1, db_fs := fs1\<rparr> = db" by (simp_all add: db_def num(1))
  obtain store where st: "list_all2 (list_all2 (table_is x store)) (db_sstables db0) tss"
    "coherent store (db_cache db0)" "\<forall>k \<in> dom store. file_id k < num" using tr by (auto simp: tables_rep_def)
  obtain rd bs where rd: "SSTableReader_open_with_cache x path (Ok g) True = Ok rd" "table_rep x rd bs"
    "stored_entries bs = es" "sr_file_number rd = num" "served x (table_store x rd bs) rd bs" "named_reader rd"
    by (rule opens_asE[OF path(3), of path True]) (use table_number_of_path path(1) in \<open>auto simp: named_reader_def\<close>)
  have opened: "open_table x path db = (Ok rd, db)"
    using rd(1) fs_open_read_sound[OF job(2) path(2)] by (simp add: open_table_def fs_do_def)
  obtain store' where st': "list_all2 (list_all2 (table_is x store')) (db_sstables db0) tss"
    "coherent store' (db_cache db0)" "\<forall>k \<in> dom store'. file_id k < num + 1" "table_is x store' rd es"
    by (rule store_extend[OF st rd(4) num(3) rd(2,3,5)])
  obtain bs' where bs': "table_rep x rd bs'" "stored_entries bs' = es" "served x store' rd bs'"
    using st'(4) by (auto simp: table_is_def)
  have ne: "bs' \<noteq> []" using path(4) bs'(2) by auto
  obtain cache where cache: "SSTableReader_smallest_key x rd (db_cache db0) = (Ok (Some (fst (hd es))), cache)"
    "coherent store' cache" by (rule table_smallest_key[OF bs'(1) st'(2) bs'(3)]) (simp add: ne bs'(2))
  have large: "SSTableReader_largest_key rd = Ok (Some (fst (last es)))"
    using table_largest_key[OF bs'(1)] ne bs'(2) by simp
  have named: "\<forall>r \<in> set (concat (db_sstables db0)). sr_file_number r < num \<and> named_reader r"
    and dist: "\<forall>l \<in> set (db_sstables db0). distinct (map sr_file_number l)" using tr by (simp_all add: tables_rep_def)
  have "set (ct_inputs task) \<subseteq> set (concat (db_sstables db0))"
    unfolding task(3) using n list_all2_lengthD[OF st(1)] by (auto dest!: in_set_takeD intro!: bexI[of _ "db_sstables db0 ! n"])
  then have infos: "input_infos (ct_inputs task) = Ok (map (\<lambda>rd. (sr_file_number rd, sr_path rd)) (ct_inputs task))"
    (is "_ = Ok ?infos") using named by (intro input_infos_ok) blast
  let ?edits = "AddFile (n + 1) num (sr_file_size rd) (fst (hd es)) (fst (last es)) # map (\<lambda>(k, _). DeleteFile n k) ?infos"
  obtain vs fs3 where logd: "log_version_edits js ?edits (db\<lparr>db_cache := cache\<rparr>) =
      (Ok (), db\<lparr>db_cache := cache, db_version_set := vs, db_fs := fs3\<rparr>)" "manifest_ok js vs (length tss)" "fs_sound fs3"
    using log_version_edits_ok[of js "db\<lparr>db_cache := cache\<rparr>" "length tss" ?edits] man job(2) n by auto
  let ?db4 = "db\<lparr>db_cache := cache, db_version_set := vs, db_fs := fs3\<rparr>"
  obtain levels where ins: "install_output task rd ?db4 = (Ok (), ?db4\<lparr>db_sstables := levels\<rparr>)"
    "tables_rep x levels (num + 1) cache (tss[n := drop m (tss ! n), n + 1 := tss ! (n + 1) @ [es]])"
    using install_output_rep[of x store' ?db4 tss cache num rd es n task m] st' cache(2) dist named n rd(4,6) num(3) task by auto
  obtain fs5 where rem: "remove_files (map snd ?infos) (?db4\<lparr>db_sstables := levels\<rparr>) =
      (Ok (), ?db4\<lparr>db_sstables := levels\<rparr>\<lparr>db_fs := fs5\<rparr>)" "fs_sound fs5"
    using remove_files_ok[of "?db4\<lparr>db_sstables := levels\<rparr>" "map snd ?infos"] logd(3) by auto
  have "compact x js task db0 = (Ok (), ?db4\<lparr>db_sstables := levels\<rparr>\<lparr>db_fs := fs5\<rparr>)"
    using job(1,3,4) num(1,2) opened cache(1) large infos logd(1) ins(1) rem(1)
    by (simp add: compact_def Let_def task(1,2) read_smallest_key_def del: map_map log_version_edits.simps)
  then show ?thesis using logd(2) ins(2) rem(2) by (auto simp: db_def)
qed

lemma compact_rep:
  assumes rep: "db_rep x sm db a" and fs: "fs_sound (db_fs db)"
    and man: "manifest_ok js (db_version_set db) (length (l_tables a))"
    and num: "0 < db_next_file_number db" "unat (db_next_file_number db) + 1 < 2 ^ 64"
    and n: "n + 1 < length (l_tables a)"
    and size: "kv_size (concat (take m (l_tables a ! n))) + 8 < 2 ^ 32"
    and task: "ct_level task = n" "ct_output_level task = n + 1" "ct_inputs task = take m (db_sstables db ! n)"
  shows "\<exists>db'. compact x js task db = (Ok (), db') \<and> db_rep x sm db' (lsm_compact n m a) \<and> fs_sound (db_fs db') \<and>
    manifest_ok js (db_version_set db') (length (l_tables a)) \<and> db_options db' = db_options db \<and>
    db_next_file_number db' = db_next_file_number db + 1 \<and> db_sequence db' = db_sequence db \<and>
    db_picker db' = db_picker db \<and> db_wal db' = db_wal db"
proof -
  let ?num = "db_next_file_number db" and ?ts = "take m (l_tables a ! n)"
  let ?es = "compact_entries (n + 1) ?ts" and ?path = "path_join (db_path db) (sst_file_name ?num)"
  have tr: "tables_rep x (db_sstables db) ?num (db_cache db) (l_tables a)" using rep by (simp add: db_rep_def)
  then obtain store where st: "list_all2 (list_all2 (table_is x store)) (db_sstables db) (l_tables a)"
    by (auto simp: tables_rep_def)
  have "list_all2 (table_is x store) (ct_inputs task) ?ts"
    unfolding task(3) using st n by (intro list_all2_take_drop) (simp add: list_all2_conv_all_nth)
  then obtain r fs1 where run: "CompactionJob_run x ?num (CompactionJob_new (ct_inputs task) (n + 1) (db_path db)
      (block_size (db_options db))) (db_fs db) = Some (Ok r, fs1)" "fs_sound fs1" "cr_output_path r = ?path"
    and out: "if ?es = [] then cr_file_number r = 0
      else cr_file_number r = ?num \<and> (\<exists>g. fs_lookup fs1 ?path = Some g \<and> opens_as x g ?es)"
    by (rule compaction_job_rep[OF _ fs size])
  let ?db2 = "db\<lparr>db_next_file_number := ?num + 1, db_fs := fs1\<rparr>"
  show ?thesis
  proof (cases "?es = []")
    case True
    then have "compact x js task db = (Ok (), ?db2)" using run out by (simp add: compact_def Let_def task(2))
    then show ?thesis
      using True rep tables_rep_next[OF tr num(2)] run(2) man by (auto simp: lsm_compact_def Let_def db_rep_def)
  next
    case False
    then obtain g where g: "cr_file_number r = ?num" "fs_lookup fs1 ?path = Some g" "opens_as x g ?es" using out by auto
    from compact_output[OF tr man refl num n task refl g(2,3) False run g(1)] show ?thesis
      using False rep by (auto simp: lsm_compact_def Let_def db_rep_def)
  qed
qed

section \<open>A whole flush\<close>

text \<open>A database without pending failures, whose parts agree on the number of levels.\<close>

definition db_sound :: "ext \<Rightarrow> json \<Rightarrow> 'm DB \<Rightarrow> nat \<Rightarrow> bool" where
  "db_sound x js db n \<longleftrightarrow> fs_sound (db_fs db) \<and> manifest_ok js (db_version_set db) n \<and>
     cp_max_levels (db_picker db) = n \<and> 0 < db_next_file_number db \<and>
     (compression (db_options db) = Snappy \<longrightarrow> snappy_law x)"

definition levels_small :: "lsm \<Rightarrow> bool" where
  "levels_small a \<longleftrightarrow> (\<forall>l \<in> set (l_tables a). kv_size (concat l) + 8 < 2 ^ 32)"

lemma levels_small_take: "levels_small a \<Longrightarrow> n < length (l_tables a) \<Longrightarrow> kv_size (concat (take m (l_tables a ! n))) + 8 < 2 ^ 32"
proof -
  assume "levels_small a" "n < length (l_tables a)"
  then have "kv_size (concat (l_tables a ! n)) + 8 < 2 ^ 32" by (simp add: levels_small_def)
  moreover have "concat (l_tables a ! n) = concat (take m (l_tables a ! n)) @ concat (drop m (l_tables a ! n))"
    by (metis append_take_drop_id concat_append)
  ultimately show ?thesis by simp
qed

lemma lsm_compact_levels [simp]: "length (l_tables (lsm_compact n m a)) = length (l_tables a)"
  by (simp add: lsm_compact_def Let_def)

lemma compact_sound:
  assumes rep: "db_rep x sm db a" and snd: "db_sound x js db (length (l_tables a))" and small: "levels_small a"
    and num: "unat (db_next_file_number db) + 1 < 2 ^ 64" and n: "n + 1 < length (l_tables a)"
    and task: "ct_level task = n" "ct_output_level task = n + 1" "ct_inputs task = take m (db_sstables db ! n)"
  shows "\<exists>db'. compact x js task db = (Ok (), db') \<and> db_rep x sm db' (lsm_compact n m a) \<and>
    db_sound x js db' (length (l_tables a)) \<and> db_sequence db' = db_sequence db \<and> db_options db' = db_options db \<and>
    unat (db_next_file_number db') \<le> unat (db_next_file_number db) + 1 \<and> db_wal db' = db_wal db"
proof -
  have s: "fs_sound (db_fs db)" "manifest_ok js (db_version_set db) (length (l_tables a))" "0 < db_next_file_number db"
    using snd by (simp_all add: db_sound_def)
  have "unat (db_next_file_number db + 1) = unat (db_next_file_number db) + 1" using num by (simp add: unat_word_ariths)
  then have "0 < db_next_file_number db + 1" "unat (db_next_file_number db + 1) \<le> unat (db_next_file_number db) + 1"
    by (simp_all add: word_less_nat_alt)
  then show ?thesis
    using compact_rep[OF rep s(1,2,3) num n levels_small_take[OF small] task] n snd by (auto simp: db_sound_def)
qed

text \<open>What the picker selects is a compaction of the abstract store.\<close>

lemma pick_rep:
  assumes rep: "db_rep x sm db a" and max: "cp_max_levels (db_picker db) = length (l_tables a)" and two: "2 \<le> length (l_tables a)"
  shows "\<exists>r. pick_compaction (db_picker db) (db_sstables db) = Ok r \<and> (case r of
      None \<Rightarrow> lsm_maybe_compact a a
    | Some t \<Rightarrow> ct_level t + 1 < length (l_tables a) \<and> ct_output_level t = ct_level t + 1 \<and>
        (\<exists>m. ct_inputs t = take m (db_sstables db ! ct_level t) \<and> lsm_maybe_compact a (lsm_compact (ct_level t) m a)))"
proof -
  have len: "length (db_sstables db) = length (l_tables a)"
    using rep by (auto simp: db_rep_def tables_rep_def dest: list_all2_lengthD)
  have lens: "length (db_sstables db ! i) = length (l_tables a ! i)" if "i < length (l_tables a)" for i
    using rep that len by (auto simp: db_rep_def tables_rep_def list_all2_conv_all_nth)
  have ne: "db_sstables db \<noteq> []" "l_tables a \<noteq> []" using two len by auto
  then have l0: "length (db_sstables db ! 0) = length (l_tables a ! 0)" using lens[of 0] by simp
  show ?thesis
  proof (cases "MAX_LEVEL0_FILES \<le> length (l_tables a ! 0)")
    case True
    then have "db_sstables db ! 0 \<noteq> []" using l0 by (auto simp: MAX_LEVEL0_FILES_def)
    then have "pick_compaction (db_picker db) (db_sstables db) = Ok (Some \<lparr>ct_inputs = db_sstables db ! 0, ct_level = 0, ct_output_level = 1\<rparr>)"
      using ne True l0 by (simp add: pick_compaction_def pick_level0_compaction_def)
    then show ?thesis using compact_level0[OF True] l0 two by (auto intro!: exI[of _ "length (l_tables a ! 0)"])
  next
    case False
    have "pick_compaction (db_picker db) (db_sstables db) = pick_levels_loop (db_sstables db) (length (db_sstables db) - 1) 1"
      using False len l0 two max by (auto simp: pick_compaction_def)
    moreover obtain r where r: "pick_levels_loop (db_sstables db) (length (db_sstables db) - 1) 1 = Ok r"
      "case r of None \<Rightarrow> True | Some t \<Rightarrow> 1 \<le> ct_level t \<and> ct_level t < length (db_sstables db) - 1 \<and>
        ct_output_level t = ct_level t + 1 \<and> db_sstables db ! ct_level t \<noteq> [] \<and>
        ct_inputs t = [db_sstables db ! ct_level t ! 0]"
      using pick_levels_loop_spec[of "length (db_sstables db) - 1" "db_sstables db" 1] by (fastforce split: option.splits)
    moreover have "lsm_maybe_compact a (lsm_compact (ct_level t) 1 a)" if "r = Some t" for t
    proof -
      have "ct_level t < length (l_tables a)" using r(2) that len by auto
      from lens[OF this] show ?thesis using r(2) that False len by (intro compact_level) auto
    qed
    ultimately show ?thesis
      using no_compaction[of a] False len by (cases r) (auto simp: neq_Nil_conv intro!: exI[of _ 1])
  qed
qed

lemma maybe_trigger_rep:
  assumes rep: "db_rep x sm db a" and snd: "db_sound x js db (length (l_tables a))" and two: "2 \<le> length (l_tables a)"
    and small: "levels_small a" and num: "unat (db_next_file_number db) + 1 < 2 ^ 64"
  shows "\<exists>db' a'. maybe_trigger_compaction x js db = (Ok (), db') \<and> lsm_maybe_compact a a' \<and> db_rep x sm db' a' \<and>
    db_sound x js db' (length (l_tables a')) \<and> db_sequence db' = db_sequence db \<and> db_options db' = db_options db \<and>
    unat (db_next_file_number db') \<le> unat (db_next_file_number db) + 1 \<and> db_wal db' = db_wal db"
proof -
  have "cp_max_levels (db_picker db) = length (l_tables a)" using snd by (simp add: db_sound_def)
  from pick_rep[OF rep this two] obtain r where pick: "pick_compaction (db_picker db) (db_sstables db) = Ok r"
    and r: "case r of None \<Rightarrow> lsm_maybe_compact a a | Some t \<Rightarrow> ct_level t + 1 < length (l_tables a) \<and> ct_output_level t = ct_level t + 1 \<and>
      (\<exists>m. ct_inputs t = take m (db_sstables db ! ct_level t) \<and> lsm_maybe_compact a (lsm_compact (ct_level t) m a))" by blast
  show ?thesis
  proof (cases r)
    case None
    then show ?thesis using pick r rep snd by (auto simp: maybe_trigger_compaction_def)
  next
    case (Some t)
    then obtain m where t: "ct_level t + 1 < length (l_tables a)" "ct_output_level t = ct_level t + 1"
      "ct_inputs t = take m (db_sstables db ! ct_level t)" "lsm_maybe_compact a (lsm_compact (ct_level t) m a)" using r by auto
    from compact_sound[OF rep snd small num t(1) refl t(2,3)] show ?thesis
      using pick Some t(4) by (auto simp: maybe_trigger_compaction_def intro!: exI[of _ "lsm_compact (ct_level t) m a"])
  qed
qed

lemma is_empty_rep:
  assumes "skip_map sm" and "mem_rep sm mt ops seq"
  shows "MemTable_is_empty sm mt \<longleftrightarrow> ops = []"
proof -
  have "MemTable_is_empty sm mt \<longleftrightarrow> MemTable_iter sm mt = []"
    by (simp add: MemTable_is_empty_def MemTable_iter_def skip_map.is_empty_iter[OF assms(1)])
  also have "\<dots> \<longleftrightarrow> (\<forall>key. first_version (MemTable_iter sm mt) key = None)"
    by (cases "MemTable_iter sm mt") (auto simp: first_version_def)
  also have "\<dots> \<longleftrightarrow> ops = []" using assms(2) last_op_keys[of ops] by (auto simp: mem_rep_def)
  finally show ?thesis .
qed

lemma lsm_flush_levels: "l_tables a \<noteq> [] \<Longrightarrow> length (l_tables (lsm_flush a)) = length (l_tables a)"
proof -
  have "length (l_tables (fold (\<lambda>ops. lsm_add_table (flush_entries ops)) opss b)) = length (l_tables b)"
    if "l_tables b \<noteq> []" for opss b
    using that by (induction opss arbitrary: b) simp_all
  then show "l_tables a \<noteq> [] \<Longrightarrow> length (l_tables (lsm_flush a)) = length (l_tables a)"
    by (auto simp: lsm_flush_def Let_def lsm_freeze_def)
qed

lemma DB_flush_rep:
  assumes sm: "skip_map sm" and rep: "db_rep x sm db a" and snd: "db_sound x js db (length (l_tables a))"
    and two: "2 \<le> length (l_tables a)" and fl: "\<forall>ops \<in> set (l_mem a # l_imm a). flushable ops"
    and small: "levels_small (lsm_flush a)" and num: "unat (db_next_file_number db) + length (l_imm a) + 3 < 2 ^ 64"
  shows "\<exists>db' a'. DB_flush x js sm db = (Ok (), db') \<and> lsm_maybe_compact (lsm_flush a) a' \<and> db_rep x sm db' a' \<and>
    db_sound x js db' (length (l_tables a')) \<and> db_sequence db' = db_sequence db \<and> db_options db' = db_options db \<and>
    unat (db_next_file_number db') \<le> unat (db_next_file_number db) + length (l_imm a) + 2 \<and> fault_free (ww_writer (wal_writer (db_wal db')))"
proof -
  define a1 where "a1 = (if l_mem a = [] then a else lsm_freeze a)"
  define db1 where "db1 = (if MemTable_is_empty sm (db_memtable db) then db else snd (freeze_memtable sm db))"
  have empty: "MemTable_is_empty sm (db_memtable db) \<longleftrightarrow> l_mem a = []"
    using is_empty_rep[OF sm] rep by (auto simp: db_rep_def)
  have frz: "(if MemTable_is_empty sm (db_memtable db) then (Ok (), db) else freeze_memtable sm db) = (Ok (), db1)"
    by (simp add: db1_def freeze_memtable_def)
  have rep1: "db_rep x sm db1 a1" using rep freeze_rep[OF sm rep] empty by (auto simp: a1_def db1_def freeze_memtable_def)
  have same1: "db_sequence db1 = db_sequence db" "db_options db1 = db_options db" "db_fs db1 = db_fs db"
    "db_next_file_number db1 = db_next_file_number db" "db_version_set db1 = db_version_set db" "db_picker db1 = db_picker db"
    by (simp_all add: db1_def freeze_memtable_def)
  have imm: "length (l_imm a1) \<le> length (l_imm a) + 1" "\<forall>ops \<in> set (l_imm a1). flushable ops"
    "l_tables a1 = l_tables a" using fl by (auto simp: a1_def lsm_freeze_def)
  have s: "fs_sound (db_fs db1)" "compression (db_options db1) = Snappy \<longrightarrow> snappy_law x"
    using snd same1 by (simp_all add: db_sound_def)
  have mts: "list_all2 (\<lambda>mt ops. mem_rep sm mt ops (db_sequence db1)) (db_immutable db1) (l_imm a1)"
    "length (db_immutable db1) = length (l_imm a1)" using rep1 by (auto simp: db_rep_def dest: list_all2_lengthD)
  have base: "db_rep x sm (db1\<lparr>db_immutable := []\<rparr>) (a1\<lparr>l_imm := []\<rparr>)" using rep1 by (simp add: db_rep_def)
  have room: "unat (db_next_file_number db1) + length (db_immutable db1) + 1 < 2 ^ 64" using num imm(1) mts(2) same1(4) by simp
  have ne: "l_tables a \<noteq> []" using two by auto
  obtain db2 where db2: "flush_immutables x sm (db_immutable db1) db1 = (Ok (), db2)"
    "db_rep x sm db2 (lsm_flush a)" "fs_sound (db_fs db2)" "same_but_tables (db1\<lparr>db_immutable := []\<rparr>) db2"
    "db_next_file_number db2 = db_next_file_number db1 + of_nat (length (db_immutable db1))"
    using flush_immutables_rep[OF mts(1) base imm(2) s(2,1) _ _ _ refl] room ne imm(3)
    by (auto simp: lsm_flush_def Let_def a1_def[symmetric])
  note len = lsm_flush_levels[OF ne]
  obtain db3 where db3: "rotate_wal db2 = (Ok (), db3)" "fs_sound (db_fs db3)" "db_rep x sm db3 (lsm_flush a)"
    "db_options db3 = db_options db2" "db_sequence db3 = db_sequence db2" "db_version_set db3 = db_version_set db2"
    "db_picker db3 = db_picker db2" "db_next_file_number db3 = db_next_file_number db2" "fault_free (ww_writer (wal_writer (db_wal db3)))"
    using rotate_wal_sound[OF db2(3)] db2(2) by blast
  have n3: "unat (db_next_file_number db3) = unat (db_next_file_number db) + length (db_immutable db1)"
    using room db3(8) db2(5) same1(4) by (simp add: unat_word_ariths unat_of_nat)
  have same2: "db_options db2 = db_options db" "db_sequence db2 = db_sequence db" "db_version_set db2 = db_version_set db"
    "db_picker db2 = db_picker db" using db2(4) same1 by (simp_all add: same_but_tables_def)
  have "0 < unat (db_next_file_number db)" using snd by (simp add: db_sound_def word_less_nat_alt)
  then have "0 < db_next_file_number db3" using n3 by (simp add: word_less_nat_alt)
  then have snd3: "db_sound x js db3 (length (l_tables (lsm_flush a)))"
    using snd db3 same2 len by (simp add: db_sound_def)
  have "DB_flush x js sm db = maybe_trigger_compaction x js db3"
    using frz db2(1) db3(1) by (simp add: DB_flush_def)
  moreover obtain db' a' where "maybe_trigger_compaction x js db3 = (Ok (), db')" "lsm_maybe_compact (lsm_flush a) a'"
    "db_rep x sm db' a'" "db_sound x js db' (length (l_tables a'))" "db_sequence db' = db_sequence db3"
    "db_options db' = db_options db3" "unat (db_next_file_number db') \<le> unat (db_next_file_number db3) + 1" "db_wal db' = db_wal db3"
    using maybe_trigger_rep[OF db3(3) snd3 _ small] two len n3 room same1(4) by auto
  ultimately show ?thesis
    using n3 same2 db3(4,5,9) imm(1) mts(2) by (intro exI[of _ db'] exI[of _ a']) simp
qed

end
