(* ===== verification/DB_Calls.thy ===== *)
theory DB_Calls
  imports DB_Compact
begin

text \<open>
  Sequences of write calls. A sequence extends the abstract store by its operations, cut into
  consecutive runs where a memtable was frozen; the sequence number counts the operations.
\<close>

section \<open>Definitions\<close>

datatype call = Put_call bytes bytes | Delete_call bytes | Write_call WriteBatch

fun call_ops :: "call \<Rightarrow> WriteOp list" where
  "call_ops (Put_call key v) = [Put key v]"
| "call_ops (Delete_call key) = [Delete key]"
| "call_ops (Write_call batch) = operations batch"

fun DB_call :: "ext \<Rightarrow> 'm SkipMap \<Rightarrow> call \<Rightarrow> 'm DB \<Rightarrow> unit res \<times> 'm DB" where
  "DB_call x sm (Put_call key v) db = DB_put x sm key v db"
| "DB_call x sm (Delete_call key) db = DB_delete x sm key db"
| "DB_call x sm (Write_call batch) db = DB_write x sm batch db"

text \<open>A client that stops at the first error.\<close>

fun DB_calls :: "ext \<Rightarrow> 'm SkipMap \<Rightarrow> call list \<Rightarrow> 'm DB \<Rightarrow> unit res \<times> 'm DB" where
  "DB_calls x sm [] db = (Ok (), db)"
| "DB_calls x sm (c # cs) db = try_st (DB_call x sm c db) (\<lambda>_. DB_calls x sm cs)"

abbreviation calls_ops :: "call list \<Rightarrow> WriteOp list" where
  "calls_ops cs \<equiv> concat (map call_ops cs)"

text \<open>The store after some operations: the memtable and what follows it are cut into parts.\<close>

definition lsm_extends :: "WriteOp list \<Rightarrow> lsm \<Rightarrow> lsm \<Rightarrow> bool" where
  "lsm_extends ops a a' \<longleftrightarrow> l_tables a' = l_tables a \<and>
     (\<exists>parts. parts \<noteq> [] \<and> l_imm a' @ [l_mem a'] = l_imm a @ parts \<and> concat parts = l_mem a @ ops)"

section \<open>What a call does\<close>

text \<open>Every call logs its operations, applies them, and may then freeze the memtable.\<close>

definition apply_and_freeze :: "'m SkipMap \<Rightarrow> WriteOp list \<Rightarrow> u64 \<Rightarrow> 'm DB \<Rightarrow> 'm DB \<Rightarrow> bool" where
  "apply_and_freeze sm ops base_seq db db' \<longleftrightarrow>
     (let db1 = db\<lparr>db_memtable := MemTable_apply_all sm ops base_seq (db_memtable db)\<rparr> in
      db' = db1 \<or> db' = snd (freeze_memtable sm db1))"

lemma freeze_if_full_cases: "fst (freeze_if_full sm db) = Ok () \<and> (snd (freeze_if_full sm db) = db \<or>
    snd (freeze_if_full sm db) = snd (freeze_memtable sm db))"
  by (simp add: freeze_if_full_def freeze_memtable_def)

lemma DB_call_cases:
  assumes "DB_call x sm c db = (r, db')"
  obtains (empty) "call_ops c = []" "r = Ok ()" "db' = db"
  | (logged) db1 where "log_ops x (call_ops c) (db\<lparr>db_sequence := db_sequence db + of_nat (length (call_ops c))\<rparr>) = (Ok (), db1)"
      "r = Ok ()" "apply_and_freeze sm (call_ops c) (db_sequence db + 1) db1 db'"
  | (failed) "log_ops x (call_ops c) (db\<lparr>db_sequence := db_sequence db + of_nat (length (call_ops c))\<rparr>) = (r, db')"
      "r \<noteq> Ok ()"
proof -
  obtain q db1 where log: "log_ops x (call_ops c) (db\<lparr>db_sequence := db_sequence db + of_nat (length (call_ops c))\<rparr>) = (q, db1)"
    by fastforce
  let ?db2 = "db1\<lparr>db_memtable := MemTable_apply_all sm (call_ops c) (db_sequence db + 1) (db_memtable db1)\<rparr>"
  note frz = freeze_if_full_cases[of sm ?db2]
  show ?thesis
  proof (cases "call_ops c = [] \<and> (\<exists>b. c = Write_call b)")
    case True
    then show ?thesis using assms empty by (auto simp: DB_write_def WriteBatch_is_empty_def)
  next
    case False
    show ?thesis
    proof (cases "q = Ok ()")
      case True
      have "r = Ok () \<and> apply_and_freeze sm (call_ops c) (db_sequence db + 1) db1 db'"
      proof (cases c)
        case (Put_call key v)
        then have "DB_put x sm key v db = freeze_if_full sm ?db2" using log True by (simp add: DB_put_def Let_def)
        then show ?thesis using frz assms Put_call by (auto simp: apply_and_freeze_def Let_def)
      next
        case (Delete_call key)
        then show ?thesis
          using log True assms by (auto simp: DB_delete_def Let_def apply_and_freeze_def)
      next
        case (Write_call batch)
        then have "DB_write x sm batch db = freeze_if_full sm ?db2"
          using log True False by (simp add: DB_write_def WriteBatch_is_empty_def WriteBatch_iter_def WriteBatch_len_def Let_def)
        then show ?thesis using frz assms Write_call by (auto simp: apply_and_freeze_def Let_def)
      qed
      then show ?thesis using logged log True by blast
    next
      case err: False
      have "r = q \<and> db' = db1"
        using log err assms False
        by (cases c; cases q) (auto simp: DB_put_def DB_delete_def DB_write_def WriteBatch_is_empty_def WriteBatch_iter_def
            WriteBatch_len_def Let_def)
      then show ?thesis using failed log err by blast
    qed
  qed
qed

lemma apply_and_freeze_fields:
  "apply_and_freeze sm ops base_seq db db' \<Longrightarrow> db_sequence db' = db_sequence db \<and> db_options db' = db_options db \<and>
     db_wal db' = db_wal db \<and> db_fs db' = db_fs db \<and> db_path db' = db_path db \<and> db_sstables db' = db_sstables db \<and>
     db_cache db' = db_cache db \<and> db_picker db' = db_picker db \<and> db_version_set db' = db_version_set db \<and>
     db_next_file_number db' = db_next_file_number db \<and> db_wal_file_number db' = db_wal_file_number db"
  by (auto simp: apply_and_freeze_def freeze_memtable_def Let_def)

lemma DB_call_fields:
  assumes "DB_call x sm c db = (r, db')"
  shows "db_sequence db' = db_sequence db + of_nat (length (call_ops c))" and "db_options db' = db_options db"
    and "db_path db' = db_path db"
proof -
  let ?db0 = "db\<lparr>db_sequence := db_sequence db + of_nat (length (call_ops c))\<rparr>"
  have "db_sequence db' = db_sequence ?db0 \<and> db_options db' = db_options ?db0 \<and> db_path db' = db_path ?db0"
    using assms
  proof (cases rule: DB_call_cases)
    case empty
    then show ?thesis by simp
  next
    case (logged db1)
    then show ?thesis
      using log_ops_data[OF logged(1)] apply_and_freeze_fields[OF logged(3)] by (simp add: same_data_def)
  next
    case failed
    then show ?thesis using log_ops_data[OF failed(1)] by (simp add: same_data_def)
  qed
  then show "db_sequence db' = db_sequence db + of_nat (length (call_ops c))" "db_options db' = db_options db"
    "db_path db' = db_path db" by simp_all
qed

text \<open>Induction over a run of calls: it is empty, its first call succeeds, or its first call fails and ends it.\<close>

lemma DB_calls_induct [consumes 1, case_names none step stop]:
  assumes "DB_calls x sm cs db = (r, db')"
    and none: "\<And>db. P [] db (Ok ()) db"
    and step: "\<And>c cs db db1 r db'. DB_call x sm c db = (Ok (), db1) \<Longrightarrow> P cs db1 r db' \<Longrightarrow> P (c # cs) db r db'"
    and stop: "\<And>c cs db r db'. DB_call x sm c db = (r, db') \<Longrightarrow> r \<noteq> Ok () \<Longrightarrow> P (c # cs) db r db'"
  shows "P cs db r db'"
  using assms(1)
proof (induction cs arbitrary: db)
  case Nil
  then show ?case using none by simp
next
  case (Cons c cs)
  obtain q db1 where c: "DB_call x sm c db = (q, db1)" by fastforce
  show ?case
  proof (cases "q = Ok ()")
    case True
    then show ?thesis using Cons c step by simp
  next
    case False
    then have "r = q \<and> db' = db1" using Cons.prems c by (cases q) auto
    then show ?thesis using stop[OF c False] by simp
  qed
qed

lemma DB_call_room:
  assumes "DB_call x sm c db = (r, db1)" and "unat (db_sequence db) + length (calls_ops (c # cs)) < 2 ^ 64"
  shows "unat (db_sequence db) + length (call_ops c) < 2 ^ 64" and "unat (db_sequence db1) + length (calls_ops cs) < 2 ^ 64"
    and "db_sequence db \<le> db_sequence db1"
proof -
  show room: "unat (db_sequence db) + length (call_ops c) < 2 ^ 64" using assms(2) by simp
  then have "unat (db_sequence db1) = unat (db_sequence db) + length (call_ops c)"
    using DB_call_fields(1)[OF assms(1)] by (simp add: unat_word_ariths unat_of_nat)
  then show "unat (db_sequence db1) + length (calls_ops cs) < 2 ^ 64" "db_sequence db \<le> db_sequence db1"
    using assms(2) by (simp_all add: word_le_nat_alt)
qed

section \<open>Refinement\<close>

lemma DB_call_mems:
  assumes sm: "skip_map sm" and rep: "mems_rep sm db a" and room: "unat (db_sequence db) + length (call_ops c) < 2 ^ 64"
    and run: "DB_call x sm c db = (r, db')"
  shows "if r = Ok () then \<exists>a'. lsm_written (call_ops c) a a' \<and> mems_rep sm db' a' else mems_rep sm db' a"
  using run
proof (cases rule: DB_call_cases)
  case empty
  then show ?thesis using rep by (auto simp: lsm_written_def lsm_append_def)
next
  case (logged db1)
  note w = write_ops_mems[OF sm rep room logged(1)]
  then show ?thesis using logged(2,3) freeze_mems[OF sm w(2)] by (auto simp: apply_and_freeze_def lsm_written_def Let_def)
next
  case failed
  then show ?thesis using write_ops_mems(1)[OF sm rep room failed(1)] by simp
qed

text \<open>No write call touches the tables.\<close>

lemma DB_call_tables:
  assumes "DB_call x sm c db = (r, db')"
  shows "db_sstables db' = db_sstables db \<and> db_cache db' = db_cache db \<and> db_next_file_number db' = db_next_file_number db"
  using assms
proof (cases rule: DB_call_cases)
  case (logged db1)
  then show ?thesis using log_ops_data[OF logged(1)] apply_and_freeze_fields[OF logged(3)] by (simp add: same_data_def)
qed (auto dest: log_ops_data simp: same_data_def)

lemma DB_call_rep:
  assumes sm: "skip_map sm" and rep: "db_rep x sm db a" and room: "unat (db_sequence db) + length (call_ops c) < 2 ^ 64"
    and run: "DB_call x sm c db = (r, db')"
  shows "if r = Ok () then \<exists>a'. lsm_written (call_ops c) a a' \<and> db_rep x sm db' a' else db_rep x sm db' a"
proof -
  have "l_tables a' = l_tables a" if "lsm_written (call_ops c) a a'" for a'
    using that by (auto simp: lsm_written_def lsm_append_def lsm_freeze_def)
  moreover have "mems_rep sm db a" using rep by (simp add: db_rep_split)
  ultimately show ?thesis
    using DB_call_mems[OF sm _ room run] rep DB_call_tables[OF run] unfolding db_rep_split by (metis (full_types))
qed

lemma lsm_extends_Nil [simp]: "lsm_extends [] a a"
  by (auto simp: lsm_extends_def intro: exI[of _ "[l_mem a]"])

lemma lsm_extends_written:
  assumes "lsm_written ops a b" and "lsm_extends ops' b c"
  shows "lsm_extends (ops @ ops') a c"
proof -
  obtain parts where parts: "parts \<noteq> []" "l_imm c @ [l_mem c] = l_imm b @ parts" "concat parts = l_mem b @ ops'"
    "l_tables c = l_tables b" using assms(2) by (auto simp: lsm_extends_def)
  consider "b = lsm_append ops a" | "b = lsm_freeze (lsm_append ops a)" using assms(1) by (auto simp: lsm_written_def)
  then show ?thesis
  proof cases
    case 1
    then show ?thesis using parts by (auto simp: lsm_extends_def lsm_append_def)
  next
    case 2
    then show ?thesis
      using parts unfolding lsm_extends_def lsm_append_def lsm_freeze_def
      by (intro conjI exI[of _ "(l_mem a @ ops) # parts"]) simp_all
  qed
qed

lemma DB_calls_mems:
  assumes sm: "skip_map sm" and "mems_rep sm db a" and "unat (db_sequence db) + length (calls_ops cs) < 2 ^ 64"
    and run: "DB_calls x sm cs db = (r, db')"
  shows "\<exists>k a'. k \<le> length cs \<and> (r = Ok () \<longleftrightarrow> k = length cs) \<and> lsm_extends (calls_ops (take k cs)) a a' \<and> mems_rep sm db' a'"
  using run assms(2,3)
proof (induction arbitrary: a rule: DB_calls_induct)
  case (none db)
  then show ?case by (intro exI[of _ 0] exI[of _ a]) simp
next
  case (step c cs db db1 r db')
  note room = DB_call_room[OF step.hyps step.prems(2)]
  obtain b where b: "lsm_written (call_ops c) a b" "mems_rep sm db1 b"
    using DB_call_mems[OF sm step.prems(1) room(1) step.hyps] by auto
  from step.IH[OF b(2) room(2)] obtain k a' where k: "k \<le> length cs" "(r = Ok ()) = (k = length cs)"
    "lsm_extends (calls_ops (take k cs)) b a'" "mems_rep sm db' a'" by blast
  then show ?case using lsm_extends_written[OF b(1) k(3)] by (intro exI[of _ "Suc k"] exI[of _ a']) simp
next
  case (stop c cs db r db')
  then have "mems_rep sm db' a" using DB_call_mems[OF sm stop.prems(1) DB_call_room(1)[OF stop(1) stop.prems(2)] stop(1)] by simp
  then show ?case using stop(2) by (intro exI[of _ 0] exI[of _ a]) simp
qed

lemma DB_calls_tables: "DB_calls x sm cs db = (r, db') \<Longrightarrow>
    db_sstables db' = db_sstables db \<and> db_cache db' = db_cache db \<and> db_next_file_number db' = db_next_file_number db"
  by (induction rule: DB_calls_induct) (auto dest: DB_call_tables)

lemma DB_calls_rep:
  assumes "skip_map sm" and "db_rep x sm db a" and "unat (db_sequence db) + length (calls_ops cs) < 2 ^ 64"
    and run: "DB_calls x sm cs db = (r, db')"
  shows "\<exists>k a'. k \<le> length cs \<and> (r = Ok () \<longleftrightarrow> k = length cs) \<and> lsm_extends (calls_ops (take k cs)) a a' \<and> db_rep x sm db' a'"
  using DB_calls_mems[OF assms(1) _ assms(3) run] assms(2) DB_calls_tables[OF run] unfolding db_rep_split lsm_extends_def by metis

section \<open>Reading a store\<close>

lemma mem_lookup_append:
  assumes "\<forall>op \<in> set ops'. \<exists>k v. op = Put k v"
  shows "mem_lookup (ops @ ops') key = (case mem_lookup ops' key of Some v \<Rightarrow> Some v | None \<Rightarrow> mem_lookup ops key)"
  using assms
proof (induction ops' rule: rev_induct)
  case Nil
  then show ?case by (simp add: mem_lookup_def)
next
  case (snoc op ops')
  then obtain k v where "op = Put k v" by auto
  then show ?case using snoc by (auto simp: mem_lookup_def simp flip: append_assoc)
qed

text \<open>The runs together are a map if no operation is a deletion.\<close>

lemma first_some_runs:
  assumes "\<forall>op \<in> set (concat parts). \<exists>k v. op = Put k v"
  shows "first_some (map (\<lambda>ops. mem_lookup ops key) (rev parts)) = mem_lookup (concat parts) key"
  using assms
proof (induction parts rule: rev_induct)
  case Nil
  then show ?case by (simp add: mem_lookup_def)
next
  case (snoc ops parts)
  then show ?case by (simp add: mem_lookup_append split: option.split)
qed

lemma lsm_get_runs:
  assumes "l_imm a @ [l_mem a] = parts"
  shows "lsm_get a key = first_some (map (\<lambda>ops. mem_lookup ops key) (rev parts) @
    map (\<lambda>es. sst_lookup es key) (concat (map rev (l_tables a))))"
  by (simp add: lsm_get_def flip: assms)

section \<open>Reading at an older sequence number\<close>

definition mem_read :: "'m SkipMap \<Rightarrow> bytes \<Rightarrow> u64 \<Rightarrow> 'm DB \<Rightarrow> bytes option" where
  "mem_read sm key m db = first_some (map (\<lambda>mt. MemTable_get sm mt key m) (db_memtable db # rev (db_immutable db)))"

lemma search_memtables_first: "search_memtables sm key m mts = first_some (map (\<lambda>mt. MemTable_get sm mt key m) mts)"
  by (induction mts) (simp_all split: option.split)

lemma get_at_sequence_split:
  "fst (DB_get_at_sequence x sm key m db) =
     (case mem_read sm key m db of Some v \<Rightarrow> Ok (Some v) | None \<Rightarrow> fst (search_levels x key (db_sstables db) (db_cache db)))"
  by (auto simp: DB_get_at_sequence_def mem_read_def search_memtables_first split: option.splits prod.splits)

lemma get_apply_all_later:
  assumes sm: "skip_map sm" and "mem_rep sm mt ops seq" and "unat seq + length new < 2 ^ 64" and "m \<le> seq"
  shows "MemTable_get sm (MemTable_apply_all sm new (seq + 1) mt) key m = MemTable_get sm mt key m"
  using assms(2-)
proof (induction new arbitrary: mt ops seq)
  case (Cons op new)
  have s: "unat (seq + 1) = unat seq + 1" using Cons.prems(2) by (simp add: unat_word_ariths)
  then have lt: "seq < seq + 1" "m < seq + 1" using Cons.prems(3) by (simp_all add: word_less_nat_alt word_le_nat_alt)
  have "sorted_entries (MemTable_iter sm mt)" "\<And>e. e \<in> set (MemTable_iter sm mt) \<Longrightarrow> sequence (fst e) < seq + 1"
    using Cons.prems(1) lt(1) by (auto simp: mem_rep_def intro: le_less_trans)
  then have "MemTable_get sm (MemTable_apply sm op (seq + 1) mt) key m = MemTable_get sm mt key m"
    using skip_map.get_apply[OF sm, of mt "seq + 1" op key m] lt(2) by (simp add: not_le[symmetric])
  then show ?case
    using Cons.IH[OF mem_rep_apply[OF sm Cons.prems(1) lt(1)]] Cons.prems(2) lt(2) s by simp
qed simp

lemma DB_call_mem_read:
  assumes sm: "skip_map sm" and rep: "db_rep x sm db a" and room: "unat (db_sequence db) + length (call_ops c) < 2 ^ 64"
    and run: "DB_call x sm c db = (r, db')" and m: "m \<le> db_sequence db"
  shows "mem_read sm key m db' = mem_read sm key m db \<and> db_sstables db' = db_sstables db \<and> db_cache db' = db_cache db"
  using run
proof (cases rule: DB_call_cases)
  case empty
  then show ?thesis by simp
next
  case (logged db1)
  have same: "db_memtable db1 = db_memtable db" "db_immutable db1 = db_immutable db" "db_sstables db1 = db_sstables db"
    "db_cache db1 = db_cache db" using log_ops_data[OF logged(1)] by (simp_all add: same_data_def)
  have "MemTable_get sm (MemTable_apply_all sm (call_ops c) (db_sequence db + 1) (db_memtable db)) key m =
      MemTable_get sm (db_memtable db) key m"
    using get_apply_all_later[OF sm _ room m] rep by (auto simp: db_rep_def)
  moreover have "MemTable_get sm (MemTable_new sm s) key m = None" for s
    by (simp add: skip_map.get_eq_scan[OF sm] skip_map.iter_new_MemTable[OF sm])
  ultimately show ?thesis
    using logged(3)[unfolded apply_and_freeze_def Let_def] same
    by (elim disjE) (simp_all add: freeze_memtable_def mem_read_def)
next
  case failed
  then show ?thesis using log_ops_data[OF failed(1)] by (simp add: same_data_def mem_read_def)
qed

lemma DB_calls_mem_read:
  assumes sm: "skip_map sm" and "db_rep x sm db a" and "unat (db_sequence db) + length (calls_ops cs) < 2 ^ 64"
    and run: "DB_calls x sm cs db = (r, db')" and "m \<le> db_sequence db"
  shows "mem_read sm key m db' = mem_read sm key m db \<and> db_sstables db' = db_sstables db \<and> db_cache db' = db_cache db"
  using run assms(2,3,5)
proof (induction arbitrary: a rule: DB_calls_induct)
  case (none db)
  then show ?case by simp
next
  case (step c cs db db1 r db')
  note room = DB_call_room[OF step.hyps step.prems(2)]
  obtain b where b: "db_rep x sm db1 b" using DB_call_rep[OF sm step.prems(1) room(1) step.hyps] by auto
  have "m \<le> db_sequence db1" using step.prems(3) room(3) by simp
  from step.IH[OF b room(2) this] show ?case
    using DB_call_mem_read[OF sm step.prems(1) room(1) step.hyps step.prems(3)] by simp
next
  case (stop c cs db r db')
  then show ?case using DB_call_mem_read[OF sm stop.prems(1) DB_call_room(1)[OF stop(1) stop.prems(2)] stop(1) stop.prems(3)] by simp
qed

end
