(* ===== verification/DB_Open.thy ===== *)
theory DB_Open
  imports DB_Calls
begin

text \<open>
  Opening a database: the log entries that \<^verbatim>\<open>put\<close>, \<^verbatim>\<open>delete\<close> and \<^verbatim>\<open>write\<close> append are parsed
  back to their operations, and replaying them gives a memtable that represents those operations.
  The last section follows a log from the writes of one database to the memtable of the next.
\<close>

section \<open>Log entries\<close>

lemma u32_le_length_key: "n < 2 ^ 32 \<Longrightarrow> unat (le_u32 (u32_le (of_nat n))) = n"
  by (simp add: codec_simps unat_of_nat_u32)

lemma parse_wal_entry_inverse:
  assumes "length (op_key op) < 2 ^ 32"
  shows "parse_wal_entry (wal_entry op) = Some op"
proof (cases op)
  case (Put key v)
  have "drop 4 (wal_entry op) = u32_le (of_nat (length key)) @ [58] @ key @ [58] @ v"
    by (simp add: Put)
  then show ?thesis
    using assms u32_le_length_key[of "length key"]
    by (simp add: Put parse_wal_entry_def starts_with_def Let_def del: drop_Cons_numeral)
next
  case (Delete key)
  have "drop 4 (wal_entry op) = u32_le (of_nat (length key)) @ [58] @ key" by (simp add: Delete)
  then show ?thesis
    using assms u32_le_length_key[of "length key"]
    by (simp add: Delete parse_wal_entry_def starts_with_def Let_def del: drop_Cons_numeral)
qed

lemma wal_entry_not_Nil [simp]: "wal_entry op \<noteq> []"
  by (cases op) simp_all

lemma replay_apply:
  assumes "\<forall>op \<in> set ops. length (op_key op) < 2 ^ 32"
  shows "replay sm (map wal_entry ops) seq mt = (seq + of_nat (length ops), MemTable_apply_all sm ops (seq + 1) mt)"
  using assms
  by (induction ops arbitrary: seq mt) (simp_all add: parse_wal_entry_inverse Let_def add_ac)

section \<open>The log during a run\<close>

abbreviation log_bytes :: "ext \<Rightarrow> WriteOp list \<Rightarrow> bytes" where
  "log_bytes x ops \<equiv> concat (map (entry_bytes (x_crc x)) (map wal_entry ops))"

text \<open>What the log has taken responsibility for, what it has written, what is on disk.\<close>

abbreviation log_stream :: "'m DB \<Rightarrow> bytes" where
  "log_stream db \<equiv> ww_stream (wal_writer (db_wal db))"

abbreviation log_written :: "'m DB \<Rightarrow> bytes" where
  "log_written db \<equiv> wf_data (bw_file (ww_writer (wal_writer (db_wal db))))"

abbreviation log_synced :: "'m DB \<Rightarrow> bytes" where
  "log_synced db \<equiv> wf_synced (bw_file (ww_writer (wal_writer (db_wal db))))"

lemma file_write_all_synced [simp]: "wf_synced (snd (file_write_all data f)) = wf_synced f"
  by (auto simp: file_write_all_def next_fault_def split: list.splits option.splits)

lemma BufWriter_flush_buf_synced [simp]: "wf_synced (bw_file (snd (BufWriter_flush_buf w))) = wf_synced (bw_file w)"
  using file_write_all_synced[of "bw_buf w" "bw_file w"] by (simp add: BufWriter_flush_buf_def case_prod_beta)

lemma BufWriter_write_all_synced: "wf_synced (bw_file (snd (BufWriter_write_all data w))) = wf_synced (bw_file w)"
proof -
  have flush: "wf_synced (bw_file w') = wf_synced (bw_file w)" if "BufWriter_flush_buf w = (r, w')" for r w'
    using BufWriter_flush_buf_synced[of w] that by simp
  have direct: "wf_synced f' = wf_synced f" if "file_write_all data f = (r, f')" for r f f'
    using file_write_all_synced[of data f] that by simp
  show ?thesis
    by (auto simp: BufWriter_write_all_def bind_st_def split: prod.splits res.splits dest!: flush direct)
qed

lemma WALWriter_append_loop_synced:
  "wf_synced (bw_file (ww_writer (snd (WALWriter_append_loop crc data offset w)))) = wf_synced (bw_file (ww_writer w))"
proof (induction crc data offset w rule: WALWriter_append_loop.induct)
  case (1 crc data offset w)
  show ?case
  proof (cases "offset < length data")
    case True
    let ?n = "min (length data - offset) MAX_RECORD_SIZE"
    let ?enc = "Record_encode crc (Record_new (fragment_type (length data) offset ?n) (slice offset (offset + ?n) data))"
    obtain r bw where bw: "BufWriter_write_all ?enc (ww_writer w) = (r, bw)" by fastforce
    have "wf_synced (bw_file bw) = wf_synced (bw_file (ww_writer w))" using BufWriter_write_all_synced[of ?enc "ww_writer w"] bw by simp
    then show ?thesis
      using True bw 1[OF True refl refl refl refl] by (subst WALWriter_append_loop.simps) (cases r; simp add: Let_def)
  next
    case False
    then show ?thesis by (subst WALWriter_append_loop.simps) simp
  qed
qed

lemma WALWriter_append_synced:
  "wf_synced (bw_file (ww_writer (snd (WALWriter_append crc data w)))) = wf_synced (bw_file (ww_writer w))"
  by (simp add: WALWriter_append_def WALWriter_append_loop_synced)

text \<open>The files of a database that has not flushed: its log, as far as it was written, and an empty manifest.\<close>

definition log_files :: "'m DB \<Rightarrow> bool" where
  "log_files db \<longleftrightarrow>
     (let p = path_join (db_path db) (wal_filename 1); m = path_join (db_path db) ''MANIFEST'' in
      WAL_path (db_wal db) = p \<and> map fst (fs_files (db_fs db)) = [p, m] \<and>
      fs_lookup (db_fs db) p = Some (log_written db) \<and> fs_lookup (db_fs db) m = Some [])"

text \<open>
  How a step treats the log: what it appends is a prefix of \<open>bs\<close>, or \<open>bs\<close> itself, and what is on
  disk stays there.
\<close>

definition log_grows :: "bytes \<Rightarrow> bool \<Rightarrow> 'm DB \<Rightarrow> 'm DB \<Rightarrow> bool" where
  "log_grows bs all db db' \<longleftrightarrow> (\<exists>p. log_stream db' = log_stream db @ p \<and> (if all then p = bs else prefix p bs)) \<and>
     (\<forall>q. prefix q (log_synced db) \<longrightarrow> prefix q (log_stream db) \<longrightarrow> prefix q (log_synced db')) \<and>
     (log_files db \<longrightarrow> log_files db')"

lemma log_file_distinct: "path_join d (wal_filename n) \<noteq> path_join d ''MANIFEST''"
proof
  assume "path_join d (wal_filename n) = path_join d ''MANIFEST''"
  then have "wal_filename n = ''MANIFEST''" by (simp add: path_join_def)
  then have "last (wal_filename n) = CHR ''T''" by simp
  then show False by (simp add: wal_filename_def)
qed

lemma log_files_set_wal:
  assumes "log_files db" and "WAL_path w = WAL_path (db_wal db)"
  shows "log_files (set_wal w db)"
  using assms log_file_distinct[of "db_path db" 1]
  by (auto simp: log_files_def Let_def set_wal_def fs_store_def update_keys update_conv')

lemma log_grows_refl: "log_grows [] True db db"
  by (simp add: log_grows_def)

lemma log_grows_trans:
  assumes "log_grows bs True db db1" and "log_grows bs' b db1 db'"
  shows "log_grows (bs @ bs') b db db'"
  using assms unfolding log_grows_def by (cases b) (auto intro: prefix_order.trans)

lemma log_grows_stop: "log_grows bs False db db' \<Longrightarrow> log_grows (bs @ bs') False db db'"
  unfolding log_grows_def by (auto intro: prefix_order.trans)

lemma log_grows_set_wal:
  assumes "WAL_path w = WAL_path (db_wal db)" and "ww_stream (wal_writer w) = log_stream db @ p"
    and "if all then p = bs else prefix p bs" and "wf_synced (bw_file (ww_writer (wal_writer w))) = log_synced db"
  shows "log_grows bs all db (set_wal w db)"
  using assms log_files_set_wal[of db w] by (auto simp: log_grows_def)

lemma WAL_append_log:
  assumes "WAL_append (x_crc x) d (db_wal db) = (r, w)"
  shows "log_grows (entry_bytes (x_crc x) d) (r = Ok ()) db (set_wal w db)"
proof -
  have synced: "wf_synced (bw_file (ww_writer (snd (WALWriter_append (x_crc x) d (wal_writer (db_wal db)))))) = log_synced db"
    by (rule WALWriter_append_synced)
  show ?thesis
  proof (cases rule: append_cases[of "x_crc x" d "wal_writer (db_wal db)"])
    case (ok w')
    then show ?thesis
      using assms synced by (intro log_grows_set_wal[where p = "entry_bytes (x_crc x) d"]) (auto simp: WAL_append_def WAL_path_def)
  next
    case (err e w' p)
    then show ?thesis
      using assms synced by (intro log_grows_set_wal[where p = p]) (auto simp: WAL_append_def WAL_path_def)
  qed
qed

lemma wal_append_all_log: "wal_append_all x ops db = (r, db') \<Longrightarrow> log_grows (log_bytes x ops) (r = Ok ()) db db'"
proof (induction x ops db rule: wal_append_all.induct)
  case (1 x db)
  then show ?case by (simp add: log_grows_refl)
next
  case (2 x op ops db)
  obtain q w where q: "WAL_append (x_crc x) (wal_entry op) (db_wal db) = (q, w)" by fastforce
  note one = WAL_append_log[OF q]
  show ?case
  proof (cases "q = Ok ()")
    case True
    then show ?thesis using log_grows_trans[OF _ 2(1)[OF q[symmetric]]] 2(2) q one by (simp add: True)
  next
    case False
    then have "r \<noteq> Ok () \<and> db' = set_wal w db" using 2(2) q by (cases q) auto
    then show ?thesis using log_grows_stop[of _ db db'] one False by simp
  qed
qed

lemma file_sync_all_cases: "file_sync_all f = (r, f') \<Longrightarrow> wf_data f' = wf_data f \<and>
    wf_synced f' = (if r = Ok () then wf_data f else wf_synced f)"
  by (auto simp: file_sync_all_def next_fault_def split: list.splits option.splits)

text \<open>Everything the log has taken is written and on disk.\<close>

definition log_clean :: "'m DB \<Rightarrow> bool" where
  "log_clean db \<longleftrightarrow> log_synced db = log_stream db \<and> log_written db = log_stream db"

lemma WALWriter_sync_cases:
  assumes "WALWriter_sync w = (r, w')"
  shows "ww_stream w' = ww_stream w" and "ww_path w' = ww_path w"
    and "wf_synced (bw_file (ww_writer w')) = (if r = Ok () then ww_stream w else wf_synced (bw_file (ww_writer w)))"
    and "r = Ok () \<Longrightarrow> wf_data (bw_file (ww_writer w')) = ww_stream w"
proof -
  obtain q bw where fl: "BufWriter_flush_buf (ww_writer w) = (q, bw)" by fastforce
  have bw: "bw_stream bw = ww_stream w" "wf_synced (bw_file bw) = wf_synced (bw_file (ww_writer w))"
    "q = Ok () \<and> bw_buf bw = [] \<or> (\<exists>e. q = Err e)"
    using BufWriter_flush_buf_stream[of "ww_writer w"] BufWriter_flush_buf_synced[of "ww_writer w"]
      BufWriter_flush_buf_result[of "ww_writer w"] fl by (auto simp: ww_stream_def)
  obtain r1 f where sy: "file_sync_all (bw_file bw) = (r1, f)" by fastforce
  have "(if q = Ok () then r1 = r \<and> w' = w\<lparr>ww_writer := bw\<lparr>bw_file := f\<rparr>\<rparr> else r \<noteq> Ok () \<and> w' = w\<lparr>ww_writer := bw\<rparr>)"
    using assms fl sy bw(3) by (auto simp: WALWriter_sync_def BufWriter_flush_def BufWriter_sync_all_def)
  then show "ww_stream w' = ww_stream w" "ww_path w' = ww_path w"
    "wf_synced (bw_file (ww_writer w')) = (if r = Ok () then ww_stream w else wf_synced (bw_file (ww_writer w)))"
    "r = Ok () \<Longrightarrow> wf_data (bw_file (ww_writer w')) = ww_stream w"
    using bw file_sync_all_cases[OF sy] by (auto simp: ww_stream_def bw_stream_def split: if_splits)
qed

lemma wal_sync_log:
  assumes "wal_sync db = (r, db')"
  shows "log_grows [] True db db'" and "r = Ok () \<Longrightarrow> log_clean db'"
proof -
  obtain w where w: "WALWriter_sync (wal_writer (db_wal db)) = (r, w)" "db' = set_wal \<lparr>wal_writer = w\<rparr> db"
    using assms by (auto simp: wal_sync_def WAL_sync_def split: prod.splits)
  note c = WALWriter_sync_cases[OF w(1)]
  show "log_grows [] True db db'"
    using c w(2) log_files_set_wal[of db "\<lparr>wal_writer = w\<rparr>"] by (auto simp: log_grows_def WAL_path_def)
  show "r = Ok () \<Longrightarrow> log_clean db'" using c w(2) by (simp add: log_clean_def)
qed

lemma log_ops_log:
  assumes run: "log_ops x ops db = (r, db')" and wal: "use_wal (db_options db)"
  shows "log_grows (log_bytes x ops) (r = Ok ()) db db'"
    and "r = Ok () \<Longrightarrow> sync_wal (db_options db) \<Longrightarrow> log_clean db'"
proof -
  obtain q db1 where q: "wal_append_all x ops db = (q, db1)" by fastforce
  note app = wal_append_all_log[OF q]
  have opts: "db_options db1 = db_options db" using wal_append_all_data[OF q] by (simp add: same_data_def)
  show "log_grows (log_bytes x ops) (r = Ok ()) db db'"
  proof (cases "q = Ok () \<and> sync_wal (db_options db)")
    case True
    then have s: "wal_sync db1 = (r, db')" using run wal q opts by (simp add: log_ops_def)
    have "log_grows (log_bytes x ops @ []) True db db'" using log_grows_trans[OF _ wal_sync_log(1)[OF s]] app True by simp
    then show ?thesis by (auto simp: log_grows_def)
  next
    case False
    then have "r = q \<and> db' = db1" using run wal q opts by (cases q) (auto simp: log_ops_def)
    then show ?thesis using app by simp
  qed
  show "log_clean db'" if "r = Ok ()" "sync_wal (db_options db)"
  proof -
    have "wal_sync db1 = (r, db')" using run wal q opts that by (cases q) (auto simp: log_ops_def)
    then show ?thesis using wal_sync_log(2) that(1) by blast
  qed
qed

lemma log_grows_same:
  assumes "db_wal db0 = db_wal db" and "db_fs db0 = db_fs db" and "db_path db0 = db_path db"
    and "db_wal db1' = db_wal db'" and "db_fs db1' = db_fs db'" and "db_path db1' = db_path db'"
  shows "log_grows bs b db0 db1' \<longleftrightarrow> log_grows bs b db db'"
  using assms by (simp add: log_grows_def log_files_def Let_def)

lemma DB_call_log:
  assumes run: "DB_call x sm c db = (r, db')" and wal: "use_wal (db_options db)"
  shows "log_grows (log_bytes x (call_ops c)) (r = Ok ()) db db'"
    and "r = Ok () \<Longrightarrow> sync_wal (db_options db) \<Longrightarrow> log_clean db \<Longrightarrow> log_clean db'"
proof -
  let ?db0 = "db\<lparr>db_sequence := db_sequence db + of_nat (length (call_ops c))\<rparr>"
  have "log_grows (log_bytes x (call_ops c)) (r = Ok ()) db db' \<and>
      (r = Ok () \<longrightarrow> sync_wal (db_options db) \<longrightarrow> log_clean db \<longrightarrow> log_clean db')"
    using run
  proof (cases rule: DB_call_cases)
    case empty
    then show ?thesis by (simp add: log_grows_refl)
  next
    case (logged db1)
    then show ?thesis
      using log_ops_log[OF logged(1)] wal apply_and_freeze_fields[OF logged(3)] log_grows_same[of ?db0 db db1 db']
      by (simp add: log_clean_def)
  next
    case failed
    then show ?thesis using log_ops_log[OF failed(1)] wal log_grows_same[of ?db0 db db' db'] by simp
  qed
  then show "log_grows (log_bytes x (call_ops c)) (r = Ok ()) db db'"
    "r = Ok () \<Longrightarrow> sync_wal (db_options db) \<Longrightarrow> log_clean db \<Longrightarrow> log_clean db'" by simp_all
qed

lemma DB_calls_log:
  assumes run: "DB_calls x sm cs db = (r, db')" and "use_wal (db_options db)"
  shows "log_grows (log_bytes x (calls_ops cs)) (r = Ok ()) db db'"
    and "r = Ok () \<Longrightarrow> sync_wal (db_options db) \<Longrightarrow> log_clean db \<Longrightarrow> log_clean db'"
proof -
  have "log_grows (log_bytes x (calls_ops cs)) (r = Ok ()) db db' \<and>
      (r = Ok () \<longrightarrow> sync_wal (db_options db) \<longrightarrow> log_clean db \<longrightarrow> log_clean db')"
    using run assms(2)
  proof (induction rule: DB_calls_induct)
    case (none db)
    then show ?case by (simp add: log_grows_refl)
  next
    case (step c cs db db1 r db')
    note one = DB_call_log[OF step.hyps step.prems] and opts = DB_call_fields(2)[OF step.hyps]
    have "log_grows (log_bytes x (call_ops c) @ log_bytes x (calls_ops cs)) (r = Ok ()) db db'"
      using log_grows_trans[of _ db db1] step.IH one(1) opts step.prems by auto
    then show ?case using step.IH one(2) opts step.prems by simp
  next
    case (stop c cs db r db')
    then show ?case using log_grows_stop[of _ db db'] DB_call_log(1)[OF stop(1) stop.prems] by simp
  qed
  then show "log_grows (log_bytes x (calls_ops cs)) (r = Ok ()) db db'"
    "r = Ok () \<Longrightarrow> sync_wal (db_options db) \<Longrightarrow> log_clean db \<Longrightarrow> log_clean db'" by simp_all
qed

section \<open>Opening\<close>

lemma fs_open_write_live:
  assumes "fs_faults fs = []"
  shows "fs_open_write False p fs =
    (let bs = (case fs_lookup fs p of None \<Rightarrow> [] | Some b \<Rightarrow> b) in
     (Ok \<lparr>wf_data = bs, wf_synced = bs, wf_faults = (case fs_write_faults fs of [] \<Rightarrow> [] | l # _ \<Rightarrow> l)\<rparr>,
      (fs_store p bs fs)\<lparr>fs_write_faults := tl (fs_write_faults fs)\<rparr>))"
  using assms by (simp add: fs_open_write_def fs_call_def Let_def)

lemma wal_path_name: "path_file_name (path_join d (wal_filename n)) = Some (wal_filename n)"
proof -
  have "length (wal_filename n) \<ge> 4" by (simp add: wal_filename_def)
  then have "wal_filename n \<noteq> []" "wal_filename n \<noteq> ''.''" "wal_filename n \<noteq> ''..''" by auto
  then show ?thesis using fmt_06_no_slash[of n] by (intro path_file_name_join) (simp_all add: wal_filename_def)
qed

lemma manifest_path_name: "path_file_name (path_join d ''MANIFEST'') = Some ''MANIFEST''"
  by (rule path_file_name_join) simp_all

lemma not_table_paths: "\<not> is_table_path (path_join d (wal_filename n))" "\<not> is_table_path (path_join d ''MANIFEST'')"
proof -
  have "\<not> ends_with ''.sst'' (wal_filename n)" by (simp add: wal_filename_def ends_with_def)
  then show "\<not> is_table_path (path_join d (wal_filename n))" by (simp add: is_table_path_def wal_path_name)
  show "\<not> is_table_path (path_join d ''MANIFEST'')" by (simp add: is_table_path_def manifest_path_name ends_with_def)
qed

lemma parse_manifest_name: "parse_wal_filename ''MANIFEST'' = None"
  by (simp add: parse_wal_filename_def ends_with_def)

lemma latest_wal_log:
  assumes "paths \<in> {[], [path_join d (wal_filename 1), path_join d ''MANIFEST'']}"
  shows "latest_wal paths (1, path_join d (wal_filename 1)) = (1, path_join d (wal_filename 1))"
  using assms parse_manifest_name by (auto simp: wal_path_name manifest_path_name parse_wal_filename_inverse)

text \<open>A directory with the log \<open>bs\<close> and no other data: an empty one, or that of \<open>log_files\<close>.\<close>

definition log_dir :: "string \<Rightarrow> bytes \<Rightarrow> fsys \<Rightarrow> bool" where
  "log_dir path bs fs \<longleftrightarrow> fs_dir fs \<and> fs_faults fs = [] \<and>
     (let p = path_join path (wal_filename 1); m = path_join path ''MANIFEST'' in
      map fst (fs_files fs) = [] \<and> bs = [] \<or>
      map fst (fs_files fs) = [p, m] \<and> fs_lookup fs p = Some bs \<and> fs_lookup fs m = Some [])"

lemma log_dir_cases:
  assumes "log_dir path bs fs"
  obtains (new) "fs_files fs = []" "bs = []"
  | (old) "fs_files fs = [(path_join path (wal_filename 1), bs), (path_join path ''MANIFEST'', [])]"
  using assms log_file_distinct[of path 1]
  by (auto simp: log_dir_def Let_def split: if_splits)

lemma VersionSet_new_empty:
  assumes "fs_faults fs = []" and "fs_lookup fs (path_join path ''MANIFEST'') \<in> {None, Some []}"
  shows "VersionSet_new js path n fs =
    (Ok \<lparr>vs_current = Version_new n, vs_manifest_path = path_join path ''MANIFEST'',
         vs_manifest_file = Some \<lparr>wf_data = [], wf_synced = [], wf_faults = (case fs_write_faults fs of [] \<Rightarrow> [] | l # _ \<Rightarrow> l)\<rparr>,
         vs_max_levels = n, vs_next_file_number = 1\<rparr>,
     (fs_store (path_join path ''MANIFEST'') [] fs)\<lparr>fs_write_faults := tl (fs_write_faults fs)\<rparr>)"
  using assms
  by (auto simp: VersionSet_new_def VersionSet_recover_def VersionSet_create_manifest_def fs_exists_def fs_open_read_def
      fs_call_def fs_open_write_def text_lines.simps Let_def)

text \<open>The database that is opened on such a directory.\<close>

definition opened_db :: "'m SkipMap \<Rightarrow> string \<Rightarrow> Options \<Rightarrow> bytes \<Rightarrow> bytes list \<Rightarrow> fsys \<Rightarrow> 'm DB" where
  "opened_db sm path opts bs entries fs =
     (let p = path_join path (wal_filename 1); m = path_join path ''MANIFEST'';
          faults = (\<lambda>q. case q of [] \<Rightarrow> [] | l # _ \<Rightarrow> l);
          q = fs_write_faults fs;
          (seq, memtable) = replay sm entries 0 (MemTable_new sm 1)
      in \<lparr>db_path = path, db_options = opts, db_memtable = memtable, db_immutable = [],
          db_wal = \<lparr>wal_writer = \<lparr>ww_path = p,
            ww_writer = BufWriter_new \<lparr>wf_data = bs, wf_synced = bs, wf_faults = faults q\<rparr>, ww_file_size = of_nat (length bs)\<rparr>\<rparr>,
          db_sstables = replicate (max_levels opts) [], db_sequence = seq, db_next_file_number = 2, db_wal_file_number = 1,
          db_version_set = \<lparr>vs_current = Version_new (max_levels opts), vs_manifest_path = m,
            vs_manifest_file = Some \<lparr>wf_data = [], wf_synced = [], wf_faults = faults (tl q)\<rparr>,
            vs_max_levels = max_levels opts, vs_next_file_number = 1\<rparr>,
          db_picker = CompactionPicker_new (max_levels opts), db_cache = BlockCache_new (block_cache_size opts),
          db_fs = fs\<lparr>fs_files := [(p, bs), (m, [])], fs_write_faults := tl (tl q)\<rparr>\<rparr>)"

lemma DB_open_log:
  assumes opts: "Options_validate opts = Ok ()" "\<not> error_if_exists opts" and dir: "log_dir path bs fs"
    and small: "length bs < 2 ^ 64"
  shows "fst (DB_open x js sm path opts fs) =
    bind_res (WAL_recover (x_crc x) (Ok bs)) (\<lambda>entries. Ok (opened_db sm path opts bs entries fs))"
proof -
  let ?p = "path_join path (wal_filename 1)" and ?m = "path_join path ''MANIFEST''"
  have ne: "?p \<noteq> ?m" by (rule log_file_distinct)
  have fs: "fs_dir fs" "fs_faults fs = []" using dir by (simp_all add: log_dir_def)
  have levels: "0 < max_levels opts" using opts(1) by (simp add: Options_validate_Ok_iff)
  have content: "(case fs_lookup fs ?p of None \<Rightarrow> [] | Some b \<Rightarrow> b) = bs" "map fst (fs_files fs) \<in> {[], [?p, ?m]}"
    "fs_lookup fs ?m \<in> {None, Some []}"
    using dir ne by (cases rule: log_dir_cases; auto)+
  define fs1 where "fs1 = (fs_store ?p bs fs)\<lparr>fs_write_faults := tl (fs_write_faults fs)\<rparr>"
  have opened: "fs_open_write False ?p fs = (Ok \<lparr>wf_data = bs, wf_synced = bs,
      wf_faults = (case fs_write_faults fs of [] \<Rightarrow> [] | l # _ \<Rightarrow> l)\<rparr>, fs1)"
    using fs_open_write_live[OF fs(2), of ?p] content(1) by (simp add: fs1_def Let_def)
  have fs1: "fs_faults fs1 = []" "fs_lookup fs1 = (fs_lookup fs)(?p \<mapsto> bs)" "fs_write_faults fs1 = tl (fs_write_faults fs)"
    "filter is_table_path (map fst (fs_files fs1)) = []"
    using fs content(2) not_table_paths[of path]
    by (auto simp: fs1_def fs_store_def update_conv' update_keys)
  have files2: "fs_store ?m [] fs1 = fs1\<lparr>fs_files := [(?p, bs), (?m, [])]\<rparr>"
    using dir ne by (cases rule: log_dir_cases) (auto simp: fs1_def fs_store_def)
  have dirs: "prepare_dir path opts fs = (Ok (), fs)" "read_dir_or_empty fs = (map fst (fs_files fs), fs)"
    "read_dir_or_empty fs1 = (map fst (fs_files fs1), fs1)" "fs_open_read ?p fs1 = (Ok bs, fs1)"
    using fs fs1 opts(2) by (simp_all add: prepare_dir_def read_dir_or_empty_def fs_read_dir_def fs_open_read_def fs_call_def)
  define w where "w = \<lparr>wal_writer = \<lparr>ww_path = ?p, ww_writer = BufWriter_new \<lparr>wf_data = bs, wf_synced = bs,
    wf_faults = (case fs_write_faults fs of [] \<Rightarrow> [] | l # _ \<Rightarrow> l)\<rparr>, ww_file_size = of_nat (length bs)\<rparr>\<rparr>"
  have w: "WAL_open ?p (Ok \<lparr>wf_data = bs, wf_synced = bs, wf_faults = (case fs_write_faults fs of [] \<Rightarrow> [] | l # _ \<Rightarrow> l)\<rparr>) = Ok w"
    "0 < WAL_size w \<longleftrightarrow> bs \<noteq> []"
    using small unat_of_nat_u64[OF small] by (auto simp: WAL_open_def WALWriter_new_def w_def WAL_size_def word_less_nat_alt)
  have ex: "fs_exists ?p fs1" using fs1(2) by (simp add: fs_exists_def)
  have none: "WAL_recover (x_crc x) (Ok []) = Ok []" using wal.recover_all[of "x_crc x" "[]"] by simp
  have vs: "fs_lookup fs1 ?m \<in> {None, Some []}" using fs1(2) content(3) ne by simp
  show ?thesis
  proof (cases "WAL_recover (x_crc x) (Ok bs)")
    case (Ok entries)
    then have "(if bs \<noteq> [] then entries else []) = entries" using none by auto
    then show ?thesis
      using levels Ok
      by (simp add: DB_open_def opts dirs latest_wal_log[OF content(2)] opened w ex fs1(1,3,4)
          VersionSet_new_empty[OF fs1(1) vs] opened_db_def split_beta Let_def files2 list_update_same_conv split: if_splits)
        (auto simp: fs1_def w_def fs_store_def)
  qed (use none in \<open>auto simp: DB_open_def opts dirs latest_wal_log[OF content(2)] opened w ex split_beta Let_def\<close>)
qed

lemma opened_db_fields [simp]:
  "log_stream (opened_db sm path opts bs entries fs) = bs" "log_synced (opened_db sm path opts bs entries fs) = bs"
  "db_options (opened_db sm path opts bs entries fs) = opts" "db_path (opened_db sm path opts bs entries fs) = path"
  "log_files (opened_db sm path opts bs entries fs)" "log_clean (opened_db sm path opts bs entries fs)"
  using log_file_distinct[of path 1]
  by (simp_all add: opened_db_def split_beta Let_def ww_stream_def BufWriter_new_def log_files_def bw_stream_def WAL_path_def log_clean_def)

lemma tables_rep_empty: "cap < 2 ^ 63 \<Longrightarrow> tables_rep x (replicate n []) num (BlockCache_new cap) (replicate n [])"
proof -
  assume "cap < 2 ^ 63"
  then have "coherent Map.empty (BlockCache_new cap)"
    by (simp add: coherent_def BlockCache_new_def BlockCache_inv_def lru_abs_def)
  then show ?thesis unfolding tables_rep_def by (auto simp: list_all2_conv_all_nth intro!: exI[of _ Map.empty])
qed

abbreviation mem_store :: "nat \<Rightarrow> WriteOp list \<Rightarrow> lsm" where
  "mem_store n ops \<equiv> \<lparr>l_mem = ops, l_imm = [], l_tables = replicate n []\<rparr>"

lemma opened_db_rep:
  assumes sm: "skip_map sm" and keys: "\<forall>op \<in> set ops. length (op_key op) < 2 ^ 32" and room: "length ops < 2 ^ 64"
    and cap: "block_cache_size opts < 2 ^ 63"
  shows "db_rep x sm (opened_db sm path opts bs (map wal_entry ops) fs) (mem_store (max_levels opts) ops)"
    and "db_sequence (opened_db sm path opts bs (map wal_entry ops) fs) = of_nat (length ops)"
proof -
  have "mem_rep sm (MemTable_apply_all sm ops (0 + 1) (MemTable_new sm 1)) ([] @ ops) (0 + of_nat (length ops))"
    using room by (intro mem_rep_apply_all[OF sm mem_rep_new[OF sm]]) simp
  then show "db_rep x sm (opened_db sm path opts bs (map wal_entry ops) fs) (mem_store (max_levels opts) ops)"
    by (simp add: opened_db_def Let_def replay_apply[OF keys] db_rep_def tables_rep_empty[OF cap])
  show "db_sequence (opened_db sm path opts bs (map wal_entry ops) fs) = of_nat (length ops)"
    by (simp add: opened_db_def Let_def replay_apply[OF keys])
qed

lemma opened_db_sound:
  assumes "fs_faults fs = []" and "fs_write_faults fs = []" and "\<forall>e. \<exists>t. js_to_string js e = Inr t"
    and "compression opts = Snappy \<longrightarrow> snappy_law x"
  shows "db_sound x js (opened_db sm path opts bs entries fs) (max_levels opts)"
  using assms
  by (simp add: opened_db_def Let_def split_beta db_sound_def manifest_ok_def fs_sound_def Version_new_def CompactionPicker_new_def)

text \<open>Opening an empty directory.\<close>

lemma DB_open_empty:
  assumes "Options_validate opts = Ok ()" and "\<not> error_if_exists opts" and "fs_dir fs" and "fs_faults fs = []"
    and "fs_files fs = []"
  shows "fst (DB_open x js sm path opts fs) = Ok (opened_db sm path opts [] [] fs)"
proof -
  have "log_dir path [] fs" using assms by (simp add: log_dir_def Let_def)
  then show ?thesis
    using DB_open_log[OF assms(1,2), of path "[]" fs x js sm] wal.recover_all[of "x_crc x" "[]"] by simp
qed

lemma lsm_get_mem_store: "lsm_get (mem_store n ops) key = mem_lookup ops key"
  by (simp add: lsm_get_def split: option.split)

section \<open>Crashes\<close>

text \<open>
  The directory after a crash: of the log a prefix is left, at least what was synced; the other
  files are as they were.
\<close>

definition crashed :: "'m DB \<Rightarrow> fsys \<Rightarrow> bool" where
  "crashed db fs \<longleftrightarrow> fs_dir fs \<and> fs_faults fs = [] \<and> map fst (fs_files fs) = map fst (fs_files (db_fs db)) \<and>
     (\<forall>p. p \<noteq> WAL_path (db_wal db) \<longrightarrow> fs_lookup fs p = fs_lookup (db_fs db) p) \<and>
     (\<exists>bs. fs_lookup fs (WAL_path (db_wal db)) = Some bs \<and> prefix (log_synced db) bs \<and> prefix bs (log_written db))"

lemma crashed_log_dir:
  assumes "log_files db" and "crashed db fs"
  obtains bs where "log_dir (db_path db) bs fs" "prefix (log_synced db) bs" "prefix bs (log_written db)"
proof -
  let ?p = "path_join (db_path db) (wal_filename 1)" and ?m = "path_join (db_path db) ''MANIFEST''"
  have p: "WAL_path (db_wal db) = ?p" "map fst (fs_files (db_fs db)) = [?p, ?m]" "fs_lookup (db_fs db) ?m = Some []"
    using assms(1) by (simp_all add: log_files_def Let_def)
  obtain bs where bs: "fs_lookup fs ?p = Some bs" "prefix (log_synced db) bs" "prefix bs (log_written db)"
    using assms(2) p(1) by (auto simp: crashed_def)
  have "log_dir (db_path db) bs fs"
    using assms(2) p bs(1) log_file_distinct[of "db_path db" 1] unfolding log_dir_def crashed_def Let_def by metis
  then show ?thesis using bs(2,3) that by blast
qed

lemma DB_reopen_prefix:
  assumes sm: "skip_map sm" and opts: "Options_validate opts = Ok ()" "\<not> error_if_exists opts"
    and cap: "block_cache_size opts < 2 ^ 63"
    and dir: "log_dir path bs fs" and keys: "\<forall>op \<in> set (ops1 @ ops2). length (op_key op) < 2 ^ 32"
    and room: "length (ops1 @ ops2) < 2 ^ 64" and small: "length bs < 2 ^ 64"
    and pre: "prefix (log_bytes x ops1) bs" "prefix bs (log_bytes x (ops1 @ ops2))"
  shows "fst (DB_open x js sm path opts fs) = Err eof_error \<or>
    (\<exists>k db. k \<le> length ops2 \<and> fst (DB_open x js sm path opts fs) = Ok db \<and>
       db_rep x sm db (mem_store (max_levels opts) (ops1 @ take k ops2)))"
proof -
  let ?r = "WAL_recover (x_crc x) (Ok bs)"
  have nonempty: "filter (\<lambda>e. e \<noteq> []) (map wal_entry ops) = map wal_entry ops" for ops by (induction ops) simp_all
  have "?r = Err eof_error \<or> (\<exists>k \<le> length ops2. ?r = Ok (map wal_entry (ops1 @ take k ops2)))"
    using wal.recover_prefix_after[of "x_crc x" "map wal_entry ops1" bs "map wal_entry ops2"] pre
    by (simp add: take_map nonempty del: map_map) 
  then show ?thesis
  proof
    assume "\<exists>k \<le> length ops2. ?r = Ok (map wal_entry (ops1 @ take k ops2))"
    then obtain k where k: "k \<le> length ops2" "?r = Ok (map wal_entry (ops1 @ take k ops2))" by blast
    have "\<forall>op \<in> set (ops1 @ take k ops2). length (op_key op) < 2 ^ 32" "length (ops1 @ take k ops2) < 2 ^ 64"
      using keys room by (auto dest: in_set_takeD)
    then show ?thesis
      using k DB_open_log[OF opts dir small, of x js sm] opened_db_rep(1)[OF sm _ _ cap, of "ops1 @ take k ops2"]
      by (intro disjI2 exI[of _ k]) simp
  qed (simp add: DB_open_log[OF opts dir small])
qed

section \<open>Calls on a log without failures\<close>

abbreviation log_live :: "'m DB \<Rightarrow> bool" where
  "log_live db \<equiv> fault_free (ww_writer (wal_writer (db_wal db)))"

lemma wal_append_all_live: "log_live db \<Longrightarrow> fst (wal_append_all x ops db) = Ok () \<and> log_live (snd (wal_append_all x ops db))"
proof (induction x ops db rule: wal_append_all.induct)
  case (1 x db)
  then show ?case by simp
next
  case (2 x op ops db)
  obtain w where w: "WALWriter_append (x_crc x) (wal_entry op) (wal_writer (db_wal db)) = (Ok (), w)" "fault_free (ww_writer w)"
    using 2(2) by (cases rule: append_cases[of "x_crc x" "wal_entry op" "wal_writer (db_wal db)"]) auto
  then have "WAL_append (x_crc x) (wal_entry op) (db_wal db) = (Ok (), \<lparr>wal_writer = w\<rparr>)" by (simp add: WAL_append_def)
  then show ?case using 2(1) w(2) by simp
qed

lemma wal_sync_live: "log_live db \<Longrightarrow> fst (wal_sync db) = Ok () \<and> log_live (snd (wal_sync db))"
proof -
  assume "log_live db"
  then obtain bw where bw: "BufWriter_flush (ww_writer (wal_writer (db_wal db))) = (Ok (), bw)" "fault_free bw"
    using BufWriter_flush_ok by blast
  then obtain bw' where "BufWriter_sync_all bw = (Ok (), bw')" "fault_free bw'" using BufWriter_sync_all_ok by blast
  then show ?thesis using bw by (simp add: wal_sync_def WAL_sync_def WALWriter_sync_def)
qed

lemma log_ops_live: "log_live db \<Longrightarrow> fst (log_ops x ops db) = Ok () \<and> log_live (snd (log_ops x ops db))"
  using wal_append_all_live[of db x ops] wal_sync_live
  by (cases "wal_append_all x ops db") (auto simp: log_ops_def)

lemma DB_call_live:
  assumes "log_live db" and "DB_call x sm c db = (r, db')"
  shows "r = Ok () \<and> log_live db'"
  using assms(2)
proof (cases rule: DB_call_cases)
  case empty
  then show ?thesis using assms(1) by simp
next
  case (logged db1)
  then show ?thesis
    using log_ops_live[of "db\<lparr>db_sequence := db_sequence db + of_nat (length (call_ops c))\<rparr>" x "call_ops c"] assms(1)
      apply_and_freeze_fields[OF logged(3)] by simp
next
  case failed
  then show ?thesis
    using log_ops_live[of "db\<lparr>db_sequence := db_sequence db + of_nat (length (call_ops c))\<rparr>" x "call_ops c"] assms(1) by simp
qed

lemma DB_calls_live: "log_live db \<Longrightarrow> fst (DB_calls x sm cs db) = Ok ()"
proof -
  obtain r db' where run: "DB_calls x sm cs db = (r, db')" by fastforce
  assume "log_live db"
  with run have "r = Ok ()" by (induction rule: DB_calls_induct) (use DB_call_live in blast)+
  then show ?thesis using run by simp
qed

section \<open>What a call keeps\<close>

lemma wal_append_all_fs:
  "(fs_sound (db_fs (snd (wal_append_all x ops db))) \<longleftrightarrow> fs_sound (db_fs db)) \<and>
     fs_dir (db_fs (snd (wal_append_all x ops db))) = fs_dir (db_fs db)"
proof (induction x ops db rule: wal_append_all.induct)
  case (2 x op ops db)
  obtain q w where q: "WAL_append (x_crc x) (wal_entry op) (db_wal db) = (q, w)" by fastforce
  then show ?case using 2 by (cases q) (simp_all add: set_wal_def)
qed simp

lemma log_ops_fs:
  "(fs_sound (db_fs (snd (log_ops x ops db))) \<longleftrightarrow> fs_sound (db_fs db)) \<and> fs_dir (db_fs (snd (log_ops x ops db))) = fs_dir (db_fs db)"
proof -
  obtain q db1 where q: "wal_append_all x ops db = (q, db1)" by fastforce
  then have "(fs_sound (db_fs db1) \<longleftrightarrow> fs_sound (db_fs db)) \<and> fs_dir (db_fs db1) = fs_dir (db_fs db)"
    using wal_append_all_fs[of x ops db] by simp
  then show ?thesis using q by (cases q) (simp_all add: log_ops_def wal_sync_def set_wal_def split_beta)
qed

text \<open>What the well-formedness of the parts depends on; a write call keeps all of it.\<close>

definition same_parts :: "'m DB \<Rightarrow> 'm DB \<Rightarrow> bool" where
  "same_parts db db' \<longleftrightarrow> (fs_sound (db_fs db') \<longleftrightarrow> fs_sound (db_fs db)) \<and> fs_dir (db_fs db') = fs_dir (db_fs db) \<and>
     db_version_set db' = db_version_set db \<and> db_picker db' = db_picker db \<and> db_options db' = db_options db \<and>
     db_path db' = db_path db \<and> db_next_file_number db' = db_next_file_number db \<and>
     db_wal_file_number db' = db_wal_file_number db"

lemma same_parts_trans: "same_parts a b \<Longrightarrow> same_parts b c \<Longrightarrow> same_parts a c"
  by (simp add: same_parts_def)

lemma same_parts_sound: "same_parts db db' \<Longrightarrow> db_sound x js db' n \<longleftrightarrow> db_sound x js db n"
  by (simp add: same_parts_def db_sound_def)

lemma log_ops_parts: "log_ops x ops db = (r, db') \<Longrightarrow> same_parts db db'"
  using log_ops_fs[of x ops db] log_ops_data[of x ops db] by (simp add: same_parts_def same_data_def)

lemma DB_call_parts:
  assumes "DB_call x sm c db = (r, db')"
  shows "same_parts db db'"
proof -
  have seq: "same_parts db (db\<lparr>db_sequence := s\<rparr>)" for s by (simp add: same_parts_def)
  show ?thesis
    using assms
  proof (cases rule: DB_call_cases)
    case empty
    then show ?thesis by (simp add: same_parts_def)
  next
    case (logged db1)
    then have "same_parts db1 db'" using apply_and_freeze_fields[OF logged(3)] by (simp add: same_parts_def)
    then show ?thesis using same_parts_trans[OF seq log_ops_parts[OF logged(1)]] same_parts_trans by blast
  next
    case failed
    then show ?thesis using same_parts_trans[OF seq log_ops_parts[OF failed(1)]] by simp
  qed
qed

lemma DB_calls_parts: "DB_calls x sm cs db = (r, db') \<Longrightarrow> same_parts db db'"
  by (induction rule: DB_calls_induct) (auto intro: same_parts_trans DB_call_parts simp: same_parts_def[of db db for db])

text \<open>The files of the log stay as they are described, with and without logging.\<close>

lemma DB_calls_log_files:
  assumes "DB_calls x sm cs db = (r, db')" and "log_files db"
  shows "log_files db'"
proof (cases "use_wal (db_options db)")
  case True
  then show ?thesis using DB_calls_log(1)[OF assms(1)] assms(2) by (simp add: log_grows_def)
next
  case False
  have "db_wal db' = db_wal db \<and> db_fs db' = db_fs db \<and> db_path db' = db_path db \<and> db_options db' = db_options db"
    using assms(1) False
  proof (induction rule: DB_calls_induct)
    case (step c cs db db1 r db')
    have "db_wal db1 = db_wal db \<and> db_fs db1 = db_fs db \<and> db_path db1 = db_path db \<and> db_options db1 = db_options db"
      using step.hyps by (cases rule: DB_call_cases) (use step.prems in \<open>auto simp: log_ops_def dest!: apply_and_freeze_fields\<close>)
    then show ?case using step by simp
  next
    case (stop c cs db r db')
    then show ?case by (cases rule: DB_call_cases[OF stop(1)]) (auto simp: log_ops_def)
  qed simp
  then show ?thesis using assms(2) by (simp add: log_files_def)
qed

end
