(* ===== verification/DB_Directory.thy ===== *)
theory DB_Directory
  imports DB_Open
begin

text \<open>
  Directories with any number of tables (\<^verbatim>\<open>lib.rs\<close>). What a flush leaves on disk, and what \<^verbatim>\<open>DB::open\<close> makes
  of it: all tables are loaded into level 0 in the order of their file names, and the log with the highest
  number is replayed.
\<close>

section \<open>Paths\<close>

lemma fs_store_same: "fs_lookup fs p = Some bs \<Longrightarrow> fs_store p bs fs = fs"
  by (simp add: fs_store_def update_triv)

lemma latest_wal_unique:
  assumes "\<forall>p \<in> set paths. Option.bind (path_file_name p) parse_wal_filename = (if p = wp then Some n else None)" and "fst best \<le> n"
  shows "latest_wal paths best = (if wp \<in> set paths then (n, wp) else best)"
  using assms by (induction paths arbitrary: best) auto

lemma filter_unique: "distinct xs \<Longrightarrow> t \<in> set xs \<Longrightarrow> \<forall>y \<in> set xs. P y \<longleftrightarrow> y = t \<Longrightarrow> filter P xs = [t]"
  by (induction xs) (auto simp: filter_empty_conv)

lemma table_path_name: "path_file_name (path_join d (sst_file_name n)) = Some (sst_file_name n)"
proof -
  have "length (sst_file_name n) \<ge> 4" by (simp add: sst_file_name_def)
  then have "sst_file_name n \<noteq> []" "sst_file_name n \<noteq> ''.''" "sst_file_name n \<noteq> ''..''" by auto
  then show ?thesis using fmt_06_no_slash[of n] by (intro path_file_name_join) (simp_all add: sst_file_name_def)
qed

lemma table_path_kind: "is_table_path (path_join d (sst_file_name n))" "parse_wal_filename (sst_file_name n) = None"
proof -
  show "is_table_path (path_join d (sst_file_name n))"
    unfolding is_table_path_def table_path_name option.case by (simp add: sst_file_name_def)
  show "parse_wal_filename (sst_file_name n) = None" by (simp add: parse_wal_filename_def sst_file_name_def ends_with_def)
qed

lemma wal_filename_inj: "wal_filename m = wal_filename n \<Longrightarrow> m = n"
  using parse_wal_filename_inverse by (metis option.inject)

lemma database_paths:
  "path_join d (wal_filename m) \<noteq> path_join d (sst_file_name n)" "path_join d ''MANIFEST'' \<noteq> path_join d (sst_file_name n)"
  "path_join d (wal_filename m) = path_join d (wal_filename m') \<longleftrightarrow> m = m'"
  "path_join d (sst_file_name n) = path_join d (sst_file_name n') \<longleftrightarrow> n = n'"
proof -
  show "path_join d (wal_filename m) \<noteq> path_join d (sst_file_name n)" "path_join d ''MANIFEST'' \<noteq> path_join d (sst_file_name n)"
    using not_table_paths[of d] table_path_kind(1)[of d n] by metis+
  show "path_join d (wal_filename m) = path_join d (wal_filename m') \<longleftrightarrow> m = m'"
    using wal_filename_inj by (auto simp: path_join_def)
  show "path_join d (sst_file_name n) = path_join d (sst_file_name n') \<longleftrightarrow> n = n'" using table_number_of_path by metis
qed

lemmas path_simps [simp] = database_paths database_paths(1,2)[THEN not_sym] log_file_distinct log_file_distinct[THEN not_sym]

section \<open>Loading tables\<close>

text \<open>The block store of tables with different numbers.\<close>

lemma tables_store:
  assumes "list_all2 (\<lambda>rd bs. served x (table_store x rd bs) rd bs \<and> table_rep x rd bs) rds bss" and "distinct (map sr_file_number rds)"
  obtains store where "list_all2 (\<lambda>rd bs. table_is x store rd (stored_entries bs)) rds bss"
proof -
  define store where "store k = (case find (\<lambda>(rd, bs). sr_file_number rd = file_id k) (zip rds bss) of
      None \<Rightarrow> None | Some (rd, bs) \<Rightarrow> table_store x rd bs k)" for k
  have len: "length rds = length bss" using assms(1) by (rule list_all2_lengthD)
  have "store k = Some v" if i: "i < length rds" and k: "table_store x (rds ! i) (bss ! i) k = Some v" for i k v
  proof -
    have id: "file_id k = sr_file_number (rds ! i)" using k table_store_dom[of k x "rds ! i" "bss ! i"] by auto
    have "find (\<lambda>(rd, bs). sr_file_number rd = file_id k) (zip rds bss) = Some (rds ! i, bss ! i)"
      unfolding find_Some_iff using i len assms(2) id by (auto simp: distinct_conv_nth intro!: exI[of _ i])
    then show ?thesis using k by (simp add: store_def)
  qed
  then have "list_all2 (\<lambda>rd bs. table_is x store rd (stored_entries bs)) rds bss"
    using assms(1) served_mono[of x _ _ _ store] len unfolding list_all2_conv_all_nth table_is_def by blast
  then show ?thesis by (rule that)
qed

lemma load_tables_open:
  assumes "fs_sound fs" and "\<forall>(n, es) \<in> set tabs. \<exists>g. fs_lookup fs (path_join d (sst_file_name n)) = Some g \<and> opens_as x g es"
  shows "\<exists>rds bss. load_tables x (map (\<lambda>(n, es). path_join d (sst_file_name n)) tabs) fs = (Ok rds, fs) \<and>
    list_all2 (\<lambda>rd bs. served x (table_store x rd bs) rd bs \<and> table_rep x rd bs) rds bss \<and>
    map stored_entries bss = map snd tabs \<and> map sr_file_number rds = map fst tabs"
  using assms(2)
proof (induction tabs)
  case Nil
  then show ?case by simp
next
  case (Cons t tabs)
  obtain n es where t: "t = (n, es)" by fastforce
  let ?p = "path_join d (sst_file_name n)"
  obtain g where g: "fs_lookup fs ?p = Some g" "opens_as x g es" using Cons.prems t by auto
  obtain rd bs where rd: "SSTableReader_open_with_cache x ?p (Ok g) True = Ok rd" "table_rep x rd bs" "stored_entries bs = es"
    "sr_file_number rd = n" "served x (table_store x rd bs) rd bs"
    by (rule opens_asE[OF g(2), of ?p True]) (simp add: table_number_of_path)
  obtain rds bss where ih: "load_tables x (map (\<lambda>(n, es). path_join d (sst_file_name n)) tabs) fs = (Ok rds, fs)"
    "list_all2 (\<lambda>rd bs. served x (table_store x rd bs) rd bs \<and> table_rep x rd bs) rds bss"
    "map stored_entries bss = map snd tabs" "map sr_file_number rds = map fst tabs"
    using Cons by auto
  show ?case
    by (rule exI[of _ "rd # rds"], rule exI[of _ "bs # bss"])
      (use rd ih t fs_open_read_sound[OF assms(1) g(1)] in simp)
qed

section \<open>Opening a directory\<close>

text \<open>A directory with the log number \<open>w\<close>, an empty manifest and the given tables.\<close>

definition data_dir :: "ext \<Rightarrow> string \<Rightarrow> u64 \<Rightarrow> bytes \<Rightarrow> (u64 \<times> kv list) list \<Rightarrow> fsys \<Rightarrow> bool" where
  "data_dir x d w bs tabs fs \<longleftrightarrow> fs_sound fs \<and> fs_dir fs \<and> fs_distinct fs \<and>
     dom (fs_lookup fs) = {path_join d (wal_filename w), path_join d ''MANIFEST''} \<union> (\<lambda>(n, es). path_join d (sst_file_name n)) ` set tabs \<and>
     fs_lookup fs (path_join d (wal_filename w)) = Some bs \<and> fs_lookup fs (path_join d ''MANIFEST'') = Some [] \<and>
     (\<forall>(n, es) \<in> set tabs. \<exists>g. fs_lookup fs (path_join d (sst_file_name n)) = Some g \<and> opens_as x g es)"

text \<open>The tables in the order of their names.\<close>

definition named_in_order :: "string \<Rightarrow> (u64 \<times> kv list) list \<Rightarrow> bool" where
  "named_in_order d tabs \<longleftrightarrow> sorted_wrt (<) (map (\<lambda>(n, es). path_join d (sst_file_name n)) tabs)"

lemma data_dir_scan:
  assumes "data_dir x d w bs tabs fs" and "1 \<le> w" and "named_in_order d tabs"
  shows "latest_wal (map fst (fs_files fs)) (1, path_join d (wal_filename 1)) = (w, path_join d (wal_filename w))"
    and "sort (filter is_table_path (map fst (fs_files fs))) = map (\<lambda>(n, es). path_join d (sst_file_name n)) tabs"
proof -
  let ?w = "path_join d (wal_filename w)" and ?m = "path_join d ''MANIFEST''" and ?t = "\<lambda>(n, es). path_join d (sst_file_name n)"
  have dom: "set (map fst (fs_files fs)) = {?w, ?m} \<union> ?t ` set tabs"
    using assms(1) by (simp add: data_dir_def dom_map_of_conv_image_fst)
  have parse: "\<forall>p \<in> {?w, ?m} \<union> ?t ` set tabs. Option.bind (path_file_name p) parse_wal_filename = (if p = ?w then Some w else None)"
    using table_path_kind not_table_paths(1)[of d w] parse_manifest_name log_file_distinct[of d w]
    by (auto simp: wal_path_name manifest_path_name table_path_name parse_wal_filename_inverse)
  show "latest_wal (map fst (fs_files fs)) (1, path_join d (wal_filename 1)) = (w, ?w)"
    by (subst latest_wal_unique[of _ ?w w]) (use parse assms(2) in \<open>simp_all only: dom, simp_all\<close>)
  have "set (filter is_table_path (map fst (fs_files fs))) = ?t ` set tabs"
    unfolding set_filter dom using not_table_paths[of d] table_path_kind(1)[of d] by auto
  moreover have "distinct (filter is_table_path (map fst (fs_files fs)))"
    using assms(1) by (simp add: data_dir_def fs_distinct_def)
  ultimately show "sort (filter is_table_path (map fst (fs_files fs))) = map ?t tabs"
    using assms(3) by (intro sorted_distinct_set_unique) (simp_all add: named_in_order_def strict_sorted_iff)
qed

text \<open>A database on such a directory, with \<open>n\<close> readers in level 0 and none below.\<close>

definition dir_db :: "ext \<Rightarrow> 'm DB \<Rightarrow> (u64 \<times> kv list) list \<Rightarrow> nat \<Rightarrow> bool" where
  "dir_db x db tabs n \<longleftrightarrow>
     data_dir x (db_path db) (db_wal_file_number db) (log_written db) tabs (db_fs db) \<and>
     WAL_path (db_wal db) = path_join (db_path db) (wal_filename (db_wal_file_number db)) \<and>
     (\<exists>l0 k. db_sstables db = l0 # replicate k [] \<and> length l0 = n \<and> cp_max_levels (db_picker db) = Suc k)"

text \<open>A newly opened database: the log is replayed into the memtable, and file numbers start again at 2.\<close>

definition opened_with :: "'m SkipMap \<Rightarrow> string \<Rightarrow> Options \<Rightarrow> u64 \<Rightarrow> WriteOp list \<Rightarrow> 'm DB \<Rightarrow> bool" where
  "opened_with sm d opts w ops db \<longleftrightarrow>
     db_path db = d \<and> db_options db = opts \<and> db_wal_file_number db = w \<and> db_next_file_number db = 2 \<and>
     db_immutable db = [] \<and> db_sequence db = of_nat (length ops) \<and>
     db_memtable db = MemTable_apply_all sm ops 1 (MemTable_new sm 1)"

lemma DB_open_dir:
  assumes opts: "Options_validate opts = Ok ()" "\<not> error_if_exists opts" "block_cache_size opts < 2 ^ 63" and sm: "skip_map sm"
    and dir: "data_dir x d w bs tabs fs" "1 \<le> w" "named_in_order d tabs" and nums: "distinct (map fst tabs)"
    and log: "WAL_recover (x_crc x) (Ok bs) = Ok (map wal_entry ops)" "length bs < 2 ^ 64"
    and ops: "\<forall>op \<in> set ops. length (op_key op) < 2 ^ 32" "length ops < 2 ^ 64"
  shows "\<exists>db. fst (DB_open x js sm d opts fs) = Ok db \<and> dir_db x db tabs (length tabs) \<and> opened_with sm d opts w ops db \<and>
    (\<forall>key. fst (DB_get x sm key db) = Ok (lsm_get \<lparr>l_mem = ops, l_imm = [], l_tables = [map snd tabs]\<rparr> key))"
proof -
  let ?w = "path_join d (wal_filename w)"
  have fs: "fs_sound fs" "fs_dir fs" and look: "fs_lookup fs ?w = Some bs" "fs_lookup fs (path_join d ''MANIFEST'') = Some []"
    using dir(1) by (simp_all add: data_dir_def)
  have dirs: "prepare_dir d opts fs = (Ok (), fs)" "read_dir_or_empty fs = (map fst (fs_files fs), fs)"
    using fs opts(2) by (simp_all add: prepare_dir_def read_dir_or_empty_def fs_read_dir_def)
  have opened: "fs_open_write False ?w fs = (Ok (file_of bs), fs)" "fs_open_read ?w fs = (Ok bs, fs)" "fs_exists ?w fs"
    using fs_open_write_sound[OF fs(1), of False ?w] fs_open_read_sound[OF fs(1) look(1)] look(1)
    by (simp_all add: fs_store_same fs_exists_def)
  have wal: "WAL_open ?w (Ok (file_of bs)) = Ok (new_wal ?w bs)" "0 < WAL_size (new_wal ?w bs) \<longleftrightarrow> bs \<noteq> []"
    using unat_of_nat_u64[OF log(2)]
    by (auto simp: WAL_open_def WALWriter_new_def new_wal_def file_of_def WAL_size_def word_less_nat_alt)
  have entries: "(if bs \<noteq> [] then case fs_open_read ?w fs of (b, f) \<Rightarrow> (WAL_recover (x_crc x) b, f) else (Ok [], fs)) =
      (Ok (map wal_entry ops), fs)"
    using log(1) wal.recover_all[of "x_crc x" "[]"] opened(2) by auto
  note scan = data_dir_scan[OF dir]
  obtain rds bss where tabs: "load_tables x (map (\<lambda>(n, es). path_join d (sst_file_name n)) tabs) fs = (Ok rds, fs)"
    "list_all2 (\<lambda>rd bs. served x (table_store x rd bs) rd bs \<and> table_rep x rd bs) rds bss"
    "map stored_entries bss = map snd tabs" "map sr_file_number rds = map fst tabs"
    using load_tables_open[OF fs(1), of tabs d x] dir(1) unfolding data_dir_def by blast
  obtain vs where vs: "VersionSet_new js d (max_levels opts) fs = (Ok vs, fs)"
    using VersionSet_new_empty[of fs d js "max_levels opts"] fs(1) look(2) by (auto simp: fs_sound_def fs_store_same)
  obtain k where k: "max_levels opts = Suc k" using opts(1) by (cases "max_levels opts") (auto simp: Options_validate_Ok_iff)
  let ?mt = "MemTable_apply_all sm ops (0 + 1) (MemTable_new sm 1)"
  obtain db where db: "fst (DB_open x js sm d opts fs) = Ok db" "db_memtable db = ?mt" "db_immutable db = []"
    "db_sstables db = rds # replicate k []" "db_cache db = BlockCache_new (block_cache_size opts)" "db_sequence db = of_nat (length ops)"
    "db_path db = d" "db_options db = opts" "db_wal_file_number db = w" "db_next_file_number db = 2" "db_wal db = new_wal ?w bs"
    "db_fs db = fs" "db_picker db = CompactionPicker_new (Suc k)"
    using vs by (simp add: DB_open_def opts dirs scan opened(1,3) wal entries tabs(1) k Let_def replay_apply[OF ops(1)])
  have mt: "mem_rep sm ?mt ops (of_nat (length ops))"
    using mem_rep_apply_all[OF sm mem_rep_new[OF sm], of 0 ops 1] ops(2) by simp
  have coh: "coherent store (db_cache db)" for store
    using opts(3) by (simp add: db(5) coherent_def BlockCache_new_def BlockCache_inv_def lru_abs_def)
  have "distinct (map sr_file_number rds)" using nums tabs(4) by simp
  then obtain store where "list_all2 (\<lambda>rd bs. table_is x store rd (stored_entries bs)) rds bss"
    by (rule tables_store[OF tabs(2)])
  then have "list_all2 (table_is x store) rds (map snd tabs)" unfolding tabs(3)[symmetric] by (simp add: list_all2_map2)
  moreover have "list_all2 (list_all2 (table_is x store)) (replicate k []) (replicate k [])" by (induction k) simp_all
  ultimately have "list_all2 (list_all2 (table_is x store)) (db_sstables db) (map snd tabs # replicate k [])" by (simp add: db(4))
  note lv = search_levels_rep[OF this coh]
  have levels: "fst (search_levels x key (db_sstables db) (db_cache db)) =
      Ok (first_some (map (\<lambda>es. sst_lookup es key) (rev (map snd tabs))))" for key using lv[of key] by auto
  have "mem_read sm key (db_sequence db) db = mem_lookup ops key" for key
    using db(2,3,6) mem_rep_get[OF sm mt order_refl] by (simp add: mem_read_def split: option.split)
  then have "fst (DB_get x sm key db) = Ok (lsm_get \<lparr>l_mem = ops, l_imm = [], l_tables = [map snd tabs]\<rparr> key)" for key
    using levels by (auto simp: DB_get_def get_at_sequence_split lsm_get_def first_some_append split: option.splits)
  moreover have "dir_db x db tabs (length tabs)"
    using dir(1) db(4,7,9,11-13) arg_cong[OF tabs(4), of length]
    by (simp add: dir_db_def new_wal_def BufWriter_new_def file_of_def WAL_path_def CompactionPicker_new_def)
  moreover have "opened_with sm d opts w ops db" using db by (simp add: opened_with_def)
  ultimately show ?thesis using db(1) by blast
qed

section \<open>File names and file numbers\<close>

lemma parse_digits_less_acc:
  assumes "parse_digits a s = Some m" and "parse_digits b t = Some n" and "length s = length t" and "a < b"
  shows "m < n"
  using assms(3,1,2,4)
proof (induction s t arbitrary: a b rule: list_induct2)
  case (Cons c s d t)
  obtain i j where "char_digit c = Some i" "char_digit d = Some j" "parse_digits (10 * a + i) s = Some m"
    "parse_digits (10 * b + j) t = Some n" using Cons.prems by (auto split: option.splits if_splits)
  moreover have "i < 10" using calculation(1) by (auto simp: char_digit_def Let_def split: if_splits)
  ultimately show ?case using Cons.IH[of "10 * a + i" "10 * b + j"] Cons.prems(3) by simp
qed simp

text \<open>Digit strings of one length are ordered as their numbers.\<close>

lemma parse_digits_order:
  assumes "parse_digits a s = Some m" and "parse_digits a t = Some n" and "length s = length t" and "m < n"
  shows "s < t"
  using assms(3,1,2,4)
proof (induction s t arbitrary: a rule: list_induct2)
  case (Cons c s d t)
  obtain i j where ij: "char_digit c = Some i" "char_digit d = Some j" "parse_digits (10 * a + i) s = Some m"
    "parse_digits (10 * a + j) t = Some n" using Cons.prems by (auto split: option.splits if_splits)
  have "i \<le> j" using parse_digits_less_acc[OF ij(4,3)] Cons.hyps Cons.prems(3) by fastforce
  moreover have "c = d" if "i = j"
  proof -
    have "of_char c = i + 48" "of_char d = j + 48" using ij(1,2) by (auto simp: char_digit_def Let_def split: if_splits)
    then have "of_char c = (of_char d :: nat)" using that by metis
    then show ?thesis by simp
  qed
  moreover have "c < d" if "i < j"
    using ij(1,2) that by (auto simp: char_digit_def Let_def less_char_def split: if_splits)
  ultimately show ?case using Cons.IH[of "10 * a + i"] ij(3,4) Cons.prems(3) by (auto simp: order_le_less)
qed simp

lemma fmt_dec_length: "n < 10 ^ Suc k \<Longrightarrow> length (fmt_dec n) \<le> Suc k"
proof (induction k arbitrary: n)
  case (Suc k)
  have "fmt_dec n = fmt_dec (n div 10) @ [digit_char (n mod 10)]" if "\<not> n < 10"
    using that by (simp add: fmt_dec_def fmt_base.simps[of 10 n])
  moreover have "length (fmt_dec (n div 10)) \<le> Suc k" using Suc.prems by (intro Suc.IH) auto
  ultimately show ?case by (cases "n < 10") (simp_all add: fmt_dec_def fmt_base.simps[of 10 n])
qed (simp add: fmt_dec_def fmt_base.simps)

lemma fmt_06_length: "n < 10 ^ 6 \<Longrightarrow> length (fmt_06 n) = 6"
  using fmt_dec_length[of n 5] by (simp add: fmt_06_def)

lemma fmt_06_less: "m < n \<Longrightarrow> n < 10 ^ 6 \<Longrightarrow> fmt_06 m < fmt_06 n"
proof -
  assume mn: "m < n" "n < 10 ^ 6"
  have "parse_digits 0 (fmt_06 k) = Some k" if "k < 10 ^ 6" for k using that by (intro parse_digits_fmt_06) simp
  then show ?thesis using mn fmt_06_length by (intro parse_digits_order[of 0 _ m _ n]) auto
qed

lemma append_less_iff: "length s = length t \<Longrightarrow> s @ u < t @ u \<longleftrightarrow> s < (t :: string)"
  by (induction s t rule: list_induct2) auto

lemma path_join_less: "path_join d s < path_join d t \<longleftrightarrow> s < t"
  by (induction d) (simp_all add: path_join_def)

text \<open>Tables with ascending numbers below one million are named in order.\<close>

lemma ascending_named:
  assumes "sorted_wrt (<) (map fst tabs)" and "\<forall>t \<in> set tabs. unat (fst t) < 10 ^ 6"
  shows "named_in_order d tabs"
proof -
  have "path_join d (sst_file_name (fst a)) < path_join d (sst_file_name (fst b))"
    if "a \<in> set tabs" "b \<in> set tabs" "fst a < fst b" for a b
    using that assms(2) fmt_06_less[of "unat (fst a)" "unat (fst b)"]
    by (simp add: path_join_less sst_file_name_def append_less_iff fmt_06_length word_less_nat_alt)
  then show ?thesis
    using assms(1) sorted_wrt_mono_rel[of tabs "\<lambda>a b. fst a < fst b"] unfolding named_in_order_def sorted_wrt_map
    by (simp add: case_prod_beta)
qed

end
