(* ===== verification/DB_Reopen.thy ===== *)
theory DB_Reopen
  imports DB_Directory
begin

text \<open>
  Closing and reopening: a flush leaves one table for every memtable and an empty log on disk, and
  opening that directory loads the tables. File numbers start again at 2, so the first flush after
  reopening replaces the table with that number.
\<close>

section \<open>The directory after a flush\<close>

lemma no_compaction_needed:
  assumes "db_sstables db = l0 # replicate n []" and "length l0 < MAX_LEVEL0_FILES" and "cp_max_levels (db_picker db) = Suc n"
  shows "maybe_trigger_compaction x js db = (Ok (), db)"
proof -
  let ?ls = "db_sstables db"
  have "pick_compaction (db_picker db) ?ls = pick_levels_loop ?ls n 1"
    using assms by (simp add: pick_compaction_def)
  moreover obtain r where r: "pick_levels_loop ?ls n 1 = Ok r"
    "case r of None \<Rightarrow> True | Some t \<Rightarrow> 1 \<le> ct_level t \<and> ct_level t < n \<and> ct_output_level t = ct_level t + 1 \<and>
       ?ls ! ct_level t \<noteq> [] \<and> ct_inputs t = [?ls ! ct_level t ! 0]"
    using pick_levels_loop_spec[of n ?ls 1] assms(1) by (fastforce split: option.splits)
  moreover have "r = None" using r(2) assms(1) by (auto simp: nth_Cons' split: option.splits)
  ultimately show ?thesis by (simp add: maybe_trigger_compaction_def)
qed

text \<open>Writing the table number \<open>num\<close> replaces a table with that number.\<close>

definition put_table :: "u64 \<Rightarrow> kv list \<Rightarrow> (u64 \<times> kv list) list \<Rightarrow> (u64 \<times> kv list) list" where
  "put_table num es tabs = filter (\<lambda>t. fst t \<noteq> num) tabs @ [(num, es)]"

fun put_tables :: "u64 \<Rightarrow> kv list list \<Rightarrow> (u64 \<times> kv list) list \<Rightarrow> (u64 \<times> kv list) list" where
  "put_tables num [] tabs = tabs"
| "put_tables num (es # ess) tabs = put_tables (num + 1) ess (put_table num es tabs)"

lemma data_dir_put:
  assumes "data_dir x d w bs tabs fs" and "opens_as x g es"
  shows "data_dir x d w bs (put_table num es tabs) (fs_store (path_join d (sst_file_name num)) g fs)"
proof -
  let ?p = "path_join d (sst_file_name num)" and ?t = "\<lambda>(n, es :: kv list). path_join d (sst_file_name n)"
  have dom: "dom (fs_lookup fs) = {path_join d (wal_filename w), path_join d ''MANIFEST''} \<union> ?t ` set tabs"
    using assms(1) by (simp add: data_dir_def)
  have tabs: "?t ` set (put_table num es tabs) = insert ?p (?t ` set tabs)"
    by (fastforce simp: put_table_def image_iff)
  have "dom (fs_lookup (fs_store ?p g fs)) = {path_join d (wal_filename w), path_join d ''MANIFEST''} \<union> ?t ` set (put_table num es tabs)"
    unfolding tabs using dom by auto
  moreover have "\<forall>(n, es') \<in> set (put_table num es tabs). \<exists>g'. fs_lookup (fs_store ?p g fs) (path_join d (sst_file_name n)) = Some g' \<and> opens_as x g' es'"
    using assms by (auto simp: put_table_def data_dir_def)
  ultimately show ?thesis using assms(1) unfolding data_dir_def by simp
qed

text \<open>The new log replaces the old one.\<close>

lemma rotate_wal_dir:
  assumes "dir_db x db tabs n"
  obtains db' where "rotate_wal db = (Ok (), db')" "dir_db x db' tabs n" "db_wal_file_number db' = db_wal_file_number db + 1"
    "db_wal db' = new_wal (path_join (db_path db) (wal_filename (db_wal_file_number db'))) []"
    "db_sstables db' = db_sstables db" "db_picker db' = db_picker db" "db_path db' = db_path db" "db_options db' = db_options db"
    "\<forall>sm a. mems_rep sm db' a \<longleftrightarrow> mems_rep sm db a"
proof -
  let ?d = "db_path db" and ?w = "db_wal_file_number db"
  let ?p = "path_join ?d (wal_filename (?w + 1))"
  have dir: "data_dir x ?d ?w (log_written db) tabs (db_fs db)" "WAL_path (db_wal db) = path_join ?d (wal_filename ?w)"
    using assms by (simp_all add: dir_db_def)
  have w: "?w + 1 \<noteq> ?w" by simp
  have "?p \<notin> dom (fs_lookup (db_fs db))" using dir(1) w by (auto simp: data_dir_def)
  then have none: "fs_lookup (db_fs db) ?p = None" by blast
  obtain fs' where fs': "rotate_wal db = (Ok (), db\<lparr>db_wal_file_number := ?w + 1, db_wal := new_wal ?p [], db_fs := fs'\<rparr>)"
    "fs_sound fs'" "fs_dir fs' = fs_dir (db_fs db)" "fs_distinct (db_fs db) \<longrightarrow> fs_distinct fs'"
    "fs_lookup fs' = (fs_lookup (db_fs db))(?p \<mapsto> [], WAL_path (db_wal db) := None)"
    using rotate_wal_files[of db] dir(1) none by (auto simp: data_dir_def)
  have keep: "fs_lookup fs' (path_join ?d (sst_file_name k)) = fs_lookup (db_fs db) (path_join ?d (sst_file_name k))"
    "fs_lookup fs' (path_join ?d ''MANIFEST'') = fs_lookup (db_fs db) (path_join ?d ''MANIFEST'')" "fs_lookup fs' ?p = Some []" for k
    using w by (simp_all add: fs'(5) dir(2))
  have "dom (fs_lookup fs') = {?p, path_join ?d ''MANIFEST''} \<union> (\<lambda>(n, es). path_join ?d (sst_file_name n)) ` set tabs"
    using dir(1) w unfolding fs'(5) dir(2) by (auto simp: data_dir_def)
  then have "data_dir x ?d (?w + 1) [] tabs fs'"
    using dir(1) fs'(2-4) keep unfolding data_dir_def by simp
  then have "dir_db x (db\<lparr>db_wal_file_number := ?w + 1, db_wal := new_wal ?p [], db_fs := fs'\<rparr>) tabs n"
    using assms by (simp add: dir_db_def new_wal_def BufWriter_new_def file_of_def WAL_path_def)
  then show ?thesis using that[OF fs'(1)] by (simp add: mems_rep_def)
qed

lemma flush_immutables_dir:
  assumes "list_all2 (\<lambda>mt ops. mem_rep sm mt ops seq) mts opss" and "\<forall>ops \<in> set opss. flushable ops \<and> ops \<noteq> []"
    and "compression (db_options db) = Snappy \<longrightarrow> snappy_law x" and "dir_db x db tabs n" and "mts = [] \<Longrightarrow> db_immutable db = []"
  shows "\<exists>db'. flush_immutables x sm mts db = (Ok (), db') \<and>
    dir_db x db' (put_tables (db_next_file_number db) (map flush_entries opss) tabs) (n + length opss) \<and>
    same_but_tables (db\<lparr>db_immutable := []\<rparr>) db'"
  using assms
proof (induction mts opss arbitrary: db tabs n rule: list_all2_induct)
  case Nil
  then have "db\<lparr>db_immutable := []\<rparr> = db" by simp
  then show ?case using Nil(3) by (simp add: same_but_tables_refl)
next
  case (Cons mt mts ops opss)
  let ?db = "db\<lparr>db_immutable := mts\<rparr>" and ?num = "db_next_file_number db"
  have fl: "[] \<notin> op_key ` set ops" "ops \<noteq> []" "kv_size (flush_entries ops) + 8 < 2 ^ 32"
    using Cons.prems(1) by (simp_all add: flushable_def)
  obtain l0 k where l: "db_sstables ?db = l0 # replicate k []" "length l0 = n" "cp_max_levels (db_picker db) = Suc k"
    and dir: "data_dir x (db_path db) (db_wal_file_number db) (log_written db) tabs (db_fs db)"
    using Cons.prems(3) by (auto simp: dir_db_def)
  have env: "compression (db_options ?db) = Snappy \<longrightarrow> snappy_law x" "fs_sound (db_fs ?db)"
    using Cons.prems(2) dir by (simp_all add: data_dir_def)
  obtain g rd bs where f: "flush_memtable_to_sstable x sm mt ?db = (Ok (db_next_file_number ?db),
      ?db\<lparr>db_next_file_number := db_next_file_number ?db + 1,
          db_fs := fs_store (path_join (db_path ?db) (sst_file_name (db_next_file_number ?db))) g (db_fs ?db),
          db_sstables := (rd # l0) # replicate k []\<rparr>)" "opens_as x g (flush_entries ops)"
    by (rule flush_memtable_files[OF Cons.hyps(1) fl env l(1)])
  define db1 where "db1 = ?db\<lparr>db_next_file_number := ?num + 1,
      db_fs := fs_store (path_join (db_path db) (sst_file_name ?num)) g (db_fs db), db_sstables := (rd # l0) # replicate k []\<rparr>"
  have "dir_db x db1 (put_table ?num (flush_entries ops) tabs) (Suc n)"
    using Cons.prems(3) data_dir_put[OF dir f(2), of ?num] l by (simp add: dir_db_def db1_def)
  then obtain db' where "flush_immutables x sm mts db1 = (Ok (), db')"
    "dir_db x db' (put_tables (?num + 1) (map flush_entries opss) (put_table ?num (flush_entries ops) tabs)) (Suc n + length opss)"
    "same_but_tables (db1\<lparr>db_immutable := []\<rparr>) db'"
    using Cons.IH[of db1 "put_table ?num (flush_entries ops) tabs" "Suc n"] Cons.prems(1,2) by (auto simp: db1_def)
  then show ?case using f(1) by (auto simp: db1_def same_but_tables_def)
qed

lemma DB_flush_dir:
  assumes sm: "skip_map sm" and mem: "mems_rep sm db a" and fl: "\<forall>ops \<in> set (lsm_pending a). flushable ops \<and> ops \<noteq> []"
    and snap: "compression (db_options db) = Snappy \<longrightarrow> snappy_law x" and dir: "dir_db x db tabs n"
    and few: "n + length (lsm_pending a) < MAX_LEVEL0_FILES"
  obtains db' where "DB_flush x js sm db = (Ok (), db')"
    "dir_db x db' (put_tables (db_next_file_number db) (map flush_entries (lsm_pending a)) tabs) (n + length (lsm_pending a))"
    "db_wal_file_number db' = db_wal_file_number db + 1" "db_path db' = db_path db" "db_options db' = db_options db"
    "db_wal db' = new_wal (path_join (db_path db) (wal_filename (db_wal_file_number db'))) []"
proof -
  let ?runs = "lsm_pending a"
  define db1 where "db1 = (if l_mem a = [] then db else snd (freeze_memtable sm db))"
  have mt: "mem_rep sm (db_memtable db) (l_mem a) (db_sequence db)" using mem by (simp add: mems_rep_def)
  have frz: "(if MemTable_is_empty sm (db_memtable db) then (Ok (), db) else freeze_memtable sm db) = (Ok (), db1)"
    using is_empty_rep[OF sm mt] by (simp add: db1_def freeze_memtable_def)
  have same: "db_path db1 = db_path db" "db_options db1 = db_options db" "db_fs db1 = db_fs db" "db_wal db1 = db_wal db"
    "db_next_file_number db1 = db_next_file_number db" "db_picker db1 = db_picker db" "db_wal_file_number db1 = db_wal_file_number db"
    "db_sstables db1 = db_sstables db" by (simp_all add: db1_def freeze_memtable_def)
  have runs: "list_all2 (\<lambda>mt ops. mem_rep sm mt ops (db_sequence db)) (db_immutable db1) ?runs"
    using mem by (auto simp: mems_rep_def lsm_pending_def db1_def freeze_memtable_def intro: list_all2_appendI)
  have snap1: "compression (db_options db1) = Snappy \<longrightarrow> snappy_law x" and dir1: "dir_db x db1 tabs n"
    using snap dir by (simp_all add: same dir_db_def)
  obtain db2 where db2: "flush_immutables x sm (db_immutable db1) db1 = (Ok (), db2)"
    "dir_db x db2 (put_tables (db_next_file_number db) (map flush_entries ?runs) tabs) (n + length ?runs)"
    "same_but_tables (db1\<lparr>db_immutable := []\<rparr>) db2"
    using flush_immutables_dir[OF runs fl snap1 dir1] by (auto simp: same)
  then have s2: "db_path db2 = db_path db" "db_options db2 = db_options db" "db_wal_file_number db2 = db_wal_file_number db"
    using same by (simp_all add: same_but_tables_def)
  obtain db3 where db3: "rotate_wal db2 = (Ok (), db3)"
    "dir_db x db3 (put_tables (db_next_file_number db) (map flush_entries ?runs) tabs) (n + length ?runs)"
    "db_wal_file_number db3 = db_wal_file_number db2 + 1"
    "db_wal db3 = new_wal (path_join (db_path db2) (wal_filename (db_wal_file_number db3))) []"
    "db_path db3 = db_path db2" "db_options db3 = db_options db2" by (rule rotate_wal_dir[OF db2(2)])
  obtain l0 k where "db_sstables db3 = l0 # replicate k []" "length l0 = n + length ?runs" "cp_max_levels (db_picker db3) = Suc k"
    using db3(2) by (auto simp: dir_db_def)
  then have "maybe_trigger_compaction x js db3 = (Ok (), db3)" using few by (intro no_compaction_needed[of db3 l0 k]) simp_all
  then have "DB_flush x js sm db = (Ok (), db3)" using frz db2(1) db3(1) by (simp add: DB_flush_def)
  then show ?thesis using that db3 s2 by simp
qed

text \<open>Dropping the database syncs the empty log, which changes nothing.\<close>

lemma DB_drop_files:
  assumes "DB_flush x js sm db = (r, db')" and "db_wal db' = new_wal p []" and "fs_lookup (db_fs db') p = Some []"
  shows "DB_drop x js sm db = db_fs db'"
proof -
  have sync: "WAL_sync (new_wal p []) = (Ok (), new_wal p [])"
    by (simp add: WAL_sync_def WALWriter_sync_def new_wal_def BufWriter_new_def BufWriter_flush_def BufWriter_flush_buf_def
        file_write_all_def BufWriter_sync_all_def file_sync_all_def next_fault_def file_of_def)
  have data: "wf_data (WALWriter_drop (wal_writer (new_wal p []))) = []" "WAL_path (new_wal p []) = p"
    "wf_data (bw_file (ww_writer (wal_writer (new_wal p [])))) = []"
    by (simp_all add: WALWriter_drop_def new_wal_def BufWriter_new_def BufWriter_flush_def BufWriter_flush_buf_def
        file_write_all_def file_of_def WAL_path_def)
  have "wal_sync db' = (Ok (), db')"
    using assms(2,3) sync data by (simp add: wal_sync_def set_wal_def fs_store_same)
  then show ?thesis
    using assms data by (simp add: DB_drop_def Let_def set_file_def fs_store_same)
qed

section \<open>Dropping and reopening\<close>

text \<open>A table holds the values of a memtable, except empty ones.\<close>

lemma sst_lookup_flushed:
  assumes "mem_rep sm mt ops seq" and "[] \<notin> op_key ` set ops"
  shows "sst_lookup (flush_entries ops) key = (case mem_lookup ops key of Some v \<Rightarrow> if v = [] then None else Some v | None \<Rightarrow> None)"
  using memtable_entries(3)[OF assms, of key] last_op_values[of ops key]
  by (auto simp: sst_lookup_def mem_lookup_last split: option.splits ValueType.splits prod.splits)

lemma DB_drop_reopen:
  assumes sm: "skip_map sm" and opts: "Options_validate opts = Ok ()" "\<not> error_if_exists opts" "block_cache_size opts < 2 ^ 63"
    and mem: "mems_rep sm db a" and fl: "\<forall>ops \<in> set (lsm_pending a). flushable ops \<and> ops \<noteq> []"
    and snap: "compression (db_options db) = Snappy \<longrightarrow> snappy_law x" and dir: "dir_db x db tabs n"
    and few: "n + length (lsm_pending a) < MAX_LEVEL0_FILES" and w: "1 \<le> db_wal_file_number db + 1"
  defines "tabs' \<equiv> put_tables (db_next_file_number db) (map flush_entries (lsm_pending a)) tabs"
  assumes order: "named_in_order (db_path db) tabs'" "distinct (map fst tabs')"
  shows "\<exists>db'. fst (DB_open x js sm (db_path db) opts (DB_drop x js sm db)) = Ok db' \<and> dir_db x db' tabs' (length tabs') \<and>
    opened_with sm (db_path db) opts (db_wal_file_number db + 1) [] db' \<and>
    (\<forall>key. fst (DB_get x sm key db') = Ok (lsm_get \<lparr>l_mem = [], l_imm = [], l_tables = [map snd tabs']\<rparr> key))"
proof -
  obtain db1 where db1: "DB_flush x js sm db = (Ok (), db1)" "dir_db x db1 tabs' (n + length (lsm_pending a))"
    "db_wal_file_number db1 = db_wal_file_number db + 1" "db_path db1 = db_path db"
    "db_wal db1 = new_wal (path_join (db_path db) (wal_filename (db_wal_file_number db1))) []"
    unfolding tabs'_def by (rule DB_flush_dir[OF sm mem fl snap dir few])
  then have data: "data_dir x (db_path db) (db_wal_file_number db + 1) [] tabs' (db_fs db1)"
    by (simp add: dir_db_def new_wal_def BufWriter_new_def file_of_def)
  then have "DB_drop x js sm db = db_fs db1"
    by (intro DB_drop_files[OF db1(1,5)]) (simp add: data_dir_def db1(3))
  then show ?thesis
    using DB_open_dir[OF opts sm data w order, of "[]" js] wal.recover_all[of "x_crc x" "[]"] by simp
qed

section \<open>Write calls on a directory\<close>

text \<open>What replacing the log by one with the same path keeps, logging keeps.\<close>

lemma log_ops_keeps:
  assumes step: "\<And>w db. P db \<Longrightarrow> WAL_path w = WAL_path (db_wal db) \<Longrightarrow> P (set_wal w db)" and start: "P db"
  shows "P (snd (log_ops x ops db))"
proof -
  have app: "P (snd (wal_append_all x ops db))" if "P db" for db
    using that
  proof (induction x ops db rule: wal_append_all.induct)
    case (2 x op ops db)
    obtain q w where q: "WAL_append (x_crc x) (wal_entry op) (db_wal db) = (q, w)" by fastforce
    have "WAL_path w = WAL_path (db_wal db)"
      using q by (cases rule: append_cases[of "x_crc x" "wal_entry op" "wal_writer (db_wal db)"]) (auto simp: WAL_append_def WAL_path_def)
    then have "P (set_wal w db)" by (rule step[OF 2(2)])
    then show ?case using 2(1)[OF q[symmetric]] q by (cases q) simp_all
  qed simp
  have sync: "P (snd (wal_sync db))" if "P db" for db
  proof -
    obtain r w where w: "WALWriter_sync (wal_writer (db_wal db)) = (r, w)" by fastforce
    then show ?thesis using step[OF that, of "\<lparr>wal_writer = w\<rparr>"] WALWriter_sync_cases(2)[OF w]
      by (simp add: wal_sync_def WAL_sync_def WAL_path_def)
  qed
  obtain q db1 where "wal_append_all x ops db = (q, db1)" by fastforce
  then show ?thesis using app[OF start] sync[of db1] start by (cases q) (auto simp: log_ops_def)
qed

lemma dir_db_same:
  assumes "db_path db' = db_path db" "db_wal_file_number db' = db_wal_file_number db" "db_wal db' = db_wal db" "db_fs db' = db_fs db"
    "db_sstables db' = db_sstables db" "db_picker db' = db_picker db"
  shows "dir_db x db' tabs n \<longleftrightarrow> dir_db x db tabs n"
  using assms by (simp add: dir_db_def)

lemma dir_db_set_wal:
  assumes "dir_db x db tabs n" and "WAL_path w = WAL_path (db_wal db)"
  shows "dir_db x (set_wal w db) tabs n"
  using assms unfolding dir_db_def data_dir_def by (auto simp: set_wal_def)

lemma DB_call_dir:
  assumes "DB_call x sm c db = (r, db')" and "dir_db x db tabs n"
  shows "dir_db x db' tabs n"
  using assms(1)
proof (cases rule: DB_call_cases)
  case empty
  then show ?thesis using assms(2) by simp
next
  let ?db0 = "db\<lparr>db_sequence := db_sequence db + of_nat (length (call_ops c))\<rparr>"
  have "dir_db x ?db0 tabs n" using assms(2) dir_db_same[of ?db0 db] by simp
  from log_ops_keeps[where P = "\<lambda>db. dir_db x db tabs n", OF dir_db_set_wal this]
  have log: "dir_db x (snd (log_ops x (call_ops c) ?db0)) tabs n" by simp
  {
    case (logged db1)
    then show ?thesis using log apply_and_freeze_fields[OF logged(3)] dir_db_same[of db' db1] by simp
  next
    case failed
    then show ?thesis using log by simp
  }
qed

lemma DB_calls_dir: "DB_calls x sm cs db = (r, db') \<Longrightarrow> dir_db x db tabs n \<Longrightarrow> dir_db x db' tabs n"
  by (induction rule: DB_calls_induct) (auto intro: DB_call_dir)

text \<open>A new database.\<close>

lemma opened_db_dir:
  assumes "fs_sound fs" and "fs_dir fs" and "0 < max_levels opts"
  shows "dir_db x (opened_db sm path opts [] [] fs) [] 0"
proof -
  obtain k where k: "max_levels opts = Suc k" using assms(3) by (cases "max_levels opts") auto
  then show ?thesis
    using assms by (auto simp: dir_db_def data_dir_def opened_db_def Let_def fs_sound_def fs_distinct_def BufWriter_new_def WAL_path_def
        CompactionPicker_new_def split: if_splits)
qed

lemma opened_db_with: "opened_with sm path opts 1 [] (opened_db sm path opts [] [] fs)"
  by (simp add: opened_with_def opened_db_def Let_def)

section \<open>Sessions\<close>

text \<open>What can be read from a table with the last operations on its keys: an empty value stands for a deletion.\<close>

definition visible :: "WriteOp list \<Rightarrow> bytes \<Rightarrow> bytes option" where
  "visible ops key = (case apply_ops ops Map.empty key of Some v \<Rightarrow> if v = [] then None else Some v | None \<Rightarrow> None)"

lemma sst_lookup_visible:
  assumes "mem_rep sm mt ops seq" and "[] \<notin> op_key ` set ops"
  shows "sst_lookup (flush_entries ops) key = visible ops key"
  using sst_lookup_flushed[OF assms] by (simp add: visible_def mem_lookup_def)

lemma lsm_get_tables: "lsm_get \<lparr>l_mem = [], l_imm = [], l_tables = [ts]\<rparr> key = first_some (map (\<lambda>es. sst_lookup es key) (rev ts))"
  by (simp add: lsm_get_def mem_lookup_def)

lemma named_in_order_one: "named_in_order d [t]"
  by (simp add: named_in_order_def)

text \<open>
  One session on a directory with at most one table: calls that do not fill a memtable, then dropping
  and reopening. If the directory has a table, it has the number 2, which the new table gets.
\<close>

lemma session_reopen:
  assumes sm: "skip_map sm" and opts: "Options_validate opts = Ok ()" "\<not> error_if_exists opts" "block_cache_size opts < 2 ^ 63"
    and snap: "compression opts = Snappy \<longrightarrow> snappy_law x"
    and dir: "dir_db x db tabs n" and opened: "opened_with sm d opts w [] db" and tabs: "fst ` set tabs \<subseteq> {2}" "n \<le> 1" "1 \<le> w + 1"
    and run: "DB_calls x sm cs db = (Ok (), db1)" and room: "length (calls_ops cs) < 2 ^ 64"
    and imm: "db_immutable db1 = []" and fl: "flushable (calls_ops cs)" "calls_ops cs \<noteq> []"
  shows "\<exists>db2. fst (DB_open x js sm d opts (DB_drop x js sm db1)) = Ok db2 \<and>
    dir_db x db2 [(2, flush_entries (calls_ops cs))] 1 \<and> opened_with sm d opts (w + 1) [] db2 \<and>
    (\<forall>key. fst (DB_get x sm key db2) = Ok (visible (calls_ops cs) key))"
proof -
  let ?ops = "calls_ops cs"
  have o: "db_path db = d" "db_options db = opts" "db_wal_file_number db = w" "db_next_file_number db = 2"
    "db_sequence db = 0" "mems_rep sm db (mem_store 0 [])"
    using opened mem_rep_new[OF sm] by (auto simp: opened_with_def mems_rep_def)
  obtain a where a: "lsm_extends ?ops (mem_store 0 []) a" "mems_rep sm db1 a"
    using DB_calls_mems[OF sm o(6) _ run] room o(5) by auto
  then have "l_imm a = []" using imm by (simp add: mems_rep_def)
  then have "l_mem a = ?ops" using a(1) by (auto simp: lsm_extends_def)
  then have pend: "lsm_pending a = [?ops]" using \<open>l_imm a = []\<close> fl(2) by (simp add: lsm_pending_def)
  have d1: "db_path db1 = d" "db_options db1 = opts" "db_wal_file_number db1 = w" "db_next_file_number db1 = 2"
    using DB_calls_parts[OF run] o by (simp_all add: same_parts_def)
  have new: "put_tables 2 [flush_entries ?ops] tabs = [(2, flush_entries ?ops)]"
    using tabs(1) by (auto simp: put_table_def filter_empty_conv)
  have mt: "mem_rep sm (db_memtable db1) ?ops (db_sequence db1)" using a(2) \<open>l_mem a = ?ops\<close> by (simp add: mems_rep_def)
  have "sst_lookup (flush_entries ?ops) key = visible ?ops key" for key
    by (rule sst_lookup_visible[OF mt]) (use fl(1) in \<open>simp add: flushable_def\<close>)
  then have vis: "lsm_get \<lparr>l_mem = [], l_imm = [], l_tables = [[flush_entries ?ops]]\<rparr> key = visible ?ops key" for key
    by (cases "visible ?ops key") (simp_all add: lsm_get_tables)
  show ?thesis
    using DB_drop_reopen[OF sm opts a(2) _ _ DB_calls_dir[OF run dir], of js] snap d1 fl tabs(2,3) new
    by (simp add: pend named_in_order_one MAX_LEVEL0_FILES_def vis)
qed

end
