(* ===== verification/DB_Iter.thy ===== *)
theory DB_Iter
  imports DB_Calls
begin

text \<open>
  \<^verbatim>\<open>src/src/iterator.rs\<close>: the iterator over the database. It collects the keys of all layers when
  it is created and reads the value of a key when it moves there, at the sequence number of its
  creation. The database it refers to is passed along; reading changes only the block cache.
\<close>

section \<open>Definitions\<close>

record DBIterator =
  di_current :: "(bytes \<times> bytes) option"
  di_sequence :: u64
  di_keys :: "bytes list"
  di_position :: nat

text \<open>The keys of the tables, in the order of the loops.\<close>

fun tables_keys :: "ext \<Rightarrow> SSTableReader list \<Rightarrow> bytes list res" where
  "tables_keys x [] = Ok []"
| "tables_keys x (rd # rds) = bind_res (SSTableReader_keys x rd) (\<lambda>ks. bind_res (tables_keys x rds) (\<lambda>ks'. Ok (ks @ ks')))"

definition collect_keys ::
  "ext \<Rightarrow> 'm SkipMap \<Rightarrow> bytes option \<Rightarrow> bytes option \<Rightarrow> 'm DB \<Rightarrow> DBIterator \<Rightarrow> DBIterator res" where
  "collect_keys x sm start limit db it =
     (let mem_keys = MemTable_keys sm (db_memtable db) @ concat (map (MemTable_keys sm) (db_immutable db)) in
      bind_res (tables_keys x (concat (db_sstables db))) (\<lambda>table_keys.
        let all_keys = sort (remdups (mem_keys @ table_keys)) in
        Ok (it\<lparr>di_keys := filter (\<lambda>key. (case start of None \<Rightarrow> True | Some s \<Rightarrow> s \<le> key) \<and>
                                     (case limit of None \<Rightarrow> True | Some e \<Rightarrow> key < e)) all_keys\<rparr>)))"

text \<open>
  \<^verbatim>\<open>load_current\<close> and \<^verbatim>\<open>next\<close> call each other: a key without a value is skipped, and an error
  that occurs while skipping is dropped, as is one in \<^verbatim>\<open>next\<close>.
\<close>

function load_current :: "ext \<Rightarrow> 'm SkipMap \<Rightarrow> DBIterator \<Rightarrow> 'm DB \<Rightarrow> unit res \<times> DBIterator \<times> 'm DB" where
  "load_current x sm it db =
     (if length (di_keys it) \<le> di_position it then (Ok (), it\<lparr>di_current := None\<rparr>, db)
      else
        let key = di_keys it ! di_position it in
        case DB_get_at_sequence x sm key (di_sequence it) db of
          (Ok (Some v), db) \<Rightarrow> (Ok (), it\<lparr>di_current := Some (key, v)\<rparr>, db)
        | (Ok None, db) \<Rightarrow>
            (case load_current x sm (it\<lparr>di_position := di_position it + 1\<rparr>) db of
               (Panic, s) \<Rightarrow> (Panic, s)
             | (_, s) \<Rightarrow> (Ok (), s))
        | (Err e, db) \<Rightarrow> (Err e, it, db)
        | (Panic, db) \<Rightarrow> (Panic, it, db))"
  by pat_completeness auto
termination
  by (relation "measure (\<lambda>(x, sm, it, db). length (di_keys it) - di_position it)") auto

declare load_current.simps [simp del]

definition ignore_error :: "unit res \<times> 's \<Rightarrow> unit res \<times> 's" where
  "ignore_error r = (case r of (Panic, s) \<Rightarrow> (Panic, s) | (_, s) \<Rightarrow> (Ok (), s))"

definition DBIterator_next :: "ext \<Rightarrow> 'm SkipMap \<Rightarrow> DBIterator \<Rightarrow> 'm DB \<Rightarrow> unit res \<times> DBIterator \<times> 'm DB" where
  "DBIterator_next x sm it db = ignore_error (load_current x sm (it\<lparr>di_position := di_position it + 1\<rparr>) db)"

definition DBIterator_prev :: "ext \<Rightarrow> 'm SkipMap \<Rightarrow> DBIterator \<Rightarrow> 'm DB \<Rightarrow> unit res \<times> DBIterator \<times> 'm DB" where
  "DBIterator_prev x sm it db =
     (if 0 < di_position it then ignore_error (load_current x sm (it\<lparr>di_position := di_position it - 1\<rparr>) db)
      else (Ok (), it\<lparr>di_current := None\<rparr>, db))"

text \<open>\<^verbatim>\<open>binary_search_by\<close> on sorted keys: the position of the target, or where it would be inserted.\<close>

definition DBIterator_seek :: "ext \<Rightarrow> 'm SkipMap \<Rightarrow> bytes \<Rightarrow> DBIterator \<Rightarrow> 'm DB \<Rightarrow> unit res \<times> DBIterator \<times> 'm DB" where
  "DBIterator_seek x sm target it db =
     ignore_error (load_current x sm (it\<lparr>di_position := length (takeWhile (\<lambda>k. k < target) (di_keys it))\<rparr>) db)"

definition DBIterator_seek_to_first :: "ext \<Rightarrow> 'm SkipMap \<Rightarrow> DBIterator \<Rightarrow> 'm DB \<Rightarrow> unit res \<times> DBIterator \<times> 'm DB" where
  "DBIterator_seek_to_first x sm it db = ignore_error (load_current x sm (it\<lparr>di_position := 0\<rparr>) db)"

definition DBIterator_seek_to_last :: "ext \<Rightarrow> 'm SkipMap \<Rightarrow> DBIterator \<Rightarrow> 'm DB \<Rightarrow> unit res \<times> DBIterator \<times> 'm DB" where
  "DBIterator_seek_to_last x sm it db =
     (if di_keys it \<noteq> [] then ignore_error (load_current x sm (it\<lparr>di_position := length (di_keys it) - 1\<rparr>) db)
      else (Ok (), it\<lparr>di_current := None\<rparr>, db))"

definition DBIterator_valid :: "DBIterator \<Rightarrow> bool" where
  "DBIterator_valid it \<longleftrightarrow> di_current it \<noteq> None"

definition DBIterator_key :: "DBIterator \<Rightarrow> bytes res" where
  "DBIterator_key it = (case di_current it of None \<Rightarrow> Panic | Some (k, _) \<Rightarrow> Ok k)"

definition DBIterator_value :: "DBIterator \<Rightarrow> bytes res" where
  "DBIterator_value it = (case di_current it of None \<Rightarrow> Panic | Some (_, v) \<Rightarrow> Ok v)"

definition DBIterator_new_range ::
  "ext \<Rightarrow> 'm SkipMap \<Rightarrow> u64 \<Rightarrow> bytes option \<Rightarrow> bytes option \<Rightarrow> 'm DB \<Rightarrow> DBIterator res \<times> 'm DB" where
  "DBIterator_new_range x sm seq start limit db =
     (let it = \<lparr>di_current = None, di_sequence = seq, di_keys = [], di_position = 0\<rparr> in
      try_st (collect_keys x sm start limit db it, db) (\<lambda>it db.
        if di_keys it \<noteq> [] then
          (case load_current x sm (it\<lparr>di_position := 0\<rparr>) db of
             (Ok _, it, db) \<Rightarrow> (Ok it, db) | (Err e, _, db) \<Rightarrow> (Err e, db) | (Panic, _, db) \<Rightarrow> (Panic, db))
        else (Ok it, db)))"

definition DBIterator_new :: "ext \<Rightarrow> 'm SkipMap \<Rightarrow> u64 \<Rightarrow> 'm DB \<Rightarrow> DBIterator res \<times> 'm DB" where
  "DBIterator_new x sm seq db = DBIterator_new_range x sm seq None None db"

text \<open>\<^verbatim>\<open>iter\<close> unwraps the result.\<close>

definition DB_iter :: "ext \<Rightarrow> 'm SkipMap \<Rightarrow> 'm DB \<Rightarrow> DBIterator res \<times> 'm DB" where
  "DB_iter x sm db =
     (case DBIterator_new x sm (db_sequence db) db of
        (Err e, db) \<Rightarrow> (Panic, db)
      | r \<Rightarrow> r)"

definition DB_scan :: "ext \<Rightarrow> 'm SkipMap \<Rightarrow> bytes option \<Rightarrow> bytes option \<Rightarrow> 'm DB \<Rightarrow> DBIterator res \<times> 'm DB" where
  "DB_scan x sm start limit db = DBIterator_new_range x sm (db_sequence db) start limit db"

section \<open>The client's loop\<close>

lemma load_current_fields:
  "load_current x sm it db = (r, it', db') \<Longrightarrow>
     di_keys it' = di_keys it \<and> di_sequence it' = di_sequence it \<and> di_position it \<le> di_position it' \<and>
     (length (di_keys it) \<le> di_position it \<longrightarrow> di_current it' = None)"
proof (induction x sm it db arbitrary: r it' db' rule: load_current.induct)
  case (1 x sm it db)
  show ?case
  proof (cases "length (di_keys it) \<le> di_position it")
    case True
    then show ?thesis using 1(2) by (subst (asm) load_current.simps) auto
  next
    case False
    obtain g db1 where g: "DB_get_at_sequence x sm (di_keys it ! di_position it) (di_sequence it) db = (g, db1)" by fastforce
    show ?thesis
    proof (cases "g = Ok None")
      case True
      obtain q it1 db2 where q: "load_current x sm (it\<lparr>di_position := di_position it + 1\<rparr>) db1 = (q, it1, db2)" by (metis prod.collapse)
      then have "it' = it1" using 1(2) False g True by (subst (asm) load_current.simps) (cases q; simp add: Let_def)
      then show ?thesis using 1(1)[OF False refl g[symmetric] True refl q] False by auto
    next
      case other: False
      then have "it' = it \<or> (\<exists>v. it' = it\<lparr>di_current := v\<rparr>)"
        using 1(2) False g by (subst (asm) load_current.simps) (auto simp: Let_def split: res.splits option.splits)
      then show ?thesis using False by auto
    qed
  qed
qed

lemma next_progress:
  assumes "DBIterator_next x sm it db = (r, it', db')"
  shows "(if di_current it' = None then 0 else Suc (length (di_keys it') - di_position it')) < Suc (length (di_keys it) - di_position it)"
proof -
  obtain q it1 db1 where q: "load_current x sm (it\<lparr>di_position := di_position it + 1\<rparr>) db = (q, it1, db1)" by (metis prod.collapse)
  then have "it' = it1" using assms by (cases q) (auto simp: DBIterator_next_def ignore_error_def)
  then show ?thesis using load_current_fields[OF q] by auto
qed

text \<open>\<^verbatim>\<open>while iter.valid()\<close>: reading the entry, then \<^verbatim>\<open>next\<close>; the entries in the order of their visit.\<close>

function drain :: "ext \<Rightarrow> 'm SkipMap \<Rightarrow> DBIterator \<Rightarrow> 'm DB \<Rightarrow> (bytes \<times> bytes) list res" where
  "drain x sm it db =
     (case di_current it of
        None \<Rightarrow> Ok []
      | Some e \<Rightarrow>
          (case DBIterator_next x sm it db of
             (Ok _, it', db') \<Rightarrow> bind_res (drain x sm it' db') (\<lambda>es. Ok (e # es))
           | _ \<Rightarrow> Panic))"
  by pat_completeness auto
termination
  by (relation "measure (\<lambda>(x, sm, it, db). if di_current it = None then 0 else Suc (length (di_keys it) - di_position it))")
     (auto dest!: next_progress[OF sym] split: if_splits)

declare drain.simps [simp del]

section \<open>Iteration over the store\<close>

definition visits :: "lsm \<Rightarrow> bytes list \<Rightarrow> (bytes \<times> bytes) list" where
  "visits a keys = List.map_filter (\<lambda>k. map_option (Pair k) (lsm_get a k)) keys"

lemma visits_simps [simp]:
  "visits a [] = []"
  "visits a (k # ks) = (case lsm_get a k of None \<Rightarrow> visits a ks | Some v \<Rightarrow> (k, v) # visits a ks)"
  by (simp_all add: visits_def map_filter_simps split: option.split)

text \<open>Where \<^verbatim>\<open>load_current\<close> leaves the iterator: at the first remaining key that has a value.\<close>

definition positioned :: "lsm \<Rightarrow> bytes list \<Rightarrow> DBIterator \<Rightarrow> bool" where
  "positioned a ks it \<longleftrightarrow>
     visits a ks = (case di_current it of None \<Rightarrow> [] | Some e \<Rightarrow> e # visits a (drop (di_position it + 1) (di_keys it)))"

lemma load_current_rep:
  assumes sm: "skip_map sm" and "db_rep x sm db a" and "db_sequence db \<le> di_sequence it"
  shows "\<exists>it' c. load_current x sm it db = (Ok (), it', db\<lparr>db_cache := c\<rparr>) \<and> db_rep x sm (db\<lparr>db_cache := c\<rparr>) a \<and>
    di_keys it' = di_keys it \<and> di_sequence it' = di_sequence it \<and> positioned a (drop (di_position it) (di_keys it)) it'"
  using assms(2-)
proof (induction "length (di_keys it) - di_position it" arbitrary: it db)
  case 0
  then have "load_current x sm it db = (Ok (), it\<lparr>di_current := None\<rparr>, db\<lparr>db_cache := db_cache db\<rparr>)"
    by (simp add: load_current.simps)
  then show ?case using 0 by (intro exI[of _ "it\<lparr>di_current := None\<rparr>"] exI[of _ "db_cache db"]) (simp add: positioned_def)
next
  case (Suc n)
  let ?k = "di_keys it ! di_position it"
  have p: "di_position it < length (di_keys it)" "n = length (di_keys it) - Suc (di_position it)" using Suc.hyps(2) by simp_all
  note n = p(2)
  have ks: "drop (di_position it) (di_keys it) = ?k # drop (di_position it + 1) (di_keys it)"
    using p(1) by (simp add: Cons_nth_drop_Suc)
  obtain c where c: "DB_get_at_sequence x sm ?k (di_sequence it) db = (Ok (lsm_get a ?k), db\<lparr>db_cache := c\<rparr>)"
    "db_rep x sm (db\<lparr>db_cache := c\<rparr>) a" using get_at_sequence_rep[OF sm Suc.prems] by blast
  show ?case
  proof (cases "lsm_get a ?k")
    case None
    let ?it = "it\<lparr>di_position := di_position it + 1\<rparr>"
    obtain it' c' where rec: "load_current x sm ?it (db\<lparr>db_cache := c\<rparr>) = (Ok (), it', db\<lparr>db_cache := c'\<rparr>)"
      "db_rep x sm (db\<lparr>db_cache := c'\<rparr>) a" "di_keys it' = di_keys it" "di_sequence it' = di_sequence it"
      "positioned a (drop (di_position it + 1) (di_keys it)) it'"
      using Suc.hyps(1)[of ?it "db\<lparr>db_cache := c\<rparr>"] n c(2) Suc.prems(2) by auto
    have "load_current x sm it db = (Ok (), it', db\<lparr>db_cache := c'\<rparr>)"
      using p(1) c(1) None rec(1) by (subst load_current.simps) (simp add: Let_def)
    then show ?thesis using rec None ks by (auto simp: positioned_def)
  next
    case (Some v)
    have "load_current x sm it db = (Ok (), it\<lparr>di_current := Some (?k, v)\<rparr>, db\<lparr>db_cache := c\<rparr>)"
      using p(1) c(1) Some by (subst load_current.simps) (simp add: Let_def)
    then show ?thesis
      using c(2) Some ks by (intro exI[of _ "it\<lparr>di_current := Some (?k, v)\<rparr>"] exI[of _ c]) (simp add: positioned_def)
  qed
qed

lemma drain_rep:
  assumes "skip_map sm" and "db_rep x sm db a" and "db_sequence db \<le> di_sequence it" and "positioned a ks it"
  shows "drain x sm it db = Ok (visits a ks)"
  using assms
proof (induction x sm it db arbitrary: ks rule: drain.induct)
  case (1 x sm it db)
  show ?case
  proof (cases "di_current it")
    case None
    then show ?thesis using 1(5) by (simp add: drain.simps positioned_def)
  next
    case (Some e)
    let ?it = "it\<lparr>di_position := di_position it + 1\<rparr>"
    obtain it' c where n: "load_current x sm ?it db = (Ok (), it', db\<lparr>db_cache := c\<rparr>)" "db_rep x sm (db\<lparr>db_cache := c\<rparr>) a"
      "di_sequence it' = di_sequence it" "positioned a (drop (di_position it + 1) (di_keys it)) it'"
      using load_current_rep[OF 1(2,3), of ?it] 1(4) by auto
    then have nx: "DBIterator_next x sm it db = (Ok (), it', db\<lparr>db_cache := c\<rparr>)" by (simp add: DBIterator_next_def ignore_error_def)
    have "drain x sm it' (db\<lparr>db_cache := c\<rparr>) = Ok (visits a (drop (di_position it + 1) (di_keys it)))"
      using 1(1)[OF Some nx[symmetric] refl refl 1(2) n(2) _ n(4)] 1(4) n(3) by simp
    then show ?thesis using Some nx 1(5) by (subst drain.simps) (simp add: positioned_def)
  qed
qed

section \<open>The keys of the store\<close>

lemma tables_keys_rep:
  assumes "list_all2 (table_is x store) rds ess"
  shows "\<exists>ks. tables_keys x rds = Ok ks \<and> fst ` set (concat ess) \<subseteq> set ks"
  using assms
proof (induction rule: list_all2_induct)
  case Nil
  then show ?case by simp
next
  case (Cons rd rds es ess)
  then obtain bs ks where "table_rep x rd bs" "stored_entries bs = es" "tables_keys x rds = Ok ks" "fst ` set (concat ess) \<subseteq> set ks"
    by (auto simp: table_is_def)
  then show ?case using table_keys[of x rd bs] by auto
qed

lemma MemTable_keys_rep:
  assumes "mem_rep sm mt ops seq"
  shows "set (MemTable_keys sm mt) = op_key ` set ops"
proof -
  have "set (MemTable_keys sm mt) = {k. first_version (MemTable_iter sm mt) k \<noteq> None}"
    by (auto simp: MemTable_keys_def MemTable_iter_def first_version_def find_None_iff image_iff) (metis fst_conv)+
  also have "\<dots> = op_key ` set ops" using assms last_op_keys[of ops] by (auto simp: mem_rep_def)
  finally show ?thesis .
qed

lemma first_some_Some: "first_some rs = Some v \<Longrightarrow> Some v \<in> set rs"
  by (induction rs) (auto split: option.splits)

lemma mem_lookup_key: "mem_lookup ops key = Some v \<Longrightarrow> key \<in> op_key ` set ops"
  using last_op_keys[of ops key] by (auto simp: mem_lookup_last split: option.splits)

lemma sst_lookup_key: "sst_lookup es key = Some v \<Longrightarrow> key \<in> fst ` set es"
  by (auto simp: sst_lookup_def split: option.splits if_splits dest!: map_of_SomeD intro: rev_image_eqI)

lemma lsm_get_key:
  assumes "lsm_get a key = Some v"
  shows "key \<in> op_key ` set (l_mem a @ concat (l_imm a)) \<or> key \<in> fst ` set (concat (concat (l_tables a)))"
proof -
  have "Some v \<in> set (map (\<lambda>ops. mem_lookup ops key) (l_mem a # rev (l_imm a)) @
      map (\<lambda>es. sst_lookup es key) (concat (map rev (l_tables a))))"
    by (rule first_some_Some) (use assms in \<open>simp add: lsm_get_def\<close>)
  then consider ops where "ops \<in> set (l_mem a # l_imm a)" "mem_lookup ops key = Some v"
    | ts es where "ts \<in> set (l_tables a)" "es \<in> set ts" "sst_lookup es key = Some v" by fastforce
  then show ?thesis
  proof cases
    case 1
    then show ?thesis using mem_lookup_key[OF 1(2)] by auto
  next
    case 2
    then show ?thesis using sst_lookup_key[OF 2(3)] by force
  qed
qed

definition in_range :: "bytes option \<Rightarrow> bytes option \<Rightarrow> bytes \<Rightarrow> bool" where
  "in_range start limit key \<longleftrightarrow> (case start of None \<Rightarrow> True | Some s \<Rightarrow> s \<le> key) \<and> (case limit of None \<Rightarrow> True | Some e \<Rightarrow> key < e)"

lemma collect_keys_rep:
  assumes "db_rep x sm db a"
  obtains ks where "collect_keys x sm start limit db it = Ok (it\<lparr>di_keys := ks\<rparr>)" "sorted_wrt (<) ks"
    "\<And>key v. lsm_get a key = Some v \<Longrightarrow> in_range start limit key \<Longrightarrow> key \<in> set ks" "\<forall>key \<in> set ks. in_range start limit key"
proof -
  obtain store where "list_all2 (list_all2 (table_is x store)) (db_sstables db) (l_tables a)"
    using assms by (auto simp: db_rep_def tables_rep_def)
  then have "list_all2 (table_is x store) (concat (db_sstables db)) (concat (l_tables a))"
    by (induction rule: list_all2_induct) (simp_all add: list_all2_appendI)
  then obtain tks where tks: "tables_keys x (concat (db_sstables db)) = Ok tks" "fst ` set (concat (concat (l_tables a))) \<subseteq> set tks"
    using tables_keys_rep by blast
  define mks where "mks = MemTable_keys sm (db_memtable db) @ concat (map (MemTable_keys sm) (db_immutable db))"
  have "list_all2 (\<lambda>mt ops. mem_rep sm mt ops (db_sequence db)) (db_immutable db) (l_imm a)" using assms by (simp add: db_rep_def)
  then have "set (concat (map (MemTable_keys sm) (db_immutable db))) = op_key ` set (concat (l_imm a))"
    by (induction rule: list_all2_induct) (simp_all add: MemTable_keys_rep image_Un)
  then have mks: "set mks = op_key ` set (l_mem a @ concat (l_imm a))"
    using assms MemTable_keys_rep[of sm "db_memtable db"] by (auto simp: mks_def db_rep_def)
  define ks where "ks = filter (in_range start limit) (sort (remdups (mks @ tks)))"
  have "collect_keys x sm start limit db it = Ok (it\<lparr>di_keys := ks\<rparr>)"
    by (simp add: collect_keys_def Let_def tks(1) ks_def mks_def in_range_def[abs_def])
  moreover have "sorted_wrt (<) ks" by (simp add: ks_def strict_sorted_iff sorted_wrt_filter)
  moreover have "key \<in> set ks" if "lsm_get a key = Some v" "in_range start limit key" for key v
  proof -
    have "key \<in> set mks \<or> key \<in> set tks" using lsm_get_key[OF that(1)] tks(2) mks by blast
    then show ?thesis using that(2) by (auto simp: ks_def)
  qed
  ultimately show ?thesis using that by (auto simp: ks_def)
qed

lemma visits_map_of:
  assumes "distinct keys"
  shows "map_of (visits a keys) key = (if key \<in> set keys then lsm_get a key else None)"
  using assms by (induction keys) (auto split: option.split)

lemma visits_sorted: "sorted_wrt (<) keys \<Longrightarrow> sorted_wrt (<) (map fst (visits a keys))"
proof (induction keys)
  case (Cons k ks)
  have "fst ` set (visits a ks) \<subseteq> set ks" by (induction ks) (auto split: option.splits)
  then show ?case using Cons by (auto split: option.split)
qed simp

lemma scan_rep:
  assumes sm: "skip_map sm" and rep: "db_rep x sm db a"
  shows "\<exists>it c ks. DBIterator_new_range x sm (db_sequence db) start limit db = (Ok it, db\<lparr>db_cache := c\<rparr>) \<and>
    drain x sm it (db\<lparr>db_cache := c\<rparr>) = Ok (visits a ks) \<and> sorted_wrt (<) ks \<and>
    (\<forall>key v. lsm_get a key = Some v \<longrightarrow> in_range start limit key \<longrightarrow> key \<in> set ks) \<and> (\<forall>key \<in> set ks. in_range start limit key)"
proof -
  let ?it = "\<lparr>di_current = None, di_sequence = db_sequence db, di_keys = [], di_position = 0\<rparr>"
  obtain ks where ks: "collect_keys x sm start limit db ?it = Ok (?it\<lparr>di_keys := ks\<rparr>)" "sorted_wrt (<) ks"
    "\<forall>key v. lsm_get a key = Some v \<longrightarrow> in_range start limit key \<longrightarrow> key \<in> set ks" "\<forall>key \<in> set ks. in_range start limit key"
    using collect_keys_rep[OF rep] by blast
  show ?thesis
  proof (cases "ks = []")
    case True
    then have "DBIterator_new_range x sm (db_sequence db) start limit db = (Ok ?it, db\<lparr>db_cache := db_cache db\<rparr>)"
      using ks(1) by (simp add: DBIterator_new_range_def Let_def)
    then show ?thesis using ks True by (intro exI[of _ ?it] exI[of _ "db_cache db"] exI[of _ ks]) (simp add: drain.simps)
  next
    case False
    obtain it' c where ld: "load_current x sm (?it\<lparr>di_keys := ks, di_position := 0\<rparr>) db = (Ok (), it', db\<lparr>db_cache := c\<rparr>)"
      "db_rep x sm (db\<lparr>db_cache := c\<rparr>) a" "di_sequence it' = db_sequence db" "positioned a ks it'"
      using load_current_rep[OF sm rep, of "?it\<lparr>di_keys := ks, di_position := 0\<rparr>"] by auto
    have "DBIterator_new_range x sm (db_sequence db) start limit db = (Ok it', db\<lparr>db_cache := c\<rparr>)"
      using ks(1) ld(1) False by (simp add: DBIterator_new_range_def Let_def)
    then show ?thesis using ks drain_rep[OF sm ld(2) _ ld(4)] ld(3) by (intro exI[of _ it'] exI[of _ c] exI[of _ ks]) simp
  qed
qed

end
