(* ===== verification/DB_Properties.thy ===== *)
theory DB_Properties
  imports DB_Reopen DB_Iter
begin

text \<open>
  The properties of the database as a whole: what a sequence of calls does, reading one's own
  writes, snapshots, flushing, crashes. Each one is stated over the operations of the database and
  its abstract store.
\<close>

section \<open>Calls and reads\<close>

lemma DB_get_rep:
  assumes "skip_map sm" and "db_rep x sm db a"
  shows "fst (DB_get x sm key db) = Ok (lsm_get a key)"
  using get_at_sequence_rep[OF assms order_refl, of key] by (auto simp: DB_get_def)

text \<open>
  C4. A client that makes write calls and stops at the first error: the store is extended by the
  operations of the calls that succeeded, all of them or none of a failed one, in order; the frozen
  memtables cut that sequence into runs. Every read then returns what the layered store holds.
\<close>

theorem DB_calls_refine:
  assumes "skip_map sm" and "db_rep x sm db a" and "unat (db_sequence db) + length (calls_ops cs) < 2 ^ 64"
    and "DB_calls x sm cs db = (r, db')"
  shows "\<exists>k a'. k \<le> length cs \<and> (r = Ok () \<longleftrightarrow> k = length cs) \<and> lsm_extends (calls_ops (take k cs)) a a' \<and>
    db_rep x sm db' a' \<and> (\<forall>key. fst (DB_get x sm key db') = Ok (lsm_get a' key))"
proof -
  obtain k a' where "k \<le> length cs" "r = Ok () \<longleftrightarrow> k = length cs" "lsm_extends (calls_ops (take k cs)) a a'" "db_rep x sm db' a'"
    using DB_calls_rep[OF assms] by blast
  then show ?thesis using DB_get_rep[OF assms(1)] by blast
qed

text \<open>The example database: the testing options in an empty directory.\<close>

abbreviation sample_db :: "Options \<Rightarrow> entry list DB" where
  "sample_db opts \<equiv> opened_db sorted_list_map ''db'' opts [] [] empty_fs"

lemma sample_db_rep: "block_cache_size opts < 2 ^ 63 \<Longrightarrow> db_rep x sorted_list_map (sample_db opts) (mem_store (max_levels opts) [])"
  using opened_db_rep(1)[OF sl.skip_map_axioms, of "[]"] by simp

lemma sample_db_fields [simp]: "db_sequence (sample_db opts) = 0" "log_live (sample_db opts)"
  by (simp_all add: opened_db_def Let_def fault_free_def BufWriter_new_def empty_fs_def)

theorem DB_calls_refine_witness:
  "\<exists>db' a'. DB_calls sample_ext sorted_list_map [Put_call [1] [2], Delete_call [1]] (sample_db Options_for_testing) = (Ok (), db') \<and>
     lsm_extends [Put [1] [2], Delete [1]] (mem_store 4 []) a' \<and>
     (\<forall>key. fst (DB_get sample_ext sorted_list_map key db') = Ok (lsm_get a' key))"
proof -
  let ?db = "sample_db Options_for_testing" and ?cs = "[Put_call [1] [2], Delete_call [1]]"
  have opts: "block_cache_size Options_for_testing < 2 ^ 63" "max_levels Options_for_testing = 4"
    by (simp_all add: Options_for_testing_def)
  obtain db' where run: "DB_calls sample_ext sorted_list_map ?cs ?db = (Ok (), db')"
    using DB_calls_live[OF sample_db_fields(2), of sample_ext sorted_list_map ?cs] by (metis prod.collapse)
  then show ?thesis
    using DB_calls_refine[OF sl.skip_map_axioms sample_db_rep[OF opts(1)] _ run] opts(2)
    by (auto simp: take_Cons')
qed

text \<open>
  C7. The database is a map. After opening an empty directory and any successful calls, a read
  returns what the operations leave in an ordinary map, provided that no operation is a deletion or
  that no memtable was frozen meanwhile.
\<close>

theorem DB_map_semantics:
  assumes "skip_map sm" and "Options_validate opts = Ok ()" and "\<not> error_if_exists opts" and "block_cache_size opts < 2 ^ 63"
    and "fs_dir fs" and "fs_faults fs = []" and "fs_files fs = []"
    and "fst (DB_open x js sm path opts fs) = Ok db" and "DB_calls x sm cs db = (Ok (), db')"
    and "length (calls_ops cs) < 2 ^ 64"
    and "(\<forall>op \<in> set (calls_ops cs). \<exists>k v. op = Put k v) \<or> db_immutable db' = []"
  shows "fst (DB_get x sm key db') = Ok (apply_ops (calls_ops cs) Map.empty key)"
proof -
  let ?a = "mem_store (max_levels opts) []"
  have db: "db = opened_db sm path opts [] [] fs" using DB_open_empty[OF assms(2,3,5-7), of x js sm path] assms(8) by simp
  have rep: "db_rep x sm db ?a" "db_sequence db = 0"
    using opened_db_rep[OF assms(1) _ _ assms(4), of "[]"] by (simp_all add: db)
  then obtain a' where a': "lsm_extends (calls_ops cs) ?a a'" "db_rep x sm db' a'"
    using DB_calls_rep[OF assms(1) rep(1) _ assms(9)] assms(10) by auto
  then obtain parts where parts: "l_imm a' @ [l_mem a'] = parts" "concat parts = calls_ops cs" "l_tables a' = replicate (max_levels opts) []"
    by (auto simp: lsm_extends_def)
  have "lsm_get a' key = first_some (map (\<lambda>ops. mem_lookup ops key) (rev parts))"
    using lsm_get_runs[OF parts(1)] parts(3) by simp
  also have "\<dots> = mem_lookup (calls_ops cs) key"
    using assms(11)
  proof
    assume "\<forall>op \<in> set (calls_ops cs). \<exists>k v. op = Put k v"
    then show ?thesis using first_some_runs[of parts key] parts(2) by simp
  next
    assume "db_immutable db' = []"
    then have "l_imm a' = []" using a'(2) by (simp add: db_rep_def)
    then have "parts = [calls_ops cs]" using parts(1,2) by auto
    then show ?thesis by (simp split: option.split)
  qed
  finally show ?thesis using DB_get_rep[OF assms(1) a'(2)] by (simp add: mem_lookup_def)
qed

theorem DB_map_semantics_witness:
  "\<exists>db db'. fst (DB_open sample_ext sample_json sorted_list_map ''db'' Options_for_testing empty_fs) = Ok db \<and>
     DB_calls sample_ext sorted_list_map [Put_call [1] [2], Put_call [1] [3]] db = (Ok (), db') \<and>
     fst (DB_get sample_ext sorted_list_map [1] db') = Ok (Some [3])"
proof -
  let ?db = "sample_db Options_for_testing" and ?cs = "[Put_call [1] [2], Put_call [1] [3]]"
  have opts: "block_cache_size Options_for_testing < 2 ^ 63" "\<not> error_if_exists Options_for_testing"
    by (simp_all add: Options_for_testing_def)
  have valid: "Options_validate Options_for_testing = Ok ()" by (rule Options_presets_valid) simp
  have db: "fst (DB_open sample_ext sample_json sorted_list_map ''db'' Options_for_testing empty_fs) = Ok ?db"
    by (rule DB_open_empty[OF valid opts(2)]) (simp_all add: empty_fs_def)
  obtain db' where run: "DB_calls sample_ext sorted_list_map ?cs ?db = (Ok (), db')"
    using DB_calls_live[OF sample_db_fields(2), of sample_ext sorted_list_map ?cs] by (metis prod.collapse)
  have "fst (DB_get sample_ext sorted_list_map [1] db') = Ok (apply_ops (calls_ops ?cs) Map.empty [1])"
    by (rule DB_map_semantics[OF sl.skip_map_axioms valid opts(2,1) _ _ _ db run]) (simp_all add: empty_fs_def)
  then show ?thesis using db run by auto
qed

text \<open>
  C10. Reading one's own write. After a successful \<^verbatim>\<open>put\<close> the key has the new value. After a
  successful \<^verbatim>\<open>delete\<close> a read does not stop at the tombstone: it returns what the frozen memtables
  and the tables hold, so an older value in one of them is visible again.
\<close>

theorem DB_own_write:
  assumes "skip_map sm" and "db_rep x sm db a" and "unat (db_sequence db) + 1 < 2 ^ 64"
  shows "(\<forall>db1. DB_put x sm key v db = (Ok (), db1) \<longrightarrow> fst (DB_get x sm key db1) = Ok (Some v)) \<and>
    (\<forall>db1. DB_delete x sm key db = (Ok (), db1) \<longrightarrow> fst (DB_get x sm key db1) = Ok (lsm_get (a\<lparr>l_mem := []\<rparr>) key))"
proof (intro conjI allI impI)
  fix db1 assume "DB_put x sm key v db = (Ok (), db1)"
  then obtain a' where a': "lsm_written [Put key v] a a'" "db_rep x sm db1 a'"
    using DB_call_rep[OF assms(1,2), of "Put_call key v"] assms(3) by auto
  then have "lsm_get a' key = Some v"
    by (auto simp: lsm_written_def lsm_append_def lsm_freeze_def lsm_get_def mem_lookup_def)
  then show "fst (DB_get x sm key db1) = Ok (Some v)" using DB_get_rep[OF assms(1) a'(2)] by simp
next
  fix db1 assume "DB_delete x sm key db = (Ok (), db1)"
  then obtain a' where a': "lsm_written [Delete key] a a'" "db_rep x sm db1 a'"
    using DB_call_rep[OF assms(1,2), of "Delete_call key"] assms(3) by auto
  then have "lsm_get a' key = lsm_get (a\<lparr>l_mem := []\<rparr>) key"
    by (auto simp: lsm_written_def lsm_append_def lsm_freeze_def lsm_get_def mem_lookup_def)
  then show "fst (DB_get x sm key db1) = Ok (lsm_get (a\<lparr>l_mem := []\<rparr>) key)" using DB_get_rep[OF assms(1) a'(2)] by simp
qed

theorem DB_own_write_witness:
  "\<exists>db1 db2. DB_put sample_ext sorted_list_map [1] [2] (sample_db Options_for_testing) = (Ok (), db1) \<and>
     fst (DB_get sample_ext sorted_list_map [1] db1) = Ok (Some [2]) \<and>
     DB_delete sample_ext sorted_list_map [1] (snd (freeze_memtable sorted_list_map db1)) = (Ok (), db2) \<and>
     fst (DB_get sample_ext sorted_list_map [1] db2) = Ok (Some [2])"
proof -
  let ?db = "sample_db Options_for_testing" and ?sm = sorted_list_map
  have opts: "block_cache_size Options_for_testing < 2 ^ 63" by (simp add: Options_for_testing_def)
  note rep = sample_db_rep[OF opts, of sample_ext]
  obtain r db1 where c: "DB_call sample_ext ?sm (Put_call [1] [2]) ?db = (r, db1)" by fastforce
  then have live: "r = Ok ()" "log_live db1" using DB_call_live[OF sample_db_fields(2) c] by simp_all
  then have put: "DB_put sample_ext ?sm [1] [2] ?db = (Ok (), db1)" using c by simp
  obtain a1 where a1: "lsm_written [Put [1] [2]] (mem_store (max_levels Options_for_testing) []) a1" "db_rep sample_ext ?sm db1 a1"
    using DB_call_rep[OF sl.skip_map_axioms rep _ c] live(1) by auto
  define db1' where "db1' = snd (freeze_memtable ?sm db1)"
  have rep1: "db_rep sample_ext ?sm db1' (lsm_freeze a1)" "db_sequence db1' = db_sequence db1" "log_live db1'"
    using freeze_rep[OF sl.skip_map_axioms a1(2)] live(2) by (simp_all add: db1'_def freeze_memtable_def)
  have seq: "unat (db_sequence db1') + 1 < 2 ^ 64" using DB_call_fields(1)[OF c] rep1(2) by simp
  obtain db2 where del: "DB_delete sample_ext ?sm [1] db1' = (Ok (), db2)"
    using DB_call_live[OF rep1(3), of sample_ext ?sm "Delete_call [1]"] by (metis DB_call.simps(2) prod.collapse)
  have "lsm_get ((lsm_freeze a1)\<lparr>l_mem := []\<rparr>) [1] = Some [2]"
    using a1(1) by (auto simp: lsm_written_def lsm_append_def lsm_freeze_def lsm_get_def mem_lookup_def)
  then show ?thesis
    using DB_own_write[OF sl.skip_map_axioms rep, of "[1]" "[2]"] DB_own_write[OF sl.skip_map_axioms rep1(1) seq, of "[1]" "[2]"]
      put del by (auto simp: db1'_def)
qed

text \<open>
  C8. Snapshot isolation: whatever write calls follow, successful or not and with memtables frozen in
  between, a read through the snapshot returns what \<^verbatim>\<open>get\<close> returned when it was taken.
\<close>

theorem Snapshot_isolation:
  assumes "skip_map sm" and "db_rep x sm db a" and "unat (db_sequence db) + length (calls_ops cs) < 2 ^ 64"
    and "DB_calls x sm cs db = (r, db')"
  shows "fst (Snapshot_get x sm (DB_snapshot db) key db') = fst (DB_get x sm key db)"
  using DB_calls_mem_read[OF assms order_refl, of key]
  by (simp add: Snapshot_get_def DB_snapshot_def DB_get_def get_at_sequence_split split: option.split)

theorem Snapshot_isolation_witness:
  "\<exists>db1 db2. DB_put sample_ext sorted_list_map [1] [2] (sample_db Options_for_testing) = (Ok (), db1) \<and>
     DB_calls sample_ext sorted_list_map [Put_call [1] [3], Delete_call [1]] db1 = (Ok (), db2) \<and>
     fst (Snapshot_get sample_ext sorted_list_map (DB_snapshot db1) [1] db2) = Ok (Some [2])"
proof -
  let ?db = "sample_db Options_for_testing" and ?sm = sorted_list_map and ?cs = "[Put_call [1] [3], Delete_call [1]]"
  have opts: "block_cache_size Options_for_testing < 2 ^ 63" by (simp add: Options_for_testing_def)
  obtain r db1 where c: "DB_call sample_ext ?sm (Put_call [1] [2]) ?db = (r, db1)" by fastforce
  then have live: "r = Ok ()" "log_live db1" using DB_call_live[OF sample_db_fields(2) c] by simp_all
  obtain a1 where a1: "db_rep sample_ext ?sm db1 a1" "lsm_written [Put [1] [2]] (mem_store (max_levels Options_for_testing) []) a1"
    using DB_call_rep[OF sl.skip_map_axioms sample_db_rep[OF opts] _ c] live(1) by auto
  then have "fst (DB_get sample_ext ?sm [1] db1) = Ok (Some [2])"
    using DB_get_rep[OF sl.skip_map_axioms a1(1)]
    by (auto simp: lsm_written_def lsm_append_def lsm_freeze_def lsm_get_def mem_lookup_def)
  moreover obtain db2 where run: "DB_calls sample_ext ?sm ?cs db1 = (Ok (), db2)"
    using DB_calls_live[OF live(2), of sample_ext ?sm ?cs] by (metis prod.collapse)
  ultimately show ?thesis
    using Snapshot_isolation[OF sl.skip_map_axioms a1(1) _ run, of "[1]"] DB_call_fields(1)[OF c] c live(1) run by auto
qed

section \<open>Crashes\<close>

text \<open>
  C1. Crash recovery. A database is created in an empty directory, calls \<open>cs1\<close> succeed, further calls
  \<open>cs2\<close> stop at the first error (the writes of the log may fail at any point), then the machine
  crashes and any part of the log that was not synced is lost. Opening the directory again either
  fails with the end-of-file error or gives the contents after the first \<open>k\<close> operations, none of
  them altered; with \<^verbatim>\<open>sync_wal\<close> these include all operations of \<open>cs1\<close>.
\<close>

theorem DB_crash_recovery:
  assumes "skip_map sm" and "Options_validate opts = Ok ()" and "\<not> error_if_exists opts" and "block_cache_size opts < 2 ^ 63"
    and "use_wal opts" and "fs_dir fs" and "fs_faults fs = []" and "fs_files fs = []"
    and "fst (DB_open x js sm path opts fs) = Ok db"
    and "DB_calls x sm cs1 db = (Ok (), db1)" and "DB_calls x sm cs2 db1 = (r, db2)"
    and "\<forall>op \<in> set (calls_ops (cs1 @ cs2)). length (op_key op) < 2 ^ 32"
    and "length (calls_ops (cs1 @ cs2)) < 2 ^ 64" and "length (log_written db2) < 2 ^ 64" and "crashed db2 fs'"
  shows "fst (DB_open x js sm path opts fs') = Err eof_error \<or>
    (\<exists>k db'. k \<le> length (calls_ops (cs1 @ cs2)) \<and> (sync_wal opts \<longrightarrow> length (calls_ops cs1) \<le> k) \<and>
       fst (DB_open x js sm path opts fs') = Ok db' \<and>
       (\<forall>key. fst (DB_get x sm key db') = Ok (apply_ops (take k (calls_ops (cs1 @ cs2))) Map.empty key)))"
proof -
  have db: "db = opened_db sm path opts [] [] fs" using DB_open_empty[OF assms(2,3,6-8), of x js sm path] assms(9) by simp
  then have start: "log_stream db = []" "log_synced db = []" "log_files db" "db_options db = opts" "db_path db = path" "log_clean db" by simp_all
  have one: "log_grows (log_bytes x (calls_ops cs1)) True db db1" "sync_wal opts \<Longrightarrow> log_clean db1"
    using DB_calls_log[OF assms(10)] start assms(5) by simp_all
  have opts1: "db_options db1 = opts" "db_path db1 = path" "db_path db2 = path"
    using DB_calls_parts[OF assms(10)] DB_calls_parts[OF assms(11)] start by (simp_all add: same_parts_def)
  have two: "log_grows (log_bytes x (calls_ops cs2)) (r = Ok ()) db1 db2"
    using DB_calls_log(1)[OF assms(11)] opts1 assms(5) by simp
  have stream1: "log_stream db1 = log_bytes x (calls_ops cs1)" using one(1) start(1) by (simp add: log_grows_def)
  define ops1 where "ops1 = (if sync_wal opts then calls_ops cs1 else [])"
  define ops2 where "ops2 = (if sync_wal opts then calls_ops cs2 else calls_ops (cs1 @ cs2))"
  have ops: "ops1 @ ops2 = calls_ops (cs1 @ cs2)" by (simp add: ops1_def ops2_def)
  have "log_files db2" using one(1) two start(3) by (simp add: log_grows_def)
  then obtain bs where bs: "log_dir path bs fs'" "prefix (log_synced db2) bs" "prefix bs (log_written db2)"
    using crashed_log_dir[OF _ assms(15)] opts1(3) by metis
  have "prefix (log_bytes x ops1) (log_synced db2)"
    using two one(2) stream1 by (auto simp: ops1_def log_grows_def log_clean_def)
  then have low: "prefix (log_bytes x ops1) bs" using bs(2) prefix_order.trans by blast
  have "prefix (log_stream db2) (log_bytes x (ops1 @ ops2))"
    using two stream1 unfolding ops by (auto simp: log_grows_def split: if_splits)
  moreover have "prefix bs (log_stream db2)" using bs(3) by (auto simp: ww_stream_def bw_stream_def prefix_def)
  ultimately have high: "prefix bs (log_bytes x (ops1 @ ops2))" using prefix_order.trans by blast
  have small: "length bs < 2 ^ 64" using bs(3) assms(14) by (auto dest: prefix_length_le)
  have "\<forall>op \<in> set (ops1 @ ops2). length (op_key op) < 2 ^ 32" "length (ops1 @ ops2) < 2 ^ 64"
    using assms(12,13) by (simp_all only: ops)
  from DB_reopen_prefix[OF assms(1-4) bs(1) this small low high, of js] show ?thesis
  proof (elim disjE exE conjE)
    fix k db' assume k: "k \<le> length ops2" "fst (DB_open x js sm path opts fs') = Ok db'"
      "db_rep x sm db' (mem_store (max_levels opts) (ops1 @ take k ops2))"
    have "ops1 @ take k ops2 = take (length ops1 + k) (calls_ops (cs1 @ cs2))" unfolding ops[symmetric] by simp
    then have "fst (DB_get x sm key db') = Ok (apply_ops (take (length ops1 + k) (calls_ops (cs1 @ cs2))) Map.empty key)" for key
      using DB_get_rep[OF assms(1) k(3)] by (simp add: lsm_get_mem_store mem_lookup_def)
    moreover have "length ops1 + k \<le> length (calls_ops (cs1 @ cs2))" "sync_wal opts \<longrightarrow> length (calls_ops cs1) \<le> length ops1 + k"
      using k(1) unfolding ops[symmetric] by (simp_all add: ops1_def)
    ultimately show ?thesis using k(2) by blast
  qed simp
qed

theorem DB_crash_recovery_witness:
  "\<exists>db db1 fs'. fst (DB_open sample_ext sample_json sorted_list_map ''db'' Options_default empty_fs) = Ok db \<and>
     DB_calls sample_ext sorted_list_map [Put_call [1] [2], Delete_call [3]] db = (Ok (), db1) \<and> crashed db1 fs' \<and>
     (fst (DB_open sample_ext sample_json sorted_list_map ''db'' Options_default fs') = Err eof_error \<or>
      (\<exists>db'. fst (DB_open sample_ext sample_json sorted_list_map ''db'' Options_default fs') = Ok db' \<and>
         fst (DB_get sample_ext sorted_list_map [1] db') = Ok (Some [2])))"
proof -
  let ?sm = sorted_list_map and ?cs = "[Put_call [1] [2], Delete_call [3]]" and ?db = "sample_db Options_default"
  let ?open = "\<lambda>fs. fst (DB_open sample_ext sample_json ?sm ''db'' Options_default fs)"
  have opts: "block_cache_size Options_default < 2 ^ 63" "\<not> error_if_exists Options_default" "use_wal Options_default"
    "sync_wal Options_default" by (simp_all add: Options_default_def)
  have valid: "Options_validate Options_default = Ok ()" by (rule Options_presets_valid) simp
  have fs: "fs_dir empty_fs" "fs_faults empty_fs = []" "fs_files empty_fs = []" by (simp_all add: empty_fs_def)
  have db: "?open empty_fs = Ok ?db" by (rule DB_open_empty[OF valid opts(2) fs])
  obtain db1 where run: "DB_calls sample_ext ?sm ?cs ?db = (Ok (), db1)"
    using DB_calls_live[OF sample_db_fields(2), of sample_ext ?sm ?cs] by (metis prod.collapse)
  have log: "log_grows (log_bytes sample_ext (calls_ops ?cs)) True ?db db1" "log_clean db1"
    using DB_calls_log[OF run] opts(3,4) by simp_all
  then have bytes: "log_written db1 = log_bytes sample_ext (calls_ops ?cs)" "log_files db1"
    by (simp_all add: log_grows_def log_clean_def)
  define fs1 where "fs1 = (db_fs db1)\<lparr>fs_dir := True, fs_faults := []\<rparr>"
  have crash: "crashed db1 fs1"
    using bytes(2) log(2) by (simp add: crashed_def fs1_def log_files_def log_clean_def Let_def)
  have "length (log_bytes sample_ext (calls_ops ?cs)) < 2 ^ 64"
    by (simp add: entry_bytes_def fragments.simps MAX_RECORD_SIZE_def Record_encoded_size_def HEADER_SIZE_def Let_def)
  then have "?open fs1 = Err eof_error \<or> (\<exists>k db'. k \<le> length (calls_ops (?cs @ [])) \<and>
      (sync_wal Options_default \<longrightarrow> length (calls_ops ?cs) \<le> k) \<and> ?open fs1 = Ok db' \<and>
      (\<forall>key. fst (DB_get sample_ext ?sm key db') = Ok (apply_ops (take k (calls_ops (?cs @ []))) Map.empty key)))"
    using bytes(1)
    by (intro DB_crash_recovery[OF sl.skip_map_axioms valid opts(2,1,3) fs db run DB_calls.simps(1) _ _ _ crash]) simp_all
  moreover have "fst (DB_get sample_ext ?sm [1] db') = Ok (Some [2])"
    if "k \<le> length (calls_ops (?cs @ []))" "length (calls_ops ?cs) \<le> k"
      "\<forall>key. fst (DB_get sample_ext ?sm key db') = Ok (apply_ops (take k (calls_ops (?cs @ []))) Map.empty key)" for k db'
    using that(3)[rule_format, of "[1]"] that(1,2) by simp
  ultimately show ?thesis using db run crash opts(4) by blast
qed

section \<open>Flushing\<close>


text \<open>A printer for all edits.\<close>

definition const_json :: json where
  "const_json = \<lparr>js_to_string = (\<lambda>_. Inr [123, 125]), js_from_str = (\<lambda>_. Inr (SetNextFileNumber 1))\<rparr>"

text \<open>The first memtable of an empty store, frozen or not.\<close>

lemma flush_written:
  assumes "lsm_written ops (mem_store (Suc n) []) a" and "ops \<noteq> []"
  shows "lsm_flush a = \<lparr>l_mem = [], l_imm = [], l_tables = [flush_entries ops] # replicate n []\<rparr>"
    and "\<forall>ops' \<in> set (l_mem a # l_imm a). ops' \<in> {[], ops}" and "length (l_tables a) = Suc n" and "length (l_imm a) \<le> 1"
  using assms
  by (auto simp: lsm_written_def lsm_append_def lsm_flush_def lsm_freeze_def Let_def lsm_add_table_def)

lemma flush_entries_one [simp]: "flush_entries [Put k v] = [(k, v)]"
  by (simp add: flush_entries_def)

definition sample_opts :: Options where
  "sample_opts = Options_for_testing\<lparr>use_wal := False\<rparr>"

lemma sample_opts_ok [simp]:
  "Options_validate sample_opts = Ok ()" "\<not> error_if_exists sample_opts" "block_cache_size sample_opts < 2 ^ 63"
  "compression sample_opts = CompressionNone" "\<not> use_wal sample_opts" "memtable_size sample_opts = 65536" "max_levels sample_opts = 4"
  using Options_presets_valid[of Options_for_testing]
  by (simp_all add: sample_opts_def Options_validate_Ok_iff Options_for_testing_def)

lemma sample_db_parts [simp]:
  "db_options (sample_db opts) = opts" "db_memtable (sample_db opts) = MemTable_new sorted_list_map 1" "db_immutable (sample_db opts) = []"
  by (simp_all add: opened_db_def Let_def)

lemma DB_call_no_log:
  assumes "\<not> use_wal (db_options db)" and "DB_call x sm c db = (r, db')"
  shows "r = Ok ()"
  using assms(2) by (cases rule: DB_call_cases) (use assms(1) in \<open>simp_all add: log_ops_def\<close>)

lemma sample_put:
  obtains db a where "DB_put sample_ext sorted_list_map [1] [2] (sample_db sample_opts) = (Ok (), db)"
    "db_rep sample_ext sorted_list_map db a" "lsm_written [Put [1] [2]] (mem_store (Suc 3) []) a"
    "db_sound sample_ext const_json db (Suc 3)" "db_next_file_number db = 2" "db_sequence db = 1" "db_options db = sample_opts"
proof -
  let ?db = "sample_db sample_opts" and ?sm = sorted_list_map
  have opts: "block_cache_size sample_opts < 2 ^ 63" "max_levels sample_opts = Suc 3"
    "compression sample_opts = CompressionNone" "\<not> use_wal sample_opts"
    by (simp_all add: sample_opts_def Options_for_testing_def)
  obtain r db where c: "DB_call sample_ext ?sm (Put_call [1] [2]) ?db = (r, db)" by fastforce
  then have live: "r = Ok ()" using DB_call_no_log[OF _ c] opts(4) by simp
  obtain a where a: "db_rep sample_ext ?sm db a" "lsm_written [Put [1] [2]] (mem_store (Suc 3) []) a"
    using DB_call_rep[OF sl.skip_map_axioms sample_db_rep[OF opts(1)] _ c] live opts(2) by auto
  have "db_sound sample_ext const_json ?db (Suc 3)"
    using opened_db_sound[of empty_fs const_json sample_opts sample_ext] opts(2,3)
    by (simp add: empty_fs_def const_json_def)
  then have "db_sound sample_ext const_json db (Suc 3)" using same_parts_sound[OF DB_call_parts[OF c]] by blast
  moreover have "db_next_file_number db = 2" using DB_call_parts[OF c] by (simp add: same_parts_def opened_db_def Let_def)
  ultimately show ?thesis using that[of db a] c live a DB_call_fields[OF c] by simp
qed


text \<open>A flush of one memtable leaves the lower levels below the older tables and the new one.\<close>

lemma lsm_flush_one:
  assumes "lsm_pending a = [ops]" and "ops \<noteq> []" and "l_tables a = l0 # ls"
  shows "lsm_flush a = \<lparr>l_mem = [], l_imm = [], l_tables = (flush_entries ops # l0) # ls\<rparr>"
proof (cases "l_mem a = []")
  case True
  then show ?thesis using assms by (cases a) (simp add: lsm_pending_def lsm_flush_def Let_def lsm_add_table_def)
next
  case False
  then have "l_imm a = []" "l_mem a = ops" using assms(1) by (auto simp: lsm_pending_def append_eq_Cons_conv)
  then show ?thesis using False assms(3) by (cases a) (simp add: lsm_flush_def lsm_freeze_def Let_def lsm_add_table_def)
qed

lemma flushed_level0:
  assumes "lsm_maybe_compact (lsm_flush a) a'" and "lsm_pending a = [ops]" and "ops \<noteq> []" and "l_tables a = l0 # ls"
    and "length l0 + 1 < MAX_LEVEL0_FILES"
  obtains ls' where "a' = \<lparr>l_mem = [], l_imm = [], l_tables = (flush_entries ops # l0) # ls'\<rparr>"
proof -
  note flush = lsm_flush_one[OF assms(2-4)]
  show ?thesis
    using assms(1)
  proof (cases rule: lsm_maybe_compact.cases)
    case no_compaction
    then show ?thesis using flush that[of ls] by simp
  next
    case compact_level0
    then show ?thesis using flush assms(5) by simp
  next
    case (compact_level n)
    then obtain j where j: "n = Suc j" by (cases n) auto
    show ?thesis
      using compact_level flush that by (cases "compact_entries (n + 1) (take 1 (l_tables (lsm_flush a) ! n)) = []")
        (auto simp: j lsm_compact_def Let_def)
  qed
qed

lemma lsm_get_level0:
  "lsm_get \<lparr>l_mem = [], l_imm = [], l_tables = (es # l0) # ls\<rparr> key =
     (case first_some (map (\<lambda>es. sst_lookup es key) (rev l0)) of
        Some v \<Rightarrow> Some v
      | None \<Rightarrow> (case sst_lookup es key of
          Some v \<Rightarrow> Some v | None \<Rightarrow> lsm_get \<lparr>l_mem = [], l_imm = [], l_tables = ls\<rparr> key))"
  by (simp add: lsm_get_def mem_lookup_def first_some_append split: option.split)

lemma pending_rep:
  assumes "db_rep x sm db a" and "lsm_pending a = [ops]"
  obtains mt where "mem_rep sm mt ops (db_sequence db)" and "\<And>key v. mem_lookup ops key = Some v \<Longrightarrow> lsm_get a key = Some v"
proof (cases "l_mem a = []")
  case True
  then have "l_imm a = [ops]" using assms(2) by (simp add: lsm_pending_def)
  moreover from this obtain mt where "mem_rep sm mt ops (db_sequence db)"
    using assms(1) by (auto simp: db_rep_def list_all2_Cons2)
  ultimately show ?thesis using that[of mt] True by (simp add: lsm_get_def mem_lookup_def)
next
  case False
  then have "l_imm a = []" "l_mem a = ops" using assms(2) by (auto simp: lsm_pending_def append_eq_Cons_conv)
  then show ?thesis using that[of "db_memtable db"] assms(1) by (simp add: db_rep_def lsm_get_def)
qed

text \<open>
  C11. What a flush does to reads, when one memtable waits for it. The tables of level 0 are searched
  from the oldest to the newest, so for a key that an older table of level 0 holds, the flush
  replaces the value in the memtable by the older one; a key that no table of level 0 holds keeps
  its value unless that is empty.
\<close>

theorem DB_flush_precedence:
  assumes "skip_map sm" and "db_rep x sm db a" and "db_sound x js db (length (l_tables a))" and "2 \<le> length (l_tables a)"
    and "flushable ops" and "levels_small (lsm_flush a)" and "unat (db_next_file_number db) + 4 < 2 ^ 64"
    and "lsm_pending a = [ops]" and "ops \<noteq> []" and "l_tables a = l0 # ls" and "length l0 + 1 < MAX_LEVEL0_FILES"
  shows "\<exists>db'. DB_flush x js sm db = (Ok (), db') \<and>
    (\<forall>key new. mem_lookup ops key = Some new \<longrightarrow>
       fst (DB_get x sm key db) = Ok (Some new) \<and>
       (\<forall>old. first_some (map (\<lambda>es. sst_lookup es key) (rev l0)) = Some old \<longrightarrow> fst (DB_get x sm key db') = Ok (Some old)) \<and>
       (first_some (map (\<lambda>es. sst_lookup es key) (rev l0)) = None \<longrightarrow> new \<noteq> [] \<longrightarrow> fst (DB_get x sm key db') = Ok (Some new)))"
proof -
  have "set (l_mem a # l_imm a) \<subseteq> {[], ops}" "length (l_imm a) \<le> 1"
    using assms(8) by (auto simp: lsm_pending_def append_eq_Cons_conv split: if_splits)
  moreover have "flushable []" by (simp add: flushable_def kv_size_def flush_entries_def)
  ultimately have "\<forall>ops \<in> set (l_mem a # l_imm a). flushable ops" "unat (db_next_file_number db) + length (l_imm a) + 3 < 2 ^ 64"
    using assms(5,7) by auto
  then obtain db' a' where db': "DB_flush x js sm db = (Ok (), db')" "lsm_maybe_compact (lsm_flush a) a'" "db_rep x sm db' a'"
    using DB_flush_rep[OF assms(1-4) _ assms(6)] by blast
  obtain ls' where a': "a' = \<lparr>l_mem = [], l_imm = [], l_tables = (flush_entries ops # l0) # ls'\<rparr>"
    using flushed_level0[OF db'(2) assms(8-11)] by blast
  obtain mt where mt: "mem_rep sm mt ops (db_sequence db)" "\<And>key v. mem_lookup ops key = Some v \<Longrightarrow> lsm_get a key = Some v"
    using pending_rep[OF assms(2,8)] by blast
  have get: "fst (DB_get x sm key db') = Ok (lsm_get a' key)" "fst (DB_get x sm key db) = Ok (lsm_get a key)" for key
    using DB_get_rep[OF assms(1)] db'(3) assms(2) by blast+
  have "sst_lookup (flush_entries ops) key = Some new" if "mem_lookup ops key = Some new" "new \<noteq> []" for key new
  proof -
    have "map_of (flush_entries ops) key = map_option snd (last_op ops key)"
      using memtable_entries(3)[OF mt(1)] assms(5) by (simp add: flushable_def)
    then show ?thesis using that by (auto simp: sst_lookup_def mem_lookup_last split: option.splits ValueType.splits)
  qed
  then show ?thesis using db'(1) get mt(2) by (simp add: a' lsm_get_level0)
qed

theorem DB_flush_precedence_witness:
  "\<exists>db1 db2 db3. DB_put sample_ext sorted_list_map [1] [2] (sample_db sample_opts) = (Ok (), db1) \<and>
     DB_flush sample_ext const_json sorted_list_map db1 = (Ok (), db2) \<and>
     DB_put sample_ext sorted_list_map [1] [3] db2 = (Ok (), db3) \<and>
     fst (DB_get sample_ext sorted_list_map [1] db3) = Ok (Some [3]) \<and>
     (\<exists>db4. DB_flush sample_ext const_json sorted_list_map db3 = (Ok (), db4) \<and>
       fst (DB_get sample_ext sorted_list_map [1] db4) = Ok (Some [2]))"
proof -
  let ?sm = sorted_list_map
  obtain db1 a where db1: "DB_put sample_ext ?sm [1] [2] (sample_db sample_opts) = (Ok (), db1)"
    "db_rep sample_ext ?sm db1 a" "lsm_written [Put [1] [2]] (mem_store (Suc 3) []) a"
    "db_sound sample_ext const_json db1 (Suc 3)" "db_next_file_number db1 = 2" "db_sequence db1 = 1" "db_options db1 = sample_opts"
    by (rule sample_put)
  note fl = flush_written[OF db1(3)]
  have flush: "lsm_flush a = \<lparr>l_mem = [], l_imm = [], l_tables = [[[([1], [2])]], [], [], []]\<rparr>"
    using fl(1) by (simp add: eval_nat_numeral)
  have fit: "flushable []" "flushable [Put [1] [2]]" "flushable [Put [1] [3]]"
    by (simp_all add: flushable_def kv_size_def flush_entries_def)
  then have "\<forall>ops \<in> set (l_mem a # l_imm a). flushable ops" using fl(2) by auto
  moreover have small: "levels_small (lsm_flush a)" by (simp add: flush levels_small_def kv_size_def)
  ultimately obtain db2 a2 where db2: "DB_flush sample_ext const_json ?sm db1 = (Ok (), db2)" "lsm_maybe_compact (lsm_flush a) a2"
    "db_rep sample_ext ?sm db2 a2" "db_sound sample_ext const_json db2 (length (l_tables a2))" "db_sequence db2 = 1"
    "db_options db2 = sample_opts" "unat (db_next_file_number db2) \<le> 5"
    using DB_flush_rep[OF sl.skip_map_axioms db1(2), of const_json] db1(4-7) fl(3,4) by fastforce
  have a2: "a2 = lsm_flush a"
    using db2(2) by (cases rule: lsm_maybe_compact.cases) (auto simp: flush MAX_LEVEL0_FILES_def nth_Cons' split: if_splits)
  obtain r db3 where c: "DB_call sample_ext ?sm (Put_call [1] [3]) db2 = (r, db3)" by fastforce
  then have r: "r = Ok ()" using DB_call_no_log[OF _ c] db2(6) by (simp add: sample_opts_def)
  obtain a3 where a3: "db_rep sample_ext ?sm db3 a3" "lsm_written [Put [1] [3]] a2 a3"
    using DB_call_rep[OF sl.skip_map_axioms db2(3) _ c] r db2(5) by auto
  have shape: "lsm_pending a3 = [[Put [1] [3]]]" "l_tables a3 = [[([1], [2])]] # [[], [], []]"
    using a3(2) by (auto simp: a2 flush lsm_pending_def lsm_written_def lsm_append_def lsm_freeze_def)
  have sound: "db_sound sample_ext const_json db3 (length (l_tables a3))" "unat (db_next_file_number db3) + 4 < 2 ^ 64"
    using same_parts_sound[OF DB_call_parts[OF c]] DB_call_parts[OF c] db2(4,7) shape(2) by (simp_all add: a2 flush same_parts_def)
  have small3: "levels_small (lsm_flush a3)" using lsm_flush_one[OF shape(1) _ shape(2)] by (simp add: levels_small_def kv_size_def)
  have two: "2 \<le> length (l_tables a3)" "length [[([1 :: u8], [2 :: u8])]] + 1 < MAX_LEVEL0_FILES" by (simp_all add: shape(2) MAX_LEVEL0_FILES_def)
  obtain db4 where db4: "DB_flush sample_ext const_json ?sm db3 = (Ok (), db4)"
    "\<forall>key new. mem_lookup [Put [1] [3]] key = Some new \<longrightarrow> fst (DB_get sample_ext ?sm key db3) = Ok (Some new) \<and>
      (\<forall>old. first_some (map (\<lambda>es. sst_lookup es key) (rev [[([1], [2])]])) = Some old \<longrightarrow> fst (DB_get sample_ext ?sm key db4) = Ok (Some old))"
    using DB_flush_precedence[OF sl.skip_map_axioms a3(1) sound(1) two(1) fit(3) small3 sound(2) shape(1) _ shape(2) two(2)] by blast
  then have "fst (DB_get sample_ext ?sm [1] db3) = Ok (Some [3])" "fst (DB_get sample_ext ?sm [1] db4) = Ok (Some [2])"
    by (simp_all add: mem_lookup_def sst_lookup_def)
  moreover have "DB_put sample_ext ?sm [1] [3] db2 = (Ok (), db3)" using c r by simp
  ultimately show ?thesis using db1(1) db2(1) db4(1) by blast
qed



section \<open>Iteration\<close>

text \<open>
  C9. A scan visits exactly the keys of its range that have a value, each once, in ascending order
  and with the value \<^verbatim>\<open>get\<close> returns; \<^verbatim>\<open>iter\<close> is the scan without bounds. The loop over the iterator
  ends, and neither it nor the creation of the iterator fails.
\<close>

theorem DB_scan_complete:
  assumes "skip_map sm" and "db_rep x sm db a"
  shows "\<exists>it db' es. DB_scan x sm start limit db = (Ok it, db') \<and> drain x sm it db' = Ok es \<and> sorted_wrt (<) (map fst es) \<and>
    (\<forall>key. Ok (map_of es key) = (if in_range start limit key then fst (DB_get x sm key db) else Ok None)) \<and>
    DB_iter x sm db = DB_scan x sm None None db"
proof -
  obtain ks it c where s: "DBIterator_new_range x sm (db_sequence db) start limit db = (Ok it, db\<lparr>db_cache := c\<rparr>)"
    "drain x sm it (db\<lparr>db_cache := c\<rparr>) = Ok (visits a ks)" "sorted_wrt (<) ks"
    "\<forall>key v. lsm_get a key = Some v \<longrightarrow> in_range start limit key \<longrightarrow> key \<in> set ks" "\<forall>key \<in> set ks. in_range start limit key"
    using scan_rep[OF assms, of start limit] by (elim exE conjE)
  obtain it0 c0 where "DBIterator_new_range x sm (db_sequence db) None None db = (Ok it0, db\<lparr>db_cache := c0\<rparr>)"
    using scan_rep[OF assms, of None None] by (elim exE conjE)
  then have "DB_iter x sm db = DB_scan x sm None None db" by (simp add: DB_iter_def DB_scan_def DBIterator_new_def)
  moreover have "map_of (visits a ks) key = (if in_range start limit key then lsm_get a key else None)" for key
    using visits_map_of[of ks a key] s(3-5) by (cases "lsm_get a key") (auto simp: sorted_wrt_less_distinct)
  then have "Ok (map_of (visits a ks) key) = (if in_range start limit key then fst (DB_get x sm key db) else Ok None)" for key
    by (simp add: DB_get_rep[OF assms])
  moreover have "DB_scan x sm start limit db = (Ok it, db\<lparr>db_cache := c\<rparr>)" using s(1) by (simp add: DB_scan_def)
  ultimately show ?thesis using s(2) visits_sorted[OF s(3)] by blast
qed

theorem DB_scan_complete_witness:
  "\<exists>db it db' es. DB_put sample_ext sorted_list_map [1] [2] (sample_db sample_opts) = (Ok (), db) \<and>
     DB_scan sample_ext sorted_list_map (Some [1]) (Some [7]) db = (Ok it, db') \<and>
     drain sample_ext sorted_list_map it db' = Ok es \<and> map_of es [1] = Some [2] \<and> map_of es [8] = None"
proof -
  obtain db a where db: "DB_put sample_ext sorted_list_map [1] [2] (sample_db sample_opts) = (Ok (), db)"
    "db_rep sample_ext sorted_list_map db a" "lsm_written [Put [1] [2]] (mem_store (Suc 3) []) a"
    by (rule sample_put)
  have "lsm_get a [1] = Some [2]"
    using db(3) by (auto simp: lsm_written_def lsm_append_def lsm_freeze_def lsm_get_def mem_lookup_def)
  then have get: "fst (DB_get sample_ext sorted_list_map [1] db) = Ok (Some [2])" using DB_get_rep[OF sl.skip_map_axioms db(2)] by simp
  obtain it db' es where es: "DB_scan sample_ext sorted_list_map (Some [1]) (Some [7]) db = (Ok it, db')"
    "drain sample_ext sorted_list_map it db' = Ok es"
    "\<forall>key. Ok (map_of es key) = (if in_range (Some [1]) (Some [7]) key then fst (DB_get sample_ext sorted_list_map key db) else Ok None)"
    using DB_scan_complete[OF sl.skip_map_axioms db(2)] by blast
  have r: "in_range (Some [1]) (Some [7]) [1]" "\<not> in_range (Some [1]) (Some [7]) [8]" by (simp_all add: in_range_def)
  then have "map_of es [1] = Some [2]" "map_of es [8] = None"
    using es(3)[rule_format, of "[1]"] es(3)[rule_format, of "[8]"] get by simp_all
  then show ?thesis using db(1) es(1,2) by blast
qed

section \<open>Well-formedness\<close>

text \<open>A database is well-formed if it represents a store and its parts agree.\<close>

definition DB_wf :: "ext \<Rightarrow> json \<Rightarrow> 'm SkipMap \<Rightarrow> 'm DB \<Rightarrow> bool" where
  "DB_wf x js sm db \<longleftrightarrow> (\<exists>a. db_rep x sm db a \<and> db_sound x js db (length (l_tables a)))"

lemma DB_wf_cache:
  assumes "DB_wf x js sm db" and "\<And>store. coherent store (db_cache db) \<Longrightarrow> coherent store c"
  shows "DB_wf x js sm (db\<lparr>db_cache := c\<rparr>)"
proof -
  obtain a where a: "db_rep x sm db a" "db_sound x js db (length (l_tables a))" using assms(1) by (auto simp: DB_wf_def)
  then have "db_rep x sm (db\<lparr>db_cache := c\<rparr>) a" using assms(2) by (auto simp: db_rep_def tables_rep_def)
  then show ?thesis using a(2) by (auto simp: DB_wf_def db_sound_def)
qed

text \<open>
  C12. Well-formedness is preserved: by every write call, whether it succeeds or fails, by reading and
  by the operations on the cache. A write call moves the sequence number by the number of its
  operations, also when it fails.
\<close>

theorem DB_wf_preserved:
  assumes "skip_map sm" and "DB_wf x js sm db" and "unat (db_sequence db) + length (call_ops c) < 2 ^ 64"
  shows "DB_wf x js sm (snd (DB_call x sm c db)) \<and> DB_wf x js sm (snd (DB_get x sm key db)) \<and>
    DB_wf x js sm (DB_clear_cache db) \<and> DB_wf x js sm (DB_reset_cache_stats db) \<and>
    db_sequence (snd (DB_call x sm c db)) = db_sequence db + of_nat (length (call_ops c))"
proof -
  obtain a where a: "db_rep x sm db a" "db_sound x js db (length (l_tables a))" using assms(2) by (auto simp: DB_wf_def)
  obtain r db' where c: "DB_call x sm c db = (r, db')" by fastforce
  have "\<exists>a'. db_rep x sm db' a' \<and> length (l_tables a') = length (l_tables a)"
    using DB_call_rep[OF assms(1) a(1) assms(3) c] by (auto simp: lsm_written_def lsm_append_def lsm_freeze_def split: if_splits)
  then have call: "DB_wf x js sm db'" using same_parts_sound[OF DB_call_parts[OF c]] a(2) by (auto simp: DB_wf_def)
  obtain cache where get: "snd (DB_get x sm key db) = db\<lparr>db_cache := cache\<rparr>" "db_rep x sm (db\<lparr>db_cache := cache\<rparr>) a"
    using get_at_sequence_rep[OF assms(1) a(1) order_refl, of key] by (auto simp: DB_get_def)
  have read: "DB_wf x js sm (snd (DB_get x sm key db))" using get a(2) by (auto simp: DB_wf_def db_sound_def)
  have "coherent store (BlockCache_clear bc)" "coherent store (BlockCache_reset_stats bc)" if "coherent store bc" for store bc
    using that by (auto simp: coherent_def BlockCache_clear_def BlockCache_reset_stats_def BlockCache_inv_def lru_abs_def)
  then show ?thesis
    using call read c DB_call_fields(1)[OF c] DB_wf_cache[OF assms(2)] by (simp add: DB_clear_cache_def DB_reset_cache_stats_def)
qed

theorem DB_wf_preserved_witness:
  "DB_wf sample_ext const_json sorted_list_map (snd (DB_call sample_ext sorted_list_map (Delete_call [1]) (sample_db sample_opts)))"
proof -
  have opts: "block_cache_size sample_opts < 2 ^ 63" "max_levels sample_opts = 4" "compression sample_opts = CompressionNone"
    by (simp_all add: sample_opts_def Options_for_testing_def)
  have "DB_wf sample_ext const_json sorted_list_map (sample_db sample_opts)"
    using sample_db_rep[OF opts(1), of sample_ext] opened_db_sound[of empty_fs const_json sample_opts sample_ext] opts(3)
    unfolding DB_wf_def by (intro exI[of _ "mem_store (max_levels sample_opts) []"]) (simp add: empty_fs_def const_json_def)
  then show ?thesis using DB_wf_preserved[OF sl.skip_map_axioms, of sample_ext const_json "sample_db sample_opts" "Delete_call [1]"] by simp
qed

end
