(* ===== verification/DB_Threads.thy ===== *)
theory DB_Threads
  imports DB_Properties
begin

text \<open>
  Threads of one database (\<^verbatim>\<open>lib.rs\<close>). The methods of the database take \<^verbatim>\<open>&self\<close>: they may run in
  several threads and interleave between the regions that a lock protects. A step of a thread is one
  such region: a load or update of an atomic counter, the writes to the log under its lock, one insertion
  into the memtable under the shared lock, a lookup, the freezing of the memtable under the exclusive lock,
  the writing of a table, its insertion into a level, the steps of a log rotation and of a compaction. A
  schedule is the list of the threads in the order of their steps; a step of a thread that waits for a lock
  or has finished does nothing.

  The field \<open>c_runs\<close> is a history variable: it records, for every memtable since the start, the write
  calls that entered it with their first sequence numbers. No step reads it.
\<close>

section \<open>Definitions\<close>

subsection \<open>Flush and compaction in steps\<close>

text \<open>\<^verbatim>\<open>flush_memtable_to_sstable\<close> up to the insertion into level 0; \<open>None\<close> if there was nothing to write.\<close>

definition build_table :: "ext \<Rightarrow> 'm SkipMap \<Rightarrow> 'm MemTable \<Rightarrow> 'm DB \<Rightarrow> SSTableReader option res \<times> 'm DB" where
  "build_table x sm mt db0 =
     (let num = db_next_file_number db0;
          path = path_join (db_path db0) (sst_file_name num);
          db = db0\<lparr>db_next_file_number := num + 1\<rparr>
      in case fs_do (fs_open_write True path) db of
        (created, db) \<Rightarrow>
      try_st (SSTableBuilder_new created, db) (\<lambda>sb0 db.
      let sb1 = SSTableBuilder_set_compression (compression (db_options db))
                  (SSTableBuilder_set_block_size (block_size (db_options db)) sb0)
      in case flush_loop x (MemTable_iter sm mt) None 0 sb1 of
        (Err e, sb) \<Rightarrow> (Err e, set_file path (drop_builder sb) db)
      | (Panic, sb) \<Rightarrow> (Panic, set_file path (drop_builder sb) db)
      | (Ok entry_count, sb) \<Rightarrow>
          if entry_count = 0 then
            (case SSTableBuilder_abandon sb of
               (abandoned, f) \<Rightarrow>
                 try_st (abandoned, set_file path f db) (\<lambda>_ db.
                 try_st (remove_if_exists path db) (\<lambda>_ db. (Ok None, db))))
          else
            (case SSTableBuilder_finish x sb of
               (finished, f) \<Rightarrow>
                 try_st (finished, set_file path f db) (\<lambda>file_size db.
                 try_st (open_table x path db) (\<lambda>rd db. (Ok (Some rd), db))))))"

text \<open>\<^verbatim>\<open>rotate_wal\<close>: opening the new log; exchanging it for the old one under the lock; removing the old one.\<close>

definition rotate_open :: "'m DB \<Rightarrow> WAL res \<times> 'm DB" where
  "rotate_open db0 =
     (let new_wal_number = db_wal_file_number db0 + 1;
          new_wal_path = path_join (db_path db0) (wal_filename new_wal_number);
          db = db0\<lparr>db_wal_file_number := new_wal_number\<rparr>
      in case fs_do (fs_open_write False new_wal_path) db of
        (opened, db) \<Rightarrow> (WAL_open new_wal_path opened, db))"

definition rotate_remove :: "WAL \<Rightarrow> 'm DB \<Rightarrow> unit res \<times> 'm DB" where
  "rotate_remove old_wal db =
     remove_if_exists (WAL_path old_wal) (set_file (WAL_path old_wal) (WALWriter_drop (wal_writer old_wal)) db)"

text \<open>
  \<^verbatim>\<open>compact\<close>: running the job and reading what the manifest needs (\<open>None\<close> if there is no output);
  updating manifest and levels under their locks. The removal of the inputs is \<open>remove_files\<close>.
\<close>

type_synonym compacted_table = "SSTableReader \<times> VersionEdit list \<times> string list"

definition compact_prepare :: "ext \<Rightarrow> CompactionTask \<Rightarrow> 'm DB \<Rightarrow> compacted_table option res \<times> 'm DB" where
  "compact_prepare x task db0 =
     (let num = db_next_file_number db0;
          db = db0\<lparr>db_next_file_number := num + 1\<rparr>;
          job = CompactionJob_new (ct_inputs task) (ct_output_level task) (db_path db) (block_size (db_options db))
      in case CompactionJob_run x num job (db_fs db) of
        None \<Rightarrow> (Panic, db)
      | Some (r, fs) \<Rightarrow>
      try_st (r, db\<lparr>db_fs := fs\<rparr>) (\<lambda>result db.
        if cr_file_number result = 0 then (Ok None, db)
        else
          try_st (open_table x (cr_output_path result) db) (\<lambda>rd db.
          try_st (read_smallest_key x rd db) (\<lambda>smallest db.
          try_st (bind_res (SSTableReader_largest_key rd)
                    (\<lambda>k. case k of None \<Rightarrow> Err (Internal ''New SSTable has no keys'') | Some key \<Rightarrow> Ok key), db)
            (\<lambda>largest db.
          try_st (input_infos (ct_inputs task), db) (\<lambda>infos db.
            (Ok (Some (rd,
                 AddFile (ct_output_level task) (cr_file_number result) (sr_file_size rd) smallest largest #
                 map (\<lambda>(n, _). DeleteFile (ct_level task) n) infos, map snd infos)), db)))))))"

definition compact_install :: "json \<Rightarrow> CompactionTask \<Rightarrow> compacted_table \<Rightarrow> 'm DB \<Rightarrow> unit res \<times> 'm DB" where
  "compact_install js task out db0 =
     (case out of
        (rd, edits, _) \<Rightarrow> try_st (log_version_edits js edits db0) (\<lambda>_ db. install_output task rd db))"

subsection \<open>Threads\<close>

datatype request = Write call | Get bytes | Read_at u64 bytes | Flush

text \<open>What a thread does next, with its local variables.\<close>

datatype 'm pc =
    Idle request
  | Log call u64
  | Enter call u64
  | Apply call "WriteOp list" u64
  | Check_size
  | Freeze
  | Read_memtable bytes u64
  | Read_immutable bytes u64
  | Read_tables bytes
  | Flush_freeze
  | Flush_pop
  | Flush_build "'m MemTable"
  | Flush_add SSTableReader
  | Rotate_open
  | Rotate_swap WAL
  | Rotate_remove WAL
  | Pick
  | Compact CompactionTask
  | Install CompactionTask compacted_table
  | Remove "string list"
  | Returned "unit res"
  | Answered "bytes option res"

record 'm threads =
  c_db :: "'m DB"
  c_pcs :: "'m pc list"
  c_runs :: "(nat \<times> u64 \<times> call) list list"

definition start :: "'m DB \<Rightarrow> request list \<Rightarrow> 'm threads" where
  "start db rs = \<lparr>c_db = db, c_pcs = map Idle rs, c_runs = [[]]\<rparr>"

text \<open>The shared lock of the memtable is held over the insertions of a call.\<close>

fun holds_memtable :: "'m pc \<Rightarrow> bool" where
  "holds_memtable (Apply c ops seq) = True"
| "holds_memtable _ = False"

definition memtable_locked :: "'m threads \<Rightarrow> bool" where
  "memtable_locked s = list_ex holds_memtable (c_pcs s)"

text \<open>\<^verbatim>\<open>put\<close> and \<^verbatim>\<open>write\<close> check the size of the memtable, \<^verbatim>\<open>delete\<close> does not.\<close>

fun after_apply :: "call \<Rightarrow> 'm pc" where
  "after_apply (Delete_call key) = Returned (Ok ())"
| "after_apply _ = Check_size"

text \<open>A fallible step: the thread goes on, or returns the error.\<close>

definition or_return :: "'a res \<times> 'm DB \<Rightarrow> ('a \<Rightarrow> 'm pc) \<Rightarrow> 'm pc \<times> 'm DB" where
  "or_return act next =
     (case act of
        (Ok v, db) \<Rightarrow> (next v, db)
      | (Err e, db) \<Rightarrow> (Returned (Err e), db)
      | (Panic, db) \<Rightarrow> (Returned Panic, db))"

text \<open>One step of a thread; \<open>None\<close> when it has finished.\<close>

fun db_step :: "ext \<Rightarrow> json \<Rightarrow> 'm SkipMap \<Rightarrow> 'm pc \<Rightarrow> 'm DB \<Rightarrow> ('m pc \<times> 'm DB) option" where
  "db_step x js sm (Idle (Write c)) db =
     (if call_ops c = [] then Some (Returned (Ok ()), db)
      else Some (Log c (db_sequence db + 1), db\<lparr>db_sequence := db_sequence db + of_nat (length (call_ops c))\<rparr>))"
| "db_step x js sm (Log c seq) db = Some (or_return (log_ops x (call_ops c) db) (\<lambda>_. Enter c seq))"
| "db_step x js sm (Enter c seq) db = Some (Apply c (call_ops c) seq, db)"
| "db_step x js sm (Apply c (op # ops) seq) db =
     Some (Apply c ops (seq + 1), db\<lparr>db_memtable := MemTable_apply sm op seq (db_memtable db)\<rparr>)"
| "db_step x js sm (Apply c [] seq) db = Some (after_apply c, db)"
| "db_step x js sm Check_size db =
     Some (if memtable_size (db_options db) \<le> unat (MemTable_approximate_size (db_memtable db))
           then Freeze else Returned (Ok ()), db)"
| "db_step x js sm Freeze db = Some (or_return (freeze_memtable sm db) (\<lambda>_. Returned (Ok ())))"
| "db_step x js sm (Idle (Get key)) db = Some (Read_memtable key (db_sequence db), db)"
| "db_step x js sm (Idle (Read_at seq key)) db = Some (Read_memtable key seq, db)"
| "db_step x js sm (Read_memtable key max_seq) db =
     Some (case MemTable_get sm (db_memtable db) key max_seq of
             Some v \<Rightarrow> Answered (Ok (Some v)) | None \<Rightarrow> Read_immutable key max_seq, db)"
| "db_step x js sm (Read_immutable key max_seq) db =
     Some (case search_memtables sm key max_seq (rev (db_immutable db)) of
             Some v \<Rightarrow> Answered (Ok (Some v)) | None \<Rightarrow> Read_tables key, db)"
| "db_step x js sm (Read_tables key) db =
     (case search_levels x key (db_sstables db) (db_cache db) of
        (r, cache) \<Rightarrow> Some (Answered r, db\<lparr>db_cache := cache\<rparr>))"
| "db_step x js sm (Idle Flush) db =
     Some (if MemTable_is_empty sm (db_memtable db) then Flush_pop else Flush_freeze, db)"
| "db_step x js sm Flush_freeze db = Some (or_return (freeze_memtable sm db) (\<lambda>_. Flush_pop))"
| "db_step x js sm Flush_pop db =
     Some (case db_immutable db of [] \<Rightarrow> (Rotate_open, db) | mt # mts \<Rightarrow> (Flush_build mt, db\<lparr>db_immutable := mts\<rparr>))"
| "db_step x js sm (Flush_build mt) db =
     Some (or_return (build_table x sm mt db) (\<lambda>r. case r of None \<Rightarrow> Flush_pop | Some rd \<Rightarrow> Flush_add rd))"
| "db_step x js sm (Flush_add rd) db = Some (or_return (add_level0 rd db) (\<lambda>_. Flush_pop))"
| "db_step x js sm Rotate_open db = Some (or_return (rotate_open db) Rotate_swap)"
| "db_step x js sm (Rotate_swap wal) db = Some (Rotate_remove (db_wal db), db\<lparr>db_wal := wal\<rparr>)"
| "db_step x js sm (Rotate_remove old_wal) db = Some (or_return (rotate_remove old_wal db) (\<lambda>_. Pick))"
| "db_step x js sm Pick db =
     Some (or_return (pick_compaction (db_picker db) (db_sstables db), db)
             (\<lambda>task. case task of None \<Rightarrow> Returned (Ok ()) | Some t \<Rightarrow> Compact t))"
| "db_step x js sm (Compact task) db =
     Some (or_return (compact_prepare x task db)
             (\<lambda>out. case out of None \<Rightarrow> Returned (Ok ()) | Some t \<Rightarrow> Install task t))"
| "db_step x js sm (Install task out) db =
     Some (or_return (compact_install js task out db) (\<lambda>_. Remove (snd (snd out))))"
| "db_step x js sm (Remove paths) db = Some (or_return (remove_files paths db) (\<lambda>_. Returned (Ok ())))"
| "db_step x js sm _ db = None"

text \<open>Freezing takes the exclusive lock of the memtable.\<close>

fun wants_exclusive :: "'m pc \<Rightarrow> bool" where
  "wants_exclusive Freeze = True"
| "wants_exclusive Flush_freeze = True"
| "wants_exclusive _ = False"

fun record_run :: "nat \<Rightarrow> 'm pc \<Rightarrow> (nat \<times> u64 \<times> call) list list \<Rightarrow> (nat \<times> u64 \<times> call) list list" where
  "record_run i (Enter c seq) hist = butlast hist @ [last hist @ [(i, seq, c)]]"
| "record_run i Freeze hist = hist @ [[]]"
| "record_run i Flush_freeze hist = hist @ [[]]"
| "record_run i _ hist = hist"

definition thread_step :: "ext \<Rightarrow> json \<Rightarrow> 'm SkipMap \<Rightarrow> nat \<Rightarrow> 'm threads \<Rightarrow> 'm threads option" where
  "thread_step x js sm i s =
     (if length (c_pcs s) \<le> i \<or> wants_exclusive (c_pcs s ! i) \<and> memtable_locked s then None
      else case db_step x js sm (c_pcs s ! i) (c_db s) of
        None \<Rightarrow> None
      | Some (pc, db) \<Rightarrow>
          Some \<lparr>c_db = db, c_pcs = (c_pcs s)[i := pc], c_runs = record_run i (c_pcs s ! i) (c_runs s)\<rparr>)"

fun run :: "ext \<Rightarrow> json \<Rightarrow> 'm SkipMap \<Rightarrow> nat list \<Rightarrow> 'm threads \<Rightarrow> 'm threads" where
  "run x js sm [] s = s"
| "run x js sm (i # is) s =
     run x js sm is (case thread_step x js sm i s of None \<Rightarrow> s | Some s' \<Rightarrow> s')"

section \<open>Steps and runs\<close>

lemma thread_step_cases:
  assumes "thread_step x js sm i s = Some s'"
  obtains pc db where "i < length (c_pcs s)" "db_step x js sm (c_pcs s ! i) (c_db s) = Some (pc, db)"
    "wants_exclusive (c_pcs s ! i) \<longrightarrow> \<not> memtable_locked s"
    "s' = \<lparr>c_db = db, c_pcs = (c_pcs s)[i := pc], c_runs = record_run i (c_pcs s ! i) (c_runs s)\<rparr>"
  using assms by (auto simp: thread_step_def split: if_splits option.splits)

lemma run_append: "run x js sm (is @ js') s = run x js sm js' (run x js sm is s)"
  by (induction "is" arbitrary: s) auto

text \<open>What every step keeps, every run keeps.\<close>

locale thread_invariant =
  fixes x :: ext and js :: json and sm :: "'m SkipMap" and inv :: "'m threads \<Rightarrow> bool"
  assumes step_keeps: "\<And>i s s'. thread_step x js sm i s = Some s' \<Longrightarrow> inv s \<Longrightarrow> inv s'"
begin

lemma run_keeps: "inv s \<Longrightarrow> inv (run x js sm is s)"
proof (induction "is" arbitrary: s)
  case (Cons i "is")
  then show ?case by (cases "thread_step x js sm i s") (auto intro: step_keeps)
qed simp

end

section \<open>A thread that is not interrupted\<close>

text \<open>The steps of one thread alone.\<close>

abbreviation solo :: "ext \<Rightarrow> json \<Rightarrow> 'm SkipMap \<Rightarrow> 'm pc \<times> 'm DB \<Rightarrow> 'm pc \<times> 'm DB \<Rightarrow> bool" where
  "solo x js sm \<equiv> (\<lambda>(pc, db) q. db_step x js sm pc db = Some q)\<^sup>*\<^sup>*"

lemma solo_step: "db_step x js sm pc db = Some q \<Longrightarrow> solo x js sm q r \<Longrightarrow> solo x js sm (pc, db) r"
  by (rule converse_rtranclp_into_rtranclp) auto

lemma solo_trans: "solo x js sm p q \<Longrightarrow> solo x js sm q r \<Longrightarrow> solo x js sm p r"
  by (rule rtranclp_trans)

lemma or_return_simps [simp]:
  "or_return (Ok v, db) next = (next v, db)" "or_return (Err e, db) next = (Returned (Err e), db)"
  "or_return (Panic, db) next = (Returned Panic, db)"
  by (simp_all add: or_return_def)

lemma or_return_unit: "or_return act (\<lambda>_. Returned (Ok ())) = (Returned (fst act), snd act)"
  by (auto simp: or_return_def split: prod.split res.split)

text \<open>A fallible step and what follows it, against the composition of the atomic operations.\<close>

lemma solo_try:
  assumes "db_step x js sm pc db = Some (or_return act next)"
    and "\<And>v db1. act = (Ok v, db1) \<Longrightarrow> solo x js sm (next v, db1) (or_return (f v db1) k)"
  shows "solo x js sm (pc, db) (or_return (try_st act f) k)"
proof (rule solo_step[OF assms(1)])
  obtain r db1 where act: "act = (r, db1)" by fastforce
  then show "solo x js sm (or_return act next) (or_return (try_st act f) k)" using assms(2)[of _ db1] by (cases r) simp_all
qed

text \<open>The operations of the database as compositions of the steps.\<close>

lemma flush_memtable_split:
  "flush_memtable_to_sstable x sm mt db =
     try_st (build_table x sm mt db) (\<lambda>r db1. case r of
         None \<Rightarrow> (Ok 0, db1)
       | Some rd \<Rightarrow> try_st (add_level0 rd db1) (\<lambda>_ db2. (Ok (db_next_file_number db), db2)))"
  by (auto simp: flush_memtable_to_sstable_def build_table_def Let_def bind_st_def split: prod.splits res.splits)

lemma rotate_wal_split:
  "rotate_wal db = try_st (rotate_open db) (\<lambda>wal db1. rotate_remove (db_wal db1) (db1\<lparr>db_wal := wal\<rparr>))"
  by (auto simp: rotate_wal_def rotate_open_def rotate_remove_def Let_def bind_st_def split: prod.splits res.splits)

lemma try_st_assoc: "try_st (try_st act f) g = try_st act (\<lambda>v s. try_st (f v s) g)"
  by (auto simp: bind_st_def split: prod.split res.split)

lemma compact_split:
  "compact x js task db =
     try_st (compact_prepare x task db) (\<lambda>out db1. case out of
         None \<Rightarrow> (Ok (), db1)
       | Some t \<Rightarrow> try_st (compact_install js task t db1) (\<lambda>_ db2. remove_files (snd (snd t)) db2))"
  (is "_ = try_st _ ?rest")
proof -
  let ?job = "CompactionJob_new (ct_inputs task) (ct_output_level task) (db_path db) (block_size (db_options db))"
  consider "CompactionJob_run x (db_next_file_number db) ?job (db_fs db) = None"
    | r fs where "CompactionJob_run x (db_next_file_number db) ?job (db_fs db) = Some (r, fs)" by fastforce
  then show ?thesis
  proof cases
    case 1
    then show ?thesis by (simp add: compact_def compact_prepare_def Let_def)
  next
    case (2 r fs)
    show ?thesis
    proof (cases r)
      case (Ok result)
      then show ?thesis
        using 2 by (cases "cr_file_number result = 0")
          (simp_all add: compact_def compact_prepare_def compact_install_def Let_def try_st_assoc)
    qed (use 2 in \<open>simp_all add: compact_def compact_prepare_def Let_def\<close>)
  qed
qed

lemma try_st_keeps:
  assumes "h (snd act) = v" and "\<And>a s. act = (Ok a, s) \<Longrightarrow> h (snd (f a s)) = v"
  shows "h (snd (try_st act f)) = v"
proof -
  obtain r s where "act = (r, s)" by fastforce
  then show ?thesis using assms by (cases r) simp_all
qed

lemma file_steps_immutable [simp]:
  "db_immutable (snd (fs_do act db)) = db_immutable db" "db_immutable (set_file path f db) = db_immutable db"
  "db_immutable (snd (remove_if_exists path db)) = db_immutable db" "db_immutable (snd (open_table x path db)) = db_immutable db"
  by (simp_all add: fs_do_def set_file_def remove_if_exists_def open_table_def split: prod.split)

lemma file_steps_immutableD:
  "remove_if_exists path db = (r, db') \<Longrightarrow> db_immutable db' = db_immutable db"
  "open_table x path db = (q, db') \<Longrightarrow> db_immutable db' = db_immutable db"
  using file_steps_immutable(3,4) by (metis snd_conv)+

lemma build_table_immutable: "db_immutable (snd (build_table x sm mt db)) = db_immutable db"
proof -
  let ?path = "path_join (db_path db) (sst_file_name (db_next_file_number db))"
  obtain created db1 where c: "fs_do (fs_open_write True ?path) (db\<lparr>db_next_file_number := db_next_file_number db + 1\<rparr>) = (created, db1)"
    by fastforce
  then have imm: "db_immutable db1 = db_immutable db"
    using file_steps_immutable(1)[of "fs_open_write True ?path" "db\<lparr>db_next_file_number := db_next_file_number db + 1\<rparr>"] by simp
  show ?thesis
    unfolding build_table_def Let_def c prod.case
  proof (rule try_st_keeps[where h = db_immutable])
    fix sb0 d
    assume "(SSTableBuilder_new created, db1) = (Ok sb0, d)"
    then have dimm: "db_immutable d = db_immutable db" using imm by simp
    obtain r sb where l: "flush_loop x (MemTable_iter sm mt) None 0 (SSTableBuilder_set_compression (compression (db_options d))
        (SSTableBuilder_set_block_size (block_size (db_options d)) sb0)) = (r, sb)" by fastforce
    have abandon: "db_immutable (snd (try_st (a, set_file ?path f d) (\<lambda>_ db. try_st (remove_if_exists ?path db) (\<lambda>_ db. (Ok None, db))))) =
        db_immutable db" for a f
      using dimm by (intro try_st_keeps[where h = db_immutable]) (auto dest: file_steps_immutableD)
    have finish: "db_immutable (snd (try_st (a, set_file ?path f d) (\<lambda>_ db. try_st (open_table x ?path db) (\<lambda>rd db. (Ok (Some rd), db))))) =
        db_immutable db" for a f
      using dimm by (intro try_st_keeps[where h = db_immutable]) (auto dest: file_steps_immutableD)
    show "db_immutable (snd (case flush_loop x (MemTable_iter sm mt) None 0 (SSTableBuilder_set_compression (compression (db_options d))
        (SSTableBuilder_set_block_size (block_size (db_options d)) sb0)) of
          (Err e, sb) \<Rightarrow> (Err e, set_file ?path (drop_builder sb) d)
        | (Panic, sb) \<Rightarrow> (Panic, set_file ?path (drop_builder sb) d)
        | (Ok n, sb) \<Rightarrow>
            if n = 0 then (case SSTableBuilder_abandon sb of (a, f) \<Rightarrow>
              try_st (a, set_file ?path f d) (\<lambda>_ db. try_st (remove_if_exists ?path db) (\<lambda>_ db. (Ok None, db))))
            else (case SSTableBuilder_finish x sb of (a, f) \<Rightarrow>
              try_st (a, set_file ?path f d) (\<lambda>_ db. try_st (open_table x ?path db) (\<lambda>rd db. (Ok (Some rd), db)))))) = db_immutable db"
      unfolding l using dimm by (cases r) (auto simp only: prod.case res.case snd_conv file_steps_immutable abandon finish split: prod.split if_split)
  qed (simp add: imm)
qed

lemma add_level0_immutable: "add_level0 rd db = (r, db') \<Longrightarrow> db_immutable db' = db_immutable db"
  by (auto simp: add_level0_def split: list.splits)

lemma solo_apply: "solo x js sm (Apply c ops seq, db)
    (after_apply c, db\<lparr>db_memtable := MemTable_apply_all sm ops seq (db_memtable db)\<rparr>)"
proof (induction ops arbitrary: seq db)
  case Nil
  then show ?case by (rule solo_step[OF db_step.simps(5)]) simp
next
  case (Cons op ops)
  let ?db = "db\<lparr>db_memtable := MemTable_apply sm op seq (db_memtable db)\<rparr>"
  show ?case by (rule solo_step[OF db_step.simps(4)]) (use Cons.IH[of "seq + 1" ?db] in simp)
qed

lemma solo_flush_loop:
  "solo x js sm (Flush_pop, db) (or_return (flush_immutables x sm (db_immutable db) db) (\<lambda>_. Rotate_open))"
proof (induction "db_immutable db" arbitrary: db)
  case Nil
  then show ?case by - (rule solo_step[of _ _ _ Flush_pop _ "(Rotate_open, db)"], simp_all flip: Nil)
next
  case (Cons mt mts)
  let ?db = "db\<lparr>db_immutable := mts\<rparr>"
  have rest: "solo x js sm (Flush_pop, db1) (or_return (flush_immutables x sm mts db1) (\<lambda>_. Rotate_open))"
    if "db_immutable db1 = mts" for db1 using Cons(1)[of db1] that by simp
  have "solo x js sm (Flush_build mt, ?db) (or_return (flush_immutables x sm (mt # mts) db) (\<lambda>_. Rotate_open))"
    unfolding flush_immutables.simps flush_memtable_split try_st_assoc
  proof (rule solo_try, rule db_step.simps)
    fix r db1
    assume "build_table x sm mt ?db = (Ok r, db1)"
    then have imm: "db_immutable db1 = mts" using build_table_immutable[of x sm mt ?db] by simp
    show "solo x js sm (case r of None \<Rightarrow> Flush_pop | Some rd \<Rightarrow> Flush_add rd, db1) (or_return (try_st (case r of
          None \<Rightarrow> (Ok 0, db1)
        | Some rd \<Rightarrow> try_st (add_level0 rd db1) (\<lambda>_ db2. (Ok (db_next_file_number ?db), db2)))
      (\<lambda>_. flush_immutables x sm mts)) (\<lambda>_. Rotate_open))"
    proof (cases r)
      case None
      then show ?thesis using rest[OF imm] by simp
    next
      case (Some rd)
      have "solo x js sm (Flush_add rd, db1) (or_return (try_st (add_level0 rd db1) (\<lambda>_. flush_immutables x sm mts)) (\<lambda>_. Rotate_open))"
        by (rule solo_try, rule db_step.simps) (use rest add_level0_immutable imm in fastforce)
      then show ?thesis using Some by (simp add: try_st_assoc)
    qed
  qed
  then show ?case by - (rule solo_step[of _ _ _ Flush_pop _ "(Flush_build mt, ?db)"], simp_all flip: Cons(2))
qed

lemma solo_rotate:
  assumes "\<And>db1. solo x js sm (Pick, db1) (or_return (f db1) k)"
  shows "solo x js sm (Rotate_open, db) (or_return (try_st (rotate_wal db) (\<lambda>_. f)) k)"
  unfolding rotate_wal_split try_st_assoc
proof (rule solo_try, rule db_step.simps)
  fix wal db1
  show "solo x js sm (Rotate_swap wal, db1) (or_return (try_st (rotate_remove (db_wal db1) (db1\<lparr>db_wal := wal\<rparr>)) (\<lambda>_. f)) k)"
    by (rule solo_step, rule db_step.simps) (rule solo_try, rule db_step.simps, rule assms)
qed

lemma solo_compaction:
  "solo x js sm (Pick, db) (or_return (maybe_trigger_compaction x js db) (\<lambda>_. Returned (Ok ())))"
  unfolding maybe_trigger_compaction_def
proof (rule solo_try, rule db_step.simps)
  fix task db1
  assume "(pick_compaction (db_picker db) (db_sstables db), db) = (Ok task, db1)"
  have "solo x js sm (Compact t, db1) (or_return (compact x js t db1) (\<lambda>_. Returned (Ok ())))" for t
    unfolding compact_split
  proof (rule solo_try, rule db_step.simps)
    fix out db2
    have "solo x js sm (Install t o', db2)
        (or_return (try_st (compact_install js t o' db2) (\<lambda>_. remove_files (snd (snd o')))) (\<lambda>_. Returned (Ok ())))" for o'
      by (rule solo_try, rule db_step.simps) (rule r_into_rtranclp, simp)
    then show "solo x js sm (case out of None \<Rightarrow> Returned (Ok ()) | Some o' \<Rightarrow> Install t o', db2)
      (or_return (case out of None \<Rightarrow> (Ok (), db2)
         | Some o' \<Rightarrow> try_st (compact_install js t o' db2) (\<lambda>_ db3. remove_files (snd (snd o')) db3)) (\<lambda>_. Returned (Ok ())))"
      by (cases out) simp_all
  qed
  then show "solo x js sm (case task of None \<Rightarrow> Returned (Ok ()) | Some t \<Rightarrow> Compact t, db1)
    (or_return (case task of None \<Rightarrow> (Ok (), db1) | Some t \<Rightarrow> compact x js t db1) (\<lambda>_. Returned (Ok ())))"
    by (cases task) simp_all
qed

text \<open>The result of a request as one atomic step.\<close>

fun atomic :: "ext \<Rightarrow> json \<Rightarrow> 'm SkipMap \<Rightarrow> request \<Rightarrow> 'm DB \<Rightarrow> 'm pc \<times> 'm DB" where
  "atomic x js sm (Write c) db = (Returned (fst (DB_call x sm c db)), snd (DB_call x sm c db))"
| "atomic x js sm (Get key) db = (Answered (fst (DB_get x sm key db)), snd (DB_get x sm key db))"
| "atomic x js sm (Read_at seq key) db =
     (Answered (fst (DB_get_at_sequence x sm key seq db)), snd (DB_get_at_sequence x sm key seq db))"
| "atomic x js sm Flush db = (Returned (fst (DB_flush x js sm db)), snd (DB_flush x js sm db))"

lemma solo_read: "solo x js sm (Read_memtable key m, db)
    (Answered (fst (DB_get_at_sequence x sm key m db)), snd (DB_get_at_sequence x sm key m db))"
proof (cases "MemTable_get sm (db_memtable db) key m")
  case (Some v)
  then show ?thesis by (intro r_into_rtranclp) (simp add: DB_get_at_sequence_def)
next
  case None
  obtain r c where tabs: "search_levels x key (db_sstables db) (db_cache db) = (r, c)" by fastforce
  have "solo x js sm (Read_immutable key m, db)
      (Answered (fst (DB_get_at_sequence x sm key m db)), snd (DB_get_at_sequence x sm key m db))"
  proof (cases "search_memtables sm key m (rev (db_immutable db))")
    case (Some v)
    then show ?thesis using None by (intro r_into_rtranclp) (simp add: DB_get_at_sequence_def)
  next
    case imm: None
    have "solo x js sm (Read_tables key, db) (Answered r, db\<lparr>db_cache := c\<rparr>)" by (rule r_into_rtranclp) (simp add: tabs)
    then show ?thesis using imm None tabs
      by - (rule solo_step[of _ _ _ _ _ "(Read_tables key, db)"], simp_all add: DB_get_at_sequence_def)
  qed
  then show ?thesis using None by - (rule solo_step[of _ _ _ _ _ "(Read_immutable key m, db)"], simp_all)
qed

lemma DB_call_split:
  "DB_call x sm c db =
     (if call_ops c = [] then (Ok (), db)
      else try_st (log_ops x (call_ops c) (db\<lparr>db_sequence := db_sequence db + of_nat (length (call_ops c))\<rparr>)) (\<lambda>_ db1.
        (case c of Delete_call _ \<Rightarrow> Pair (Ok ()) | _ \<Rightarrow> freeze_if_full sm)
          (db1\<lparr>db_memtable := MemTable_apply_all sm (call_ops c) (db_sequence db + 1) (db_memtable db1)\<rparr>)))"
  by (cases c) (simp_all add: DB_put_def DB_delete_def DB_write_def Let_def WriteBatch_is_empty_def WriteBatch_iter_def WriteBatch_len_def)

lemma solo_check_size:
  "solo x js sm (Check_size, db) (Returned (Ok ()), snd (freeze_if_full sm db))"
proof (cases "memtable_size (db_options db) \<le> unat (MemTable_approximate_size (db_memtable db))")
  case True
  have "solo x js sm (Freeze, db) (Returned (Ok ()), snd (freeze_if_full sm db))"
    using True by (intro r_into_rtranclp) (simp add: freeze_if_full_def freeze_memtable_def)
  then show ?thesis using True by - (rule solo_step[of _ _ _ _ _ "(Freeze, db)"], simp_all)
qed (auto intro!: r_into_rtranclp simp: freeze_if_full_def)

lemma solo_log:
  "solo x js sm (Log c seq, db) (or_return (try_st (log_ops x (call_ops c) db) (\<lambda>_ db1.
     (case c of Delete_call _ \<Rightarrow> Pair (Ok ()) | _ \<Rightarrow> freeze_if_full sm)
       (db1\<lparr>db_memtable := MemTable_apply_all sm (call_ops c) seq (db_memtable db1)\<rparr>))) (\<lambda>_. Returned (Ok ())))"
proof -
  let ?finish = "case c of Delete_call _ \<Rightarrow> Pair (Ok ()) | _ \<Rightarrow> freeze_if_full sm"
  have "freeze_if_full sm d = (Ok (), snd (freeze_if_full sm d))" for d by (simp add: freeze_if_full_def freeze_memtable_def)
  then have full: "or_return (freeze_if_full sm d) k = (k (), snd (freeze_if_full sm d))" for d and k :: "unit \<Rightarrow> 'a pc"
    by (metis or_return_simps(1))
  have fin: "solo x js sm (after_apply c, d) (or_return (?finish d) (\<lambda>_. Returned (Ok ())))" for d
    using solo_check_size[of x js sm d] by (cases c) (simp_all add: full)
  show ?thesis
    by (rule solo_try, rule db_step.simps)
      (rule solo_step, rule db_step.simps, rule solo_trans[OF solo_apply fin])
qed

lemma solo_write: "solo x js sm (Idle (Write c), db) (atomic x js sm (Write c) db)"
proof (cases "call_ops c = []")
  case True
  then show ?thesis by (intro r_into_rtranclp) (simp add: DB_call_split)
next
  case False
  let ?db = "db\<lparr>db_sequence := db_sequence db + of_nat (length (call_ops c))\<rparr>"
  from False show ?thesis
    using solo_log[of x js sm c "db_sequence db + 1" ?db] unfolding atomic.simps or_return_unit[symmetric] DB_call_split[of x sm c db]
    by - (rule solo_step[of _ _ _ _ _ "(Log c (db_sequence db + 1), ?db)"], simp_all)
qed

lemma solo_flush: "solo x js sm (Idle Flush, db) (atomic x js sm Flush db)"
proof -
  have pop: "solo x js sm (Flush_pop, d) (or_return (try_st (flush_immutables x sm (db_immutable d) d) (\<lambda>_ db.
      try_st (rotate_wal db) (\<lambda>_. maybe_trigger_compaction x js))) (\<lambda>_. Returned (Ok ())))" for d
  proof -
    obtain r d1 where fl: "flush_immutables x sm (db_immutable d) d = (r, d1)" by fastforce
    then show ?thesis
      using solo_trans[OF solo_flush_loop[of x js sm d]] solo_rotate[OF solo_compaction, of x js sm d1] by (cases r) simp_all
  qed
  show ?thesis
  proof (cases "MemTable_is_empty sm (db_memtable db)")
    case True
    then show ?thesis
      using pop[of db] unfolding atomic.simps or_return_unit[symmetric]
      by - (rule solo_step[of _ _ _ _ _ "(Flush_pop, db)"], simp_all add: DB_flush_def)
  next
    case False
    have "solo x js sm (Flush_freeze, db) (atomic x js sm Flush db)"
      unfolding atomic.simps or_return_unit[symmetric] DB_flush_def
      using False by simp (rule solo_try, rule db_step.simps, rule pop)
    then show ?thesis using False by - (rule solo_step[of _ _ _ _ _ "(Flush_freeze, db)"], simp_all)
  qed
qed

lemma solo_atomic: "solo x js sm (Idle r, db) (atomic x js sm r db)"
proof (cases r)
  case (Get key)
  then show ?thesis using solo_step[OF db_step.simps(8) solo_read, of x js sm key db] by (simp add: DB_get_def Let_def)
next
  case (Read_at seq key)
  then show ?thesis using solo_step[OF db_step.simps(9) solo_read, of x js sm seq key db] by simp
qed (auto intro: solo_write solo_flush simp del: atomic.simps)

lemma run_solo:
  assumes "solo x js sm (c_pcs s ! i, c_db s) q" and i: "i < length (c_pcs s)"
    and others: "\<And>j. j < length (c_pcs s) \<Longrightarrow> j \<noteq> i \<Longrightarrow> \<not> holds_memtable (c_pcs s ! j)"
  shows "\<exists>n hist. run x js sm (replicate n i) s = \<lparr>c_db = snd q, c_pcs = (c_pcs s)[i := fst q], c_runs = hist\<rparr>"
  using assms(1)
proof (induction rule: rtranclp_induct)
  case base
  then show ?case by (intro exI[of _ 0] exI[of _ "c_runs s"]) simp
next
  case (step p q)
  obtain pc db pc' db' where q: "p = (pc, db)" "q = (pc', db')" by fastforce
  then obtain n hist where n: "run x js sm (replicate n i) s = \<lparr>c_db = db, c_pcs = (c_pcs s)[i := pc], c_runs = hist\<rparr>"
    using step.IH by auto
  let ?s = "\<lparr>c_db = db, c_pcs = (c_pcs s)[i := pc], c_runs = hist\<rparr>"
  let ?s' = "\<lparr>c_db = db', c_pcs = (c_pcs s)[i := pc'], c_runs = record_run i pc hist\<rparr>"
  have "\<not> memtable_locked ?s" if "wants_exclusive pc"
  proof -
    have "\<not> holds_memtable pc" using that by (cases pc) simp_all
    then have "\<not> holds_memtable ((c_pcs s)[i := pc] ! j)" if "j < length (c_pcs s)" for j
      using others[OF that] that by (cases "j = i") simp_all
    then show ?thesis by (simp add: memtable_locked_def list_ex_length)
  qed
  then have "thread_step x js sm i ?s = Some ?s'"
    using step.hyps(2) q i by (auto simp: thread_step_def)
  then have "run x js sm (replicate n i @ [i]) s = ?s'" by (simp add: run_append n)
  then show ?case unfolding q by (metis replicate_append_same replicate_Suc fst_conv snd_conv)
qed

text \<open>
  C15. A call that is not interrupted is the atomic operation of the sequential model: run alone, while
  no other thread is inserting into the memtable, a thread finishes its request with the result and
  the database that the operation of \<^verbatim>\<open>lib.rs\<close> as one step gives, and leaves the other threads where they are.
\<close>

theorem Threads_atomic:
  assumes "i < length (c_pcs s)" and "c_pcs s ! i = Idle r" and "\<not> memtable_locked s"
  shows "\<exists>n. let s' = run x js sm (replicate n i) s in
    (c_pcs s' ! i, c_db s') = atomic x js sm r (c_db s) \<and> (\<forall>j. j \<noteq> i \<longrightarrow> c_pcs s' ! j = c_pcs s ! j)"
proof -
  obtain pc db where q: "atomic x js sm r (c_db s) = (pc, db)" by fastforce
  have "\<not> holds_memtable (c_pcs s ! j)" if "j < length (c_pcs s)" for j
    using assms(3) that by (auto simp: memtable_locked_def list_ex_iff)
  then obtain n hist where "run x js sm (replicate n i) s = \<lparr>c_db = db, c_pcs = (c_pcs s)[i := pc], c_runs = hist\<rparr>"
    using run_solo[OF _ assms(1)] solo_atomic[of x js sm r "c_db s"] unfolding q assms(2) by fastforce
  then show ?thesis using assms(1) q by (intro exI[of _ n]) simp
qed

theorem Threads_atomic_witness:
  "\<exists>n. c_pcs (run sample_ext const_json sorted_list_map (replicate n 0) (start (sample_db sample_opts) [Write (Delete_call [1]), Get [1]])) ! 0 =
     Returned (fst (DB_delete sample_ext sorted_list_map [1] (sample_db sample_opts)))"
  using Threads_atomic[of 0 "start (sample_db sample_opts) [Write (Delete_call [1]), Get [1]]" "Write (Delete_call [1])"
      sample_ext const_json sorted_list_map]
  by (auto simp: start_def memtable_locked_def Let_def)

end
