(* ===== verification/DB_Linear.thy ===== *)
theory DB_Linear
  imports DB_Threads
begin

text \<open>
  What all interleavings of write calls and reads keep: every thread is where its request says, the
  sequence numbers of different calls are different, and the memtables hold the entries of the calls
  recorded for them, up to what the threads that hold the lock have still to insert.
\<close>

section \<open>Memtables filled out of order\<close>

text \<open>The entries of a call, from its first sequence number on.\<close>

fun seq_entries :: "u64 \<Rightarrow> WriteOp list \<Rightarrow> entry set" where
  "seq_entries seq [] = {}"
| "seq_entries seq (op # ops) = insert (op_entry op seq) (seq_entries (seq + 1) ops)"

abbreviation run_entries :: "(nat \<times> u64 \<times> call) set \<Rightarrow> entry set" where
  "run_entries ts \<equiv> \<Union>(i, seq, c) \<in> ts. seq_entries seq (call_ops c)"

text \<open>The sequence numbers a call holds.\<close>

abbreviation seq_range :: "u64 \<Rightarrow> call \<Rightarrow> nat set" where
  "seq_range seq c \<equiv> {unat seq ..< unat seq + length (call_ops c)}"

lemma op_entry_sequence [simp]: "sequence (fst (op_entry op seq)) = seq"
  by (cases op) simp_all

lemma seq_entries_range:
  assumes "e \<in> seq_entries seq ops" and "unat seq + length ops \<le> 2 ^ 64"
  shows "unat (sequence (fst e)) \<in> {unat seq ..< unat seq + length ops}"
  using assms
proof (induction ops arbitrary: seq)
  case (Cons op ops)
  show ?case
  proof (cases "ops = []")
    case False
    then have "unat (seq + 1) = unat seq + 1" using Cons.prems(2) by (intro unat_Suc_u64) (cases ops; simp)
    then show ?thesis using Cons.IH[of "seq + 1"] Cons.prems by auto
  qed (use Cons.prems(1) in simp)
qed simp

lemma sorted_entries_unique:
  assumes "sorted_entries xs" and "sorted_entries ys" and "set xs = set ys"
  shows "xs = ys"
proof -
  have "map fst xs = map fst ys"
    using assms by (intro sorted_distinct_set_unique) (simp_all add: sorted_entries_def strict_sorted_iff)
  moreover have "inj_on fst (set xs \<union> set ys)"
    using assms(3) sorted_entries_distinct[OF assms(2)] by (simp add: distinct_map)
  ultimately show ?thesis by (simp add: inj_on_map_eq_map)
qed

lemma mem_rep_iter: "mem_rep sm mt ops seq \<Longrightarrow> MemTable_iter sm mt' = MemTable_iter sm mt \<Longrightarrow> mem_rep sm mt' ops seq"
  by (simp add: mem_rep_def)

lemma set_iter_apply_fresh:
  assumes "skip_map sm" and "sorted_entries (MemTable_iter sm mt)"
    and "\<forall>e \<in> set (MemTable_iter sm mt). sequence (fst e) \<noteq> seq"
  shows "set (MemTable_iter sm (MemTable_apply sm op seq mt)) = insert (op_entry op seq) (set (MemTable_iter sm mt))"
  using assms by (intro skip_map.set_iter_apply) fastforce+

lemma iter_apply_all:
  assumes sm: "skip_map sm" and "mem_rep sm mt ops seq" and "unat seq + length new < 2 ^ 64"
  shows "set (MemTable_iter sm (MemTable_apply_all sm new (seq + 1) mt)) = set (MemTable_iter sm mt) \<union> seq_entries (seq + 1) new"
  using assms(2,3)
proof (induction new arbitrary: mt ops seq)
  case (Cons op new)
  have u: "unat (seq + 1) = unat seq + 1" using Cons.prems(2) by (intro unat_Suc_u64) simp
  then have lt: "seq < seq + 1" by (simp add: word_less_nat_alt)
  have "set (MemTable_iter sm (MemTable_apply sm op (seq + 1) mt)) = insert (op_entry op (seq + 1)) (set (MemTable_iter sm mt))"
    using Cons.prems(1) lt by (intro set_iter_apply_fresh[OF sm]) (auto simp: mem_rep_def)
  then show ?case using Cons.IH[OF mem_rep_apply[OF sm Cons.prems(1) lt]] Cons.prems(2) u by simp
qed simp

text \<open>A memtable that holds the entries of some calls, in whatever order they came, holds the calls in the order of their numbers.\<close>

abbreviation ascending :: "(nat \<times> u64 \<times> call) list \<Rightarrow> bool" where
  "ascending ts \<equiv> sorted_wrt (\<lambda>(i, seq, c) (j, seq', d). unat seq + length (call_ops c) \<le> unat seq') ts"

lemma mem_rep_run:
  assumes sm: "skip_map sm" and "mem_rep sm mt0 ops0 seq0" and "ascending ts"
    and "\<forall>(i, seq, c) \<in> set ts. unat seq0 < unat seq \<and> unat seq + length (call_ops c) \<le> unat hi + 1" and "seq0 \<le> hi"
    and "sorted_entries (MemTable_iter sm mt)" and "set (MemTable_iter sm mt) = set (MemTable_iter sm mt0) \<union> run_entries (set ts)"
  shows "mem_rep sm mt (ops0 @ calls_ops (map (\<lambda>(i, seq, c). c) ts)) hi"
  using assms(2-)
proof (induction ts arbitrary: mt0 ops0 seq0)
  case Nil
  then have "MemTable_iter sm mt = MemTable_iter sm mt0" by (intro sorted_entries_unique) (auto simp: mem_rep_def)
  then show ?case using mem_rep_later[OF mem_rep_iter[OF Nil.prems(1)] Nil.prems(4)] by simp
next
  case (Cons t ts)
  obtain i seq c where t: "t = (i, seq, c)" by (cases t)
  let ?n = "length (call_ops c)" and ?p = "seq - 1"
  have b: "unat seq0 < unat seq" "unat seq + ?n \<le> unat hi + 1" using Cons.prems(3) t by auto
  have p: "unat ?p = unat seq - 1" using b(1) by (simp add: unat_sub word_le_nat_alt unat_sub_if_size)
  have room: "unat ?p + ?n < 2 ^ 64" using b p unat_lt2p[of hi] by simp
  let ?mt = "MemTable_apply_all sm (call_ops c) seq mt0" and ?s = "?p + of_nat ?n"
  have rep0: "mem_rep sm mt0 ops0 ?p" using b(1) p by (intro mem_rep_later[OF Cons.prems(1)]) (simp add: word_le_nat_alt)
  have rep: "mem_rep sm ?mt (ops0 @ call_ops c) ?s" using mem_rep_apply_all[OF sm rep0 room] by simp
  have s: "unat ?s = unat seq + ?n - 1" using room p b(1) by (simp add: unat_word_ariths unat_of_nat)
  have "set (MemTable_iter sm ?mt) = set (MemTable_iter sm mt0) \<union> seq_entries seq (call_ops c)"
    using iter_apply_all[OF sm rep0 room] by simp
  then have "set (MemTable_iter sm mt) = set (MemTable_iter sm ?mt) \<union> run_entries (set ts)" using Cons.prems(6) t by auto
  moreover have "\<forall>(i, seq, c) \<in> set ts. unat ?s < unat seq \<and> unat seq + length (call_ops c) \<le> unat hi + 1"
    using Cons.prems(2,3) b(1) t s by fastforce
  moreover have "?s \<le> hi" using s b by (simp add: word_le_nat_alt)
  ultimately show ?case using Cons.IH[OF rep _ _ _ Cons.prems(5)] Cons.prems(2) t by simp
qed

section \<open>Where a thread is\<close>

text \<open>
  The position of a thread fits its request and the recorded runs: a call is recorded once it has entered
  the memtable and while it inserts its entries the memtable stays the current one.
\<close>

fun pc_ok :: "request \<Rightarrow> nat \<Rightarrow> (nat \<times> u64 \<times> call) list list \<Rightarrow> 'm pc \<Rightarrow> bool" where
  "pc_ok r i hist (Idle r') \<longleftrightarrow> r' = r \<and> i \<notin> fst ` set (concat hist)"
| "pc_ok r i hist (Log c seq) \<longleftrightarrow> r = Write c \<and> call_ops c \<noteq> [] \<and> i \<notin> fst ` set (concat hist)"
| "pc_ok r i hist (Enter c seq) \<longleftrightarrow> r = Write c \<and> call_ops c \<noteq> [] \<and> i \<notin> fst ` set (concat hist)"
| "pc_ok r i hist (Apply c ops seq) \<longleftrightarrow> r = Write c \<and> call_ops c \<noteq> [] \<and>
     (\<exists>b k. (i, b, c) \<in> set (last hist) \<and> k \<le> length (call_ops c) \<and> ops = drop k (call_ops c) \<and> seq = b + of_nat k)"
| "pc_ok r i hist Check_size \<longleftrightarrow> (\<exists>b c. r = Write c \<and> call_ops c \<noteq> [] \<and> (i, b, c) \<in> set (concat hist))"
| "pc_ok r i hist Freeze \<longleftrightarrow> (\<exists>b c. r = Write c \<and> call_ops c \<noteq> [] \<and> (i, b, c) \<in> set (concat hist))"
| "pc_ok r i hist (Returned q) \<longleftrightarrow> (\<exists>c. r = Write c \<and>
     (if q = Ok () \<and> call_ops c \<noteq> [] then \<exists>b. (i, b, c) \<in> set (concat hist) else i \<notin> fst ` set (concat hist)))"
| "pc_ok r i hist (Read_memtable key m) \<longleftrightarrow> (\<forall>c. r \<noteq> Write c) \<and> i \<notin> fst ` set (concat hist)"
| "pc_ok r i hist (Read_immutable key m) \<longleftrightarrow> (\<forall>c. r \<noteq> Write c) \<and> i \<notin> fst ` set (concat hist)"
| "pc_ok r i hist (Read_tables key) \<longleftrightarrow> (\<forall>c. r \<noteq> Write c) \<and> i \<notin> fst ` set (concat hist)"
| "pc_ok r i hist (Answered a) \<longleftrightarrow> (\<forall>c. r \<noteq> Write c) \<and> i \<notin> fst ` set (concat hist)"
| "pc_ok r i hist _ \<longleftrightarrow> False"

text \<open>Steps that do not touch the memtables.\<close>

definition cache_step :: "ext \<Rightarrow> 'm DB \<Rightarrow> 'm DB \<Rightarrow> bool" where
  "cache_step x db db' \<longleftrightarrow> db' = db \<or>
     (\<exists>key. db' = db\<lparr>db_cache := snd (search_levels x key (db_sstables db) (db_cache db))\<rparr>)"

text \<open>The kinds of step of a thread whose request is a write call or a read.\<close>

lemma write_step_cases:
  assumes "db_step x js sm pc db = Some (pc', db')" and ok: "pc_ok r i hist pc" and "r \<noteq> Flush"
  obtains (take) c where "pc = Idle (Write c)" "call_ops c \<noteq> []" "pc' = Log c (db_sequence db + 1)"
      "db' = db\<lparr>db_sequence := db_sequence db + of_nat (length (call_ops c))\<rparr>"
  | (logged) c seq where "pc = Log c seq" "pc' = Enter c seq" "same_data db db'"
  | (failed) c seq q where "pc = Log c seq" "pc' = Returned q" "q \<noteq> Ok ()" "same_data db db'"
  | (enter) c seq where "pc = Enter c seq" "pc' = Apply c (call_ops c) seq" "db' = db"
  | (insert) c op ops seq where "pc = Apply c (op # ops) seq" "pc' = Apply c ops (seq + 1)"
      "db' = db\<lparr>db_memtable := MemTable_apply sm op seq (db_memtable db)\<rparr>"
  | (inserted) c seq where "pc = Apply c [] seq" "pc' = after_apply c" "db' = db"
  | (freeze) "pc = Freeze" "pc' = Returned (Ok ())" "db' = snd (freeze_memtable sm db)"
  | (silent) "pc_ok r i hist pc'" "\<And>j. record_run j pc = id" "\<not> holds_memtable pc" "\<not> holds_memtable pc'" "cache_step x db db'"
      "\<And>c seq. pc' \<noteq> Log c seq" "\<And>c seq. pc' \<noteq> Enter c seq" "\<And>r'. pc' \<noteq> Idle r'"
proof (cases pc)
  case (Idle r')
  then have r': "r' = r" "i \<notin> fst ` set (concat hist)" using ok by auto
  show ?thesis
  proof (cases "\<exists>c. r' = Write c \<and> call_ops c \<noteq> []")
    case True
    then show ?thesis using assms(1) Idle by (auto intro: take)
  next
    case False
    then have "(\<exists>c. r' = Write c \<and> call_ops c = [] \<and> pc' = Returned (Ok ())) \<or> (\<forall>c. r' \<noteq> Write c) \<and> (\<exists>key m. pc' = Read_memtable key m)" "db' = db"
      using assms(1,3) Idle r'(1) by (cases r'; auto)+
    then show ?thesis using Idle r' by (intro silent) (auto simp: cache_step_def fun_eq_iff)
  qed
next
  case (Log c seq)
  obtain q d where q: "log_ops x (call_ops c) db = (q, d)" by fastforce
  then have "same_data db d" by (rule log_ops_data)
  then show ?thesis using assms(1) Log q by (cases q) (auto intro: logged failed)
next
  case (Apply c ops seq)
  then show ?thesis using assms(1) by (cases ops) (auto intro: insert inserted)
next
  case (Freeze)
  then show ?thesis using assms(1) by (intro freeze) (auto simp: freeze_memtable_def)
next
  case (Read_tables key)
  then have "pc' = Answered (fst (search_levels x key (db_sstables db) (db_cache db)))"
    "db' = db\<lparr>db_cache := snd (search_levels x key (db_sstables db) (db_cache db))\<rparr>"
    using assms(1) by (auto split: prod.splits)
  then show ?thesis using Read_tables ok by (intro silent) (auto simp: cache_step_def fun_eq_iff)
next
  case (Enter c seq)
  then show ?thesis using assms(1) by (intro enter) auto
next
  case Check_size
  then have "pc' = Freeze \<or> pc' = Returned (Ok ())" "db' = db" using assms(1) by (auto split: if_splits)
  then show ?thesis using Check_size ok by (intro silent) (auto simp: cache_step_def fun_eq_iff simp del: set_concat)
next
  case (Read_memtable key m)
  then have "pc' = Read_immutable key m \<or> (\<exists>a. pc' = Answered a)" "db' = db" using assms(1) by (auto split: option.splits)
  then show ?thesis using Read_memtable ok by (intro silent) (auto simp: cache_step_def fun_eq_iff)
next
  case (Read_immutable key m)
  then have "pc' = Read_tables key \<or> (\<exists>a. pc' = Answered a)" "db' = db" using assms(1) by (auto split: option.splits)
  then show ?thesis using Read_immutable ok by (intro silent) (auto simp: cache_step_def fun_eq_iff)
qed (use assms(1) ok in simp_all)

text \<open>The recorded runs name every call once, and every thread is where its request and the runs say.\<close>

definition control_inv :: "request list \<Rightarrow> 'm threads \<Rightarrow> bool" where
  "control_inv rs s \<longleftrightarrow> length (c_pcs s) = length rs \<and> c_runs s \<noteq> [] \<and>
     (\<forall>i < length rs. pc_ok (rs ! i) i (c_runs s) (c_pcs s ! i)) \<and> distinct (map fst (concat (c_runs s))) \<and>
     (\<forall>(i, seq, c) \<in> set (concat (c_runs s)). i < length rs \<and> rs ! i = Write c)"

lemma control_invD:
  assumes "control_inv rs s"
  shows "length (c_pcs s) = length rs" and "c_runs s \<noteq> []" and "i < length (c_pcs s) \<Longrightarrow> pc_ok (rs ! i) i (c_runs s) (c_pcs s ! i)"
  using assms by (simp_all add: control_inv_def)

lemma pc_ok_extend:
  assumes "pc_ok r i hist pc" and "fst ` (set (concat hist') - set (concat hist)) \<subseteq> {j}" and "j \<noteq> i"
    and "set (concat hist) \<subseteq> set (concat hist')" and "holds_memtable pc \<Longrightarrow> set (last hist) \<subseteq> set (last hist')"
  shows "pc_ok r i hist' pc"
proof -
  have out: "i \<notin> fst ` set (concat hist')" if "i \<notin> fst ` set (concat hist)" using that assms(2,3) by blast
  show ?thesis
  proof (cases pc)
    case (Returned q)
    then obtain c where c: "r = Write c" "if q = Ok () \<and> call_ops c \<noteq> [] then \<exists>b. (i, b, c) \<in> set (concat hist) else i \<notin> fst ` set (concat hist)"
      using assms(1) by auto
    then show ?thesis using Returned out assms(4) by (cases "q = Ok () \<and> call_ops c \<noteq> []") (auto simp del: set_concat)
  qed (use assms(1,4,5) out in \<open>auto simp del: set_concat\<close>)
qed

lemma concat_enter [simp]: "hist \<noteq> [] \<Longrightarrow> concat (butlast hist @ [last hist @ [t]]) = concat hist @ [t]"
  using append_butlast_last_id[of hist] by (metis append.assoc append.right_neutral concat.simps concat_append)

text \<open>The kinds of steps: one that records nothing, one that records a call, one that starts a new memtable.\<close>

lemma control_quiet:
  assumes "control_inv rs s" and "pc_ok (rs ! i) i (c_runs s) pc" and "i < length (c_pcs s)"
  shows "control_inv rs \<lparr>c_db = db, c_pcs = (c_pcs s)[i := pc], c_runs = c_runs s\<rparr>"
  using assms by (auto simp: control_inv_def nth_list_update simp del: set_concat)

lemma control_enter:
  assumes inv: "control_inv rs s" and i: "i < length (c_pcs s)" and pc: "c_pcs s ! i = Enter c seq"
  shows "control_inv rs \<lparr>c_db = db, c_pcs = (c_pcs s)[i := Apply c (call_ops c) seq],
    c_runs = butlast (c_runs s) @ [last (c_runs s) @ [(i, seq, c)]]\<rparr>" (is "control_inv rs ?s")
proof -
  let ?h = "c_runs s" and ?h' = "butlast (c_runs s) @ [last (c_runs s) @ [(i, seq, c)]]"
  note len = control_invD(1,2)[OF inv] and ok = control_invD(3)[OF inv, unfolded len(1)]
  have oki: "pc_ok (rs ! i) i ?h (Enter c seq)" using ok[of i] i len(1) pc by simp
  have fresh: "i \<notin> fst ` set (concat ?h)" "rs ! i = Write c" using oki by simp_all
  have "pc_ok (rs ! j) j ?h' (c_pcs ?s ! j)" if "j < length rs" for j
  proof (cases "j = i")
    case True
    have "\<exists>b k. (i, b, c) \<in> set (last ?h') \<and> k \<le> length (call_ops c) \<and> call_ops c = drop k (call_ops c) \<and> seq = b + of_nat k"
      by (intro exI[of _ seq] exI[of _ 0]) simp
    then show ?thesis using True oki i by auto
  next
    case False
    have "pc_ok (rs ! j) j ?h' (c_pcs s ! j)"
      by (rule pc_ok_extend[OF ok[OF that], of _ i], unfold concat_enter[OF len(2)]) (use False in \<open>auto simp del: set_concat\<close>)
    then show ?thesis using False by simp
  qed
  moreover have "distinct (map fst (concat ?h'))"
    using inv fresh(1) by (simp add: control_inv_def concat_enter[OF len(2)] del: concat_append)
  moreover have "\<forall>(i, seq, c) \<in> set (concat ?h'). i < length rs \<and> rs ! i = Write c"
    using inv fresh(2) i len(1) by (simp add: control_inv_def concat_enter[OF len(2)] del: concat_append set_concat)
  ultimately show ?thesis using len by (simp add: control_inv_def del: concat_append set_concat)
qed

lemma control_freeze:
  assumes inv: "control_inv rs s" and i: "i < length (c_pcs s)" and pc: "pc_ok (rs ! i) i (c_runs s @ [[]]) pc"
    and free: "\<not> memtable_locked s"
  shows "control_inv rs \<lparr>c_db = db, c_pcs = (c_pcs s)[i := pc], c_runs = c_runs s @ [[]]\<rparr>"
proof -
  note len = control_invD(1,2)[OF inv] and ok = control_invD(3)[OF inv, unfolded len(1)]
  have "\<not> holds_memtable (c_pcs s ! j)" if "j < length rs" for j
    using free that len(1) by (auto simp: memtable_locked_def list_ex_length)
  then have "pc_ok (rs ! j) j (c_runs s @ [[]]) (c_pcs s ! j)" if "j < length rs" for j
    using that by (intro pc_ok_extend[OF ok[OF that], of _ "Suc j"]) simp_all
  then show ?thesis using inv i pc by (auto simp: control_inv_def nth_list_update simp del: set_concat)
qed

text \<open>The position of a call in its list of operations.\<close>

lemma pc_ok_apply:
  assumes "pc_ok r i hist (Apply c (op # ops) seq)"
  shows "pc_ok r i hist (Apply c ops (seq + 1))"
proof -
  obtain b k where k: "(i, b, c) \<in> set (last hist)" "op # ops = drop k (call_ops c)" "seq = b + of_nat k" "k \<le> length (call_ops c)"
    using assms by auto
  then have lt: "k < length (call_ops c)" by (metis drop_all list.distinct(1) not_le)
  have "ops = drop (Suc k) (call_ops c)" using Cons_nth_drop_Suc[OF lt] k(2) by (metis list.inject)
  then have "\<exists>b k. (i, b, c) \<in> set (last hist) \<and> k \<le> length (call_ops c) \<and> ops = drop k (call_ops c) \<and> seq + 1 = b + of_nat k"
    using k(1,3) lt by (intro exI[of _ b] exI[of _ "Suc k"]) simp
  then show ?thesis using assms by auto
qed

lemma control_step:
  assumes inv: "control_inv rs s" and flush: "Flush \<notin> set rs" and step: "thread_step x js sm i s = Some s'"
  shows "control_inv rs s'"
proof -
  obtain pc db where i: "i < length (c_pcs s)" and pc: "db_step x js sm (c_pcs s ! i) (c_db s) = Some (pc, db)"
    and lock: "wants_exclusive (c_pcs s ! i) \<longrightarrow> \<not> memtable_locked s"
    and s': "s' = \<lparr>c_db = db, c_pcs = (c_pcs s)[i := pc], c_runs = record_run i (c_pcs s ! i) (c_runs s)\<rparr>"
    by (rule thread_step_cases[OF step])
  note oki = control_invD(3)[OF inv i]
  have no: "rs ! i \<noteq> Flush" using flush i control_invD(1)[OF inv] by (metis nth_mem)
  have quiet: "control_inv rs s'" if "record_run i (c_pcs s ! i) (c_runs s) = c_runs s" "pc_ok (rs ! i) i (c_runs s) pc"
    unfolding s' that(1) using control_quiet[OF inv that(2) i] .
  from pc oki no show ?thesis
  proof (cases rule: write_step_cases)
    case (enter c seq)
    then show ?thesis using control_enter[OF inv i enter(1)] by (simp add: s')
  next
    case (insert c op ops seq)
    then show ?thesis using oki pc_ok_apply[of "rs ! i" i "c_runs s" c op ops seq] by (intro quiet) simp_all
  next
    case (inserted c seq)
    then obtain b where "(i, b, c) \<in> set (concat (c_runs s))" using oki last_in_set[OF control_invD(2)[OF inv]] by auto
    then show ?thesis using oki inserted by (intro quiet) (cases c; auto simp del: set_concat)+
  next
    case freeze
    have "pc_ok (rs ! i) i (c_runs s @ [[]]) pc" using oki freeze by (auto simp del: set_concat)
    then show ?thesis using control_freeze[OF inv i] lock freeze(1) by (simp add: s')
  qed (use oki in \<open>auto intro!: quiet simp del: set_concat\<close>)
qed

section \<open>Sequence numbers\<close>

text \<open>The calls that hold sequence numbers: the recorded ones and those on the way to the memtable.\<close>

definition tickets :: "'m threads \<Rightarrow> (nat \<times> u64 \<times> call) set" where
  "tickets s = set (concat (c_runs s)) \<union>
     {(i, seq, c). i < length (c_pcs s) \<and> (c_pcs s ! i = Log c seq \<or> c_pcs s ! i = Enter c seq)}"

fun idle_ops :: "'m pc \<Rightarrow> nat" where
  "idle_ops (Idle (Write c)) = length (call_ops c)"
| "idle_ops _ = 0"

definition seq_inv :: "'m DB \<Rightarrow> 'm threads \<Rightarrow> bool" where
  "seq_inv db0 s \<longleftrightarrow> db_sequence db0 \<le> db_sequence (c_db s) \<and>
     unat (db_sequence (c_db s)) + sum_list (map idle_ops (c_pcs s)) < 2 ^ 64 \<and>
     (\<forall>(i, seq, c) \<in> tickets s. unat (db_sequence db0) < unat seq \<and> unat seq + length (call_ops c) \<le> unat (db_sequence (c_db s)) + 1) \<and>
     (\<forall>(i, seq, c) \<in> tickets s. \<forall>(j, seq', d) \<in> tickets s. i \<noteq> j \<longrightarrow> seq_range seq c \<inter> seq_range seq' d = {})"

lemma seq_inv_bounds:
  assumes "seq_inv db0 s" and "(i, seq, c) \<in> tickets s"
  shows "unat (db_sequence db0) < unat seq" and "unat seq + length (call_ops c) \<le> unat (db_sequence (c_db s)) + 1"
proof -
  have "\<forall>(i, seq, c) \<in> tickets s. unat (db_sequence db0) < unat seq \<and> unat seq + length (call_ops c) \<le> unat (db_sequence (c_db s)) + 1"
    using assms(1) unfolding seq_inv_def by (elim conjE)
  from bspec[OF this assms(2)] show "unat (db_sequence db0) < unat seq" "unat seq + length (call_ops c) \<le> unat (db_sequence (c_db s)) + 1"
    by simp_all
qed

lemma seq_inv_disjoint:
  assumes "seq_inv db0 s" and "(i, seq, c) \<in> tickets s" and "(j, seq', d) \<in> tickets s" and "i \<noteq> j"
  shows "seq_range seq c \<inter> seq_range seq' d = {}"
proof -
  have "\<forall>(i, seq, c) \<in> tickets s. \<forall>(j, seq', d) \<in> tickets s. i \<noteq> j \<longrightarrow> seq_range seq c \<inter> seq_range seq' d = {}"
    using assms(1) unfolding seq_inv_def by (elim conjE)
  from bspec[OF this assms(2)] show ?thesis using assms(3,4) by fastforce
qed

lemma sum_list_update_le:
  fixes f :: "'a \<Rightarrow> nat"
  assumes "i < length xs" and "f y + d \<le> f (xs ! i)"
  shows "sum_list (map f (xs[i := y])) + d \<le> sum_list (map f xs)"
proof -
  have "f (xs ! i) \<le> sum_list (map f xs)" using assms(1) by (intro member_le_sum_list) simp_all
  then show ?thesis using assms by (simp add: map_update sum_list_update)
qed

lemma ball_mono: "\<forall>t \<in> B. P t \<Longrightarrow> A \<subseteq> B \<Longrightarrow> \<forall>t \<in> A. P t"
  by blast

lemma ball_mono2:
  "\<forall>(i, seq, c) \<in> B. \<forall>(j, seq', d) \<in> B. P i seq c j seq' d \<Longrightarrow> A \<subseteq> B \<Longrightarrow> \<forall>(i, seq, c) \<in> A. \<forall>(j, seq', d) \<in> A. P i seq c j seq' d"
  by fastforce

lemma seq_inv_fewer:
  assumes "seq_inv db0 s" and "tickets s' \<subseteq> tickets s" and "db_sequence (c_db s') = db_sequence (c_db s)"
    and "sum_list (map idle_ops (c_pcs s')) \<le> sum_list (map idle_ops (c_pcs s))"
  shows "seq_inv db0 s'"
proof -
  have "unat (db_sequence (c_db s')) + sum_list (map idle_ops (c_pcs s')) < 2 ^ 64" "db_sequence db0 \<le> db_sequence (c_db s')"
    using assms(1,3,4) unfolding seq_inv_def by simp_all
  then show ?thesis
    using assms(1) unfolding seq_inv_def assms(3)
    by (elim conjE) (intro conjI; (assumption | erule ball_mono[OF _ assms(2)] | erule ball_mono2[OF _ assms(2)]))
qed

text \<open>Taking sequence numbers for a call, and every other step.\<close>

lemma seq_take:
  assumes inv: "seq_inv db0 s" and i: "i < length (c_pcs s)" and pc: "c_pcs s ! i = Idle (Write c)" "call_ops c \<noteq> []"
    and db: "db_sequence db = db_sequence (c_db s) + of_nat (length (call_ops c))"
  shows "seq_inv db0 \<lparr>c_db = db, c_pcs = (c_pcs s)[i := Log c (db_sequence (c_db s) + 1)], c_runs = c_runs s\<rparr>" (is "seq_inv db0 ?s")
proof -
  let ?n = "length (call_ops c)" and ?q = "db_sequence (c_db s)"
  have sum: "sum_list (map idle_ops (c_pcs ?s)) + ?n \<le> sum_list (map idle_ops (c_pcs s))"
    using sum_list_update_le[OF i, of idle_ops "Log c (?q + 1)" ?n] pc(1) by simp
  have n: "0 < ?n" using pc(2) by simp
  have room: "unat ?q + ?n < 2 ^ 64" using inv sum unfolding seq_inv_def by linarith
  then have q: "unat (?q + of_nat ?n) = unat ?q + ?n" "unat (?q + 1) = unat ?q + 1"
    using unat_Suc_u64[of ?q] n by (simp add: unat_word_ariths unat_of_nat, linarith)
  have t: "tickets ?s = insert (i, ?q + 1, c) (tickets s)"
    using i pc(1) by (auto simp: tickets_def nth_list_update simp del: set_concat split: if_splits)
  have seq: "db_sequence (c_db ?s) = ?q + of_nat ?n" using db by simp
  have new: "seq_range (?q + 1) c \<inter> seq_range seq d = {}" if "(j, seq, d) \<in> tickets s" for j seq d
    using that inv q(2) unfolding seq_inv_def by fastforce
  have "db_sequence db0 \<le> db_sequence (c_db ?s)" "unat (db_sequence (c_db ?s)) + sum_list (map idle_ops (c_pcs ?s)) < 2 ^ 64"
    using inv sum q(1) unfolding seq_inv_def seq by (auto simp: word_le_nat_alt)
  moreover have "\<forall>(i, seq, c) \<in> tickets ?s. unat (db_sequence db0) < unat seq \<and> unat seq + length (call_ops c) \<le> unat (db_sequence (c_db ?s)) + 1"
    using inv q unfolding seq_inv_def seq t by (fastforce simp: word_le_nat_alt)
  moreover have "\<forall>(i, seq, c) \<in> tickets ?s. \<forall>(j, seq', d) \<in> tickets ?s. i \<noteq> j \<longrightarrow> seq_range seq c \<inter> seq_range seq' d = {}"
    using inv new unfolding seq_inv_def t by fastforce
  ultimately show ?thesis unfolding seq_inv_def by blast
qed

lemma seq_other:
  assumes inv: "seq_inv db0 s" and i: "i < length (c_pcs s)" and "db_sequence db = db_sequence (c_db s)" and "idle_ops pc = 0"
    and hist: "set (concat hist) \<subseteq> tickets s" and pc: "\<And>c seq. pc = Log c seq \<or> pc = Enter c seq \<Longrightarrow> (i, seq, c) \<in> tickets s"
  shows "seq_inv db0 \<lparr>c_db = db, c_pcs = (c_pcs s)[i := pc], c_runs = hist\<rparr>" (is "seq_inv db0 ?s")
proof (rule seq_inv_fewer[OF inv])
  show "tickets ?s \<subseteq> tickets s"
  proof
    fix t
    assume "t \<in> tickets ?s"
    moreover obtain j seq c where t: "t = (j, seq, c)" by (cases t)
    ultimately show "t \<in> tickets s" using hist pc i by (cases "j = i") (auto simp: tickets_def simp del: set_concat)
  qed
  show "sum_list (map idle_ops (c_pcs ?s)) \<le> sum_list (map idle_ops (c_pcs s))"
    using sum_list_update_le[of i "c_pcs s" idle_ops pc 0] i assms(4) by simp
qed (simp add: assms(3))

lemma seq_step:
  assumes ctl: "control_inv rs s" and inv: "seq_inv db0 s" and flush: "Flush \<notin> set rs" and step: "thread_step x js sm i s = Some s'"
  shows "seq_inv db0 s'"
proof -
  obtain pc db where i: "i < length (c_pcs s)" and pc: "db_step x js sm (c_pcs s ! i) (c_db s) = Some (pc, db)"
    and s': "s' = \<lparr>c_db = db, c_pcs = (c_pcs s)[i := pc], c_runs = record_run i (c_pcs s ! i) (c_runs s)\<rparr>"
    by (rule thread_step_cases[OF step])
  let ?h = "c_runs s"
  note len = control_invD(1,2)[OF ctl] and oki = control_invD(3)[OF ctl i]
  have no: "rs ! i \<noteq> Flush" using flush i len(1) by (metis nth_mem)
  have old: "set (concat ?h) \<subseteq> tickets s" by (auto simp: tickets_def simp del: set_concat)
  note other = seq_other[OF inv i, of db pc "record_run i (c_pcs s ! i) ?h", folded s']
  from pc oki no show ?thesis
  proof (cases rule: write_step_cases)
    case (take c)
    then show ?thesis using seq_take[OF inv i take(1,2), of db] by (simp add: s')
  next
    case (enter c seq)
    then have "set (concat (record_run i (c_pcs s ! i) ?h)) = insert (i, seq, c) (set (concat ?h))"
      using concat_enter[OF len(2)] by (simp del: set_concat concat_append)
    then show ?thesis using enter old i by (intro other) (auto simp: tickets_def simp del: set_concat)
  next
    case (inserted c seq)
    then show ?thesis using old by (intro other) (cases c; auto simp del: set_concat)+
  next
    case freeze
    then show ?thesis using old by (intro other) (auto simp: freeze_memtable_def simp del: set_concat)
  next
    case silent
    then have "idle_ops pc = 0" "db_sequence db = db_sequence (c_db s)" by (cases pc; auto simp: cache_step_def)+
    then show ?thesis using silent old by (intro other) (auto simp del: set_concat)
  qed (use old i in \<open>auto intro!: other simp: same_data_def tickets_def simp del: set_concat\<close>)
qed

section \<open>Contents of the memtables\<close>

text \<open>What the memtables hold once all recorded calls are complete, from the first one on.\<close>

fun expected :: "entry set \<Rightarrow> (nat \<times> u64 \<times> call) list list \<Rightarrow> entry set list" where
  "expected base [] = []"
| "expected base (r # hist) = (base \<union> run_entries (set r)) # map (\<lambda>r. run_entries (set r)) hist"

lemma expected_snoc: "expected base (hist @ [r]) =
    (if hist = [] then [base \<union> run_entries (set r)] else expected base hist @ [run_entries (set r)])"
  by (cases hist) simp_all

lemma expected_Nil [simp]: "expected base hist = [] \<longleftrightarrow> hist = []"
  by (cases hist) simp_all

lemma expected_enter:
  assumes "hist \<noteq> []"
  shows "expected base (butlast hist @ [last hist @ [(i, seq, c)]]) =
    butlast (expected base hist) @ [last (expected base hist) \<union> seq_entries seq (call_ops c)]"
proof -
  obtain h r where "hist = h @ [r]" using assms by (metis rev_exhaust)
  then show ?thesis by (auto simp: expected_snoc)
qed

lemma last_expected: "hist \<noteq> [] \<Longrightarrow> last (expected base hist) \<subseteq> base \<union> run_entries (set (last hist))"
  by (cases hist rule: rev_cases) (auto simp: expected_snoc)

text \<open>What the threads that hold the lock have still to insert.\<close>

fun to_insert :: "'m pc \<Rightarrow> entry set" where
  "to_insert (Apply c ops seq) = seq_entries seq ops"
| "to_insert _ = {}"

definition in_flight :: "'m pc list \<Rightarrow> entry set" where
  "in_flight pcs = (\<Union>i < length pcs. to_insert (pcs ! i))"

lemma in_flight_update:
  assumes "i < length pcs"
  obtains others where "\<And>pc. in_flight (pcs[i := pc]) = to_insert pc \<union> others" and "in_flight pcs = to_insert (pcs ! i) \<union> others"
proof -
  have "in_flight (pcs[i := pc]) = to_insert pc \<union> (\<Union>j \<in> {..< length pcs} - {i}. to_insert (pcs ! j))" for pc
    using assms by (auto simp: in_flight_def nth_list_update split: if_splits)
  moreover from this[of "pcs ! i"] have "in_flight pcs = to_insert (pcs ! i) \<union> (\<Union>j \<in> {..< length pcs} - {i}. to_insert (pcs ! j))" by simp
  ultimately show ?thesis using that by blast
qed

definition mem_holds :: "'m SkipMap \<Rightarrow> 'm MemTable \<Rightarrow> entry set \<Rightarrow> bool" where
  "mem_holds sm mt es \<longleftrightarrow> sorted_entries (MemTable_iter sm mt) \<and> set (MemTable_iter sm mt) = es"

text \<open>The numbers that a thread has still to insert are not in the memtable.\<close>

definition fresh_for :: "'m SkipMap \<Rightarrow> 'm MemTable \<Rightarrow> 'm pc list \<Rightarrow> bool" where
  "fresh_for sm mt pcs \<longleftrightarrow> (\<forall>i c ops seq e. i < length pcs \<longrightarrow> pcs ! i = Apply c ops seq \<longrightarrow> e \<in> set (MemTable_iter sm mt) \<longrightarrow>
     unat (sequence (fst e)) \<notin> {unat seq ..< unat seq + length ops})"

definition data_inv :: "ext \<Rightarrow> 'm SkipMap \<Rightarrow> 'm DB \<Rightarrow> kv list list list \<Rightarrow> 'm threads \<Rightarrow> bool" where
  "data_inv x sm db0 tss s \<longleftrightarrow>
     (let db = c_db s; mt = db_memtable db; full = expected (set (MemTable_iter sm (db_memtable db0))) (c_runs s) in
      (\<exists>frozen. db_immutable db = db_immutable db0 @ frozen \<and> list_all2 (mem_holds sm) frozen (butlast full)) \<and>
      sorted_entries (MemTable_iter sm mt) \<and> set (MemTable_iter sm mt) \<union> in_flight (c_pcs s) = last full \<and>
      fresh_for sm mt (c_pcs s) \<and> tables_rep x (db_sstables db) (db_next_file_number db) (db_cache db) tss)"

lemma apply_range:
  assumes "control_inv rs s" and "seq_inv db0 s" and "i < length (c_pcs s)" and "c_pcs s ! i = Apply c ops seq"
  obtains b where "(i, b, c) \<in> tickets s" and "{unat seq ..< unat seq + length ops} \<subseteq> seq_range b c"
    and "ops \<noteq> [] \<Longrightarrow> unat seq + length ops \<le> 2 ^ 64"
proof -
  have "pc_ok (rs ! i) i (c_runs s) (c_pcs s ! i)" "c_runs s \<noteq> []"
    using control_invD[OF assms(1)] assms(3) by simp_all
  then obtain b k where k: "(i, b, c) \<in> set (last (c_runs s))" "k \<le> length (call_ops c)" "ops = drop k (call_ops c)" "seq = b + of_nat k"
    using assms(4) by auto
  then have t: "(i, b, c) \<in> tickets s" using last_in_set[OF \<open>c_runs s \<noteq> []\<close>] by (auto simp: tickets_def)
  then have b: "unat b + length (call_ops c) \<le> unat (db_sequence (c_db s)) + 1" by (rule seq_inv_bounds[OF assms(2)])
  have hi: "unat (db_sequence (c_db s)) + 1 \<le> 2 ^ 64" using unat_lt2p[of "db_sequence (c_db s)"] by simp
  have seq: "unat seq = unat b + k" if "ops \<noteq> []"
  proof -
    have "unat b + k < 2 ^ 64" using that b k(3) hi by simp
    then show ?thesis using k(4) by (simp add: unat_word_ariths unat_of_nat)
  qed
  show ?thesis
  proof (rule that[OF t])
    show "{unat seq ..< unat seq + length ops} \<subseteq> seq_range b c" using seq k(3) by (cases "ops = []") auto
    show "unat seq + length ops \<le> 2 ^ 64" if "ops \<noteq> []" using seq[OF that] k(3) b hi that by simp
  qed
qed

lemma cache_step_tables:
  assumes "cache_step x db db'" and "tables_rep x (db_sstables db) (db_next_file_number db) (db_cache db) tss"
  shows "tables_rep x (db_sstables db') (db_next_file_number db') (db_cache db') tss"
proof -
  obtain store where st: "list_all2 (list_all2 (table_is x store)) (db_sstables db) tss" "coherent store (db_cache db)"
    "\<forall>k \<in> dom store. file_id k < db_next_file_number db" using assms(2) by (auto simp: tables_rep_def)
  have "coherent store (snd (search_levels x key (db_sstables db) (db_cache db)))" for key
    using search_levels_rep[OF st(1,2), of key] by auto
  then have "tables_rep x (db_sstables db) (db_next_file_number db) (snd (search_levels x key (db_sstables db) (db_cache db))) tss" for key
    using assms(2) st(1,3) unfolding tables_rep_def by blast
  then show ?thesis using assms by (auto simp: cache_step_def)
qed

text \<open>A step of a thread that inserts nothing and changes no memtable.\<close>

lemma fresh_forD: "fresh_for sm mt pcs \<Longrightarrow> i < length pcs \<Longrightarrow> pcs ! i = Apply c ops seq \<Longrightarrow> e \<in> set (MemTable_iter sm mt) \<Longrightarrow>
    unat (sequence (fst e)) \<notin> {unat seq ..< unat seq + length ops}"
  unfolding fresh_for_def by blast

lemma fresh_for_update:
  assumes "fresh_for sm mt pcs" and "i < length pcs" and "\<not> holds_memtable pc"
  shows "fresh_for sm mt (pcs[i := pc])"
  unfolding fresh_for_def
proof (intro allI impI)
  fix j c ops seq e
  assume j: "j < length (pcs[i := pc])" "pcs[i := pc] ! j = Apply c ops seq" "e \<in> set (MemTable_iter sm mt)"
  then have "j \<noteq> i" using assms(2,3) by auto
  then show "unat (sequence (fst e)) \<notin> {unat seq ..< unat seq + length ops}" using j by (intro fresh_forD[OF assms(1)]) simp_all
qed

lemma to_insert_none [simp]: "\<not> holds_memtable pc \<Longrightarrow> to_insert pc = {}"
  by (cases pc) simp_all

lemma data_frame:
  assumes inv: "data_inv x sm db0 tss s" and i: "i < length (c_pcs s)"
    and pcs: "\<not> holds_memtable pc" "to_insert (c_pcs s ! i) = {}"
    and db: "db_memtable db = db_memtable (c_db s)" "db_immutable db = db_immutable (c_db s)"
      "tables_rep x (db_sstables db) (db_next_file_number db) (db_cache db) tss"
  shows "data_inv x sm db0 tss \<lparr>c_db = db, c_pcs = (c_pcs s)[i := pc], c_runs = c_runs s\<rparr>"
proof -
  obtain others where "\<And>pc. in_flight ((c_pcs s)[i := pc]) = to_insert pc \<union> others" "in_flight (c_pcs s) = to_insert (c_pcs s ! i) \<union> others"
    using in_flight_update[OF i] by blast
  then have "in_flight ((c_pcs s)[i := pc]) = in_flight (c_pcs s)" using pcs by simp
  moreover have "fresh_for sm (db_memtable (c_db s)) ((c_pcs s)[i := pc])"
    using inv i pcs(1) by (intro fresh_for_update) (simp_all add: data_inv_def Let_def)
  ultimately show ?thesis using inv db by (simp add: data_inv_def Let_def)
qed

lemma run_numbers:
  assumes ctl: "control_inv rs s" and seqs: "seq_inv db0 s" and base: "\<forall>e \<in> base. sequence (fst e) \<le> db_sequence db0"
    and e: "e \<in> last (expected base (c_runs s))"
  shows "unat (sequence (fst e)) \<le> unat (db_sequence db0) \<or>
    (\<exists>j seq c. (j, seq, c) \<in> set (concat (c_runs s)) \<and> unat (sequence (fst e)) \<in> seq_range seq c)"
proof -
  have "c_runs s \<noteq> []" using control_invD[OF ctl] by simp
  then consider "e \<in> base" | j seq c where "(j, seq, c) \<in> set (last (c_runs s))" "e \<in> seq_entries seq (call_ops c)"
    using last_expected[of "c_runs s" base] e by fastforce
  then show ?thesis
  proof cases
    case 1
    then show ?thesis using base by (simp add: word_le_nat_alt)
  next
    case (2 j seq c)
    then have t: "(j, seq, c) \<in> set (concat (c_runs s))" using last_in_set[OF \<open>c_runs s \<noteq> []\<close>] by auto
    then have "unat seq + length (call_ops c) \<le> 2 ^ 64"
      using seq_inv_bounds(2)[OF seqs, of j seq c] unat_lt2p[of "db_sequence (c_db s)"] by (simp add: tickets_def)
    then show ?thesis using seq_entries_range[OF 2(2)] t by blast
  qed
qed

text \<open>A call enters the memtable.\<close>

lemma data_enter:
  assumes ctl: "control_inv rs s" and seqs: "seq_inv db0 s" and inv: "data_inv x sm db0 tss s" and i: "i < length (c_pcs s)"
    and base: "\<forall>e \<in> set (MemTable_iter sm (db_memtable db0)). sequence (fst e) \<le> db_sequence db0" and pc: "c_pcs s ! i = Enter c seq"
  shows "data_inv x sm db0 tss \<lparr>c_db = c_db s, c_pcs = (c_pcs s)[i := Apply c (call_ops c) seq],
    c_runs = butlast (c_runs s) @ [last (c_runs s) @ [(i, seq, c)]]\<rparr>"
proof -
  let ?mt = "db_memtable (c_db s)" and ?full = "expected (set (MemTable_iter sm (db_memtable db0))) (c_runs s)"
  have ne: "c_runs s \<noteq> []" "i \<notin> fst ` set (concat (c_runs s))" using control_invD(2,3)[OF ctl] i pc by (simp_all del: set_concat) (metis pc_ok.simps(3) pc)
  have t: "(i, seq, c) \<in> tickets s" using i pc by (simp add: tickets_def)
  obtain others where o: "\<And>pc. in_flight ((c_pcs s)[i := pc]) = to_insert pc \<union> others" "in_flight (c_pcs s) = to_insert (c_pcs s ! i) \<union> others"
    using in_flight_update[OF i] by blast
  have sub: "set (MemTable_iter sm ?mt) \<subseteq> last ?full" using inv by (auto simp: data_inv_def Let_def)
  have new: "unat (sequence (fst e)) \<notin> seq_range seq c" if "e \<in> set (MemTable_iter sm ?mt)" for e
  proof -
    have "e \<in> last ?full" using sub that by blast
    then consider "unat (sequence (fst e)) \<le> unat (db_sequence db0)"
      | j seq' d where "(j, seq', d) \<in> set (concat (c_runs s))" "unat (sequence (fst e)) \<in> seq_range seq' d"
      using run_numbers[OF ctl seqs base] by blast
    then show ?thesis
    proof cases
      case 1
      then show ?thesis using seq_inv_bounds(1)[OF seqs t] by simp
    next
      case (2 j seq' d)
      then have "(j, seq', d) \<in> tickets s" "i \<noteq> j" using ne(2) by (force simp: tickets_def simp del: set_concat)+
      then show ?thesis using seq_inv_disjoint[OF seqs t] 2(2) by blast
    qed
  qed
  have "fresh_for sm ?mt ((c_pcs s)[i := Apply c (call_ops c) seq])"
    unfolding fresh_for_def
  proof (intro allI impI)
    fix j d ops q e
    assume j: "j < length ((c_pcs s)[i := Apply c (call_ops c) seq])" "(c_pcs s)[i := Apply c (call_ops c) seq] ! j = Apply d ops q"
      "e \<in> set (MemTable_iter sm ?mt)"
    have fr: "fresh_for sm ?mt (c_pcs s)" using inv by (simp add: data_inv_def Let_def)
    show "unat (sequence (fst e)) \<notin> {unat q ..< unat q + length ops}"
      using j new[OF j(3)] fresh_forD[OF fr, of j d ops q e] by (cases "j = i") auto
  qed
  moreover have "in_flight ((c_pcs s)[i := Apply c (call_ops c) seq]) = in_flight (c_pcs s) \<union> seq_entries seq (call_ops c)"
    using o pc by auto
  ultimately show ?thesis using inv by (simp add: data_inv_def Let_def expected_enter[OF ne(1)] Un_assoc[symmetric])
qed

text \<open>One of its entries is inserted.\<close>

lemma data_insert:
  assumes sm: "skip_map sm" and ctl: "control_inv rs s" and seqs: "seq_inv db0 s" and inv: "data_inv x sm db0 tss s"
    and i: "i < length (c_pcs s)" and pc: "c_pcs s ! i = Apply c (op # ops) seq"
  shows "data_inv x sm db0 tss \<lparr>c_db = (c_db s)\<lparr>db_memtable := MemTable_apply sm op seq (db_memtable (c_db s))\<rparr>,
    c_pcs = (c_pcs s)[i := Apply c ops (seq + 1)], c_runs = c_runs s\<rparr>"
proof -
  let ?mt = "db_memtable (c_db s)" and ?pcs = "(c_pcs s)[i := Apply c ops (seq + 1)]"
  let ?mt' = "MemTable_apply sm op seq ?mt"
  have fr: "fresh_for sm ?mt (c_pcs s)" and srt: "sorted_entries (MemTable_iter sm ?mt)" using inv by (simp_all add: data_inv_def Let_def)
  obtain b where b: "(i, b, c) \<in> tickets s" "{unat seq ..< unat seq + length (op # ops)} \<subseteq> seq_range b c"
    "unat seq + length (op # ops) \<le> 2 ^ 64" using apply_range[OF ctl seqs i pc] by blast
  have nin: "unat (sequence (fst e)) \<notin> {unat seq ..< unat seq + length (op # ops)}" if "e \<in> set (MemTable_iter sm ?mt)" for e
    by (rule fresh_forD[OF fr i pc that])
  have "sequence (fst e) \<noteq> seq" if "e \<in> set (MemTable_iter sm ?mt)" for e using nin[OF that] by auto
  then have set': "set (MemTable_iter sm ?mt') = insert (op_entry op seq) (set (MemTable_iter sm ?mt))"
    by (intro set_iter_apply_fresh[OF sm srt]) blast
  obtain others where o: "\<And>pc. in_flight ((c_pcs s)[i := pc]) = to_insert pc \<union> others" "in_flight (c_pcs s) = to_insert (c_pcs s ! i) \<union> others"
    using in_flight_update[OF i] by blast
  have all: "set (MemTable_iter sm ?mt') \<union> in_flight ?pcs = set (MemTable_iter sm ?mt) \<union> in_flight (c_pcs s)"
    unfolding set' o using pc by auto
  have "fresh_for sm ?mt' ?pcs"
    unfolding fresh_for_def
  proof (intro allI impI)
    fix j d ops' q e
    assume j: "j < length ?pcs" "?pcs ! j = Apply d ops' q" "e \<in> set (MemTable_iter sm ?mt')"
    show "unat (sequence (fst e)) \<notin> {unat q ..< unat q + length ops'}"
    proof (cases "j = i")
      case True
      then have q: "ops' = ops" "q = seq + 1" using j i by auto
      show ?thesis
      proof (cases "ops = []")
        case False
        then have "unat (seq + 1) = unat seq + 1" using b(3) by (intro unat_Suc_u64) (cases ops; simp)
        then show ?thesis using nin[of e] j(3) q unfolding set' by auto
      qed (simp add: q)
    next
      case False
      then have j': "j < length (c_pcs s)" "c_pcs s ! j = Apply d ops' q" using j by simp_all
      obtain b' where "(j, b', d) \<in> tickets s" "{unat q ..< unat q + length ops'} \<subseteq> seq_range b' d"
        using apply_range[OF ctl seqs j'] by blast
      then have "unat seq \<notin> {unat q ..< unat q + length ops'}"
        using seq_inv_disjoint[OF seqs b(1), of j b' d] False b(2) by fastforce
      then show ?thesis using j(3) fresh_forD[OF fr j', of e] unfolding set' by auto
    qed
  qed
  moreover have "sorted_entries (MemTable_iter sm ?mt')" by (rule skip_map.iter_apply_sorted[OF sm srt])
  ultimately show ?thesis using inv all by (simp add: data_inv_def Let_def)
qed

text \<open>The memtable is frozen.\<close>

lemma data_freeze:
  assumes sm: "skip_map sm" and ctl: "control_inv rs s" and inv: "data_inv x sm db0 tss s" and i: "i < length (c_pcs s)"
    and lock: "\<not> memtable_locked s" and pc: "\<not> holds_memtable pc"
  shows "data_inv x sm db0 tss \<lparr>c_db = snd (freeze_memtable sm (c_db s)), c_pcs = (c_pcs s)[i := pc], c_runs = c_runs s @ [[]]\<rparr>"
proof -
  let ?db = "c_db s" and ?base = "set (MemTable_iter sm (db_memtable db0))"
  have ne: "c_runs s \<noteq> []" using control_invD(2)[OF ctl] .
  have holds: "\<not> holds_memtable (c_pcs s ! j)" if "j < length (c_pcs s)" for j
    using lock that by (auto simp: memtable_locked_def list_ex_length)
  have none: "in_flight (c_pcs s) = {}" "in_flight ((c_pcs s)[i := pc]) = {}"
    using holds pc i by (auto simp: in_flight_def nth_list_update)
  obtain frozen where f: "db_immutable ?db = db_immutable db0 @ frozen" "list_all2 (mem_holds sm) frozen (butlast (expected ?base (c_runs s)))"
    "mem_holds sm (db_memtable ?db) (last (expected ?base (c_runs s)))"
    using inv none(1) by (auto simp: data_inv_def Let_def mem_holds_def)
  have "list_all2 (mem_holds sm) (frozen @ [db_memtable ?db]) (butlast (expected ?base (c_runs s)) @ [last (expected ?base (c_runs s))])"
    using f(2,3) by (intro list_all2_appendI) simp_all
  then have "list_all2 (mem_holds sm) (frozen @ [db_memtable ?db]) (expected ?base (c_runs s))" using ne by simp
  moreover have "fresh_for sm (MemTable_new sm (db_sequence ?db + 1)) ((c_pcs s)[i := pc])"
    by (simp add: fresh_for_def skip_map.iter_new_MemTable[OF sm])
  moreover have "tables_rep x (db_sstables ?db) (db_next_file_number ?db) (db_cache ?db) tss" using inv by (simp add: data_inv_def Let_def)
  ultimately show ?thesis
    using f(1) none(2) ne
    by (auto simp: data_inv_def Let_def freeze_memtable_def expected_snoc skip_map.iter_new_MemTable[OF sm] sorted_entries_def)
qed

lemma data_step:
  assumes sm: "skip_map sm" and ctl: "control_inv rs s" and seqs: "seq_inv db0 s" and inv: "data_inv x sm db0 tss s"
    and flush: "Flush \<notin> set rs" and step: "thread_step x js sm i s = Some s'"
    and base: "\<forall>e \<in> set (MemTable_iter sm (db_memtable db0)). sequence (fst e) \<le> db_sequence db0"
  shows "data_inv x sm db0 tss s'"
proof -
  obtain pc db where i: "i < length (c_pcs s)" and pc: "db_step x js sm (c_pcs s ! i) (c_db s) = Some (pc, db)"
    and lock: "wants_exclusive (c_pcs s ! i) \<longrightarrow> \<not> memtable_locked s"
    and s': "s' = \<lparr>c_db = db, c_pcs = (c_pcs s)[i := pc], c_runs = record_run i (c_pcs s ! i) (c_runs s)\<rparr>"
    by (rule thread_step_cases[OF step])
  note oki = control_invD(3)[OF ctl i]
  have "rs ! i \<noteq> Flush" using flush i control_invD(1)[OF ctl] by (metis nth_mem)
  have tabs: "tables_rep x (db_sstables (c_db s)) (db_next_file_number (c_db s)) (db_cache (c_db s)) tss"
    using inv by (simp add: data_inv_def Let_def)
  have frame: "data_inv x sm db0 tss s'" if "record_run i (c_pcs s ! i) (c_runs s) = c_runs s" "\<not> holds_memtable pc"
    "to_insert (c_pcs s ! i) = {}" "db_memtable db = db_memtable (c_db s)" "db_immutable db = db_immutable (c_db s)"
    "tables_rep x (db_sstables db) (db_next_file_number db) (db_cache db) tss"
    unfolding s' that(1) by (rule data_frame[OF inv i that(2-)])
  from pc oki \<open>rs ! i \<noteq> Flush\<close> show ?thesis
  proof (cases rule: write_step_cases)
    case (take c)
    then show ?thesis using tabs by (intro frame) simp_all
  next
    case (logged c seq)
    then show ?thesis using tabs by (intro frame) (simp_all add: same_data_def)
  next
    case (failed c seq q)
    then show ?thesis using tabs by (intro frame) (simp_all add: same_data_def)
  next
    case (enter c seq)
    then show ?thesis using data_enter[OF ctl seqs inv i base enter(1)] by (simp add: s')
  next
    case (insert c op ops seq)
    then show ?thesis using data_insert[OF sm ctl seqs inv i insert(1)] by (simp add: s')
  next
    case (inserted c seq)
    then show ?thesis using tabs by (intro frame) (cases c; simp)+
  next
    case freeze
    then show ?thesis using data_freeze[OF sm ctl inv i _, of pc] lock by (simp add: s')
  next
    case silent
    then show ?thesis using cache_step_tables[OF silent(5) tabs] by (intro frame) (auto simp: cache_step_def)
  qed
qed

end
