(* ===== verification/DB_Order.thy ===== *)
theory DB_Order
  imports DB_Linear
begin

text \<open>
  Concurrent write calls and reads are linearizable: whatever the schedule, the calls that succeeded
  appear in the store in one order, which respects the order in which calls that did not overlap were
  made. That order is not the order of the log: within a memtable it is the order of the sequence
  numbers, and the memtables come one after the other.
\<close>

section \<open>The order of the calls\<close>

text \<open>The recorded calls, in the order of the memtables and in each by sequence number.\<close>

definition linear :: "(nat \<times> u64 \<times> call) list list \<Rightarrow> (nat \<times> u64 \<times> call) list" where
  "linear hist = concat (map (sort_key (\<lambda>(i, seq, c). seq)) hist)"

lemma linear_simps [simp]: "linear [] = []" "linear (r # hist) = sort_key (\<lambda>(i, seq, c). seq) r @ linear hist"
  "linear (hist @ hist') = linear hist @ linear hist'"
  by (simp_all add: linear_def)

lemma set_linear [simp]: "set (linear hist) = set (concat hist)"
  by (simp add: linear_def)

lemma distinct_linear: "distinct (map fst (concat hist)) \<Longrightarrow> distinct (map fst (linear hist))"
proof -
  have "distinct (concat hist) \<Longrightarrow> distinct (linear hist)"
    unfolding linear_def by (induction hist) auto
  then show "distinct (map fst (concat hist)) \<Longrightarrow> distinct (map fst (linear hist))" unfolding distinct_map set_linear by blast
qed

text \<open>All three invariants together.\<close>

definition linear_inv :: "ext \<Rightarrow> 'm SkipMap \<Rightarrow> request list \<Rightarrow> 'm DB \<Rightarrow> kv list list list \<Rightarrow> 'm threads \<Rightarrow> bool" where
  "linear_inv x sm rs db0 tss s \<longleftrightarrow> control_inv rs s \<and> seq_inv db0 s \<and> data_inv x sm db0 tss s"

text \<open>What a schedule without flushes needs of the map and of the database at the start.\<close>

definition linear_context :: "'m SkipMap \<Rightarrow> request list \<Rightarrow> 'm DB \<Rightarrow> bool" where
  "linear_context sm rs db0 \<longleftrightarrow> skip_map sm \<and> Flush \<notin> set rs \<and>
     (\<forall>e \<in> set (MemTable_iter sm (db_memtable db0)). sequence (fst e) \<le> db_sequence db0)"

interpretation lin: thread_invariant x js sm "\<lambda>s. linear_context sm rs db0 \<and> linear_inv x sm rs db0 tss s" for x js sm rs db0 tss
  by unfold_locales (auto simp: linear_context_def linear_inv_def intro: control_step seq_step data_step)

lemma idle_ops_start: "sum_list (map (idle_ops \<circ> Idle) rs) = length (concat (map (\<lambda>r. case r of Write c \<Rightarrow> call_ops c | _ \<Rightarrow> []) rs))"
  by (induction rs) (auto split: request.split)

lemma idle_inserts_nothing [simp]: "in_flight (map Idle rs) = {}" "fresh_for sm mt (map Idle rs)"
  by (simp_all add: in_flight_def fresh_for_def)

lemma linear_start:
  assumes "skip_map sm" and "db_rep x sm db a"
    and "unat (db_sequence db) + length (concat (map (\<lambda>r. case r of Write c \<Rightarrow> call_ops c | _ \<Rightarrow> []) rs)) < 2 ^ 64"
  shows "linear_inv x sm rs db (l_tables a) (start db rs)"
proof -
  have "tickets (start db rs) = {}" by (auto simp: tickets_def start_def)
  then have "seq_inv db (start db rs)" using assms(3) by (simp add: seq_inv_def start_def idle_ops_start)
  moreover have "control_inv rs (start db rs)" by (auto simp: control_inv_def start_def)
  moreover have "data_inv x sm db (l_tables a) (start db rs)"
    using assms(2) by (simp add: data_inv_def start_def Let_def db_rep_def mem_rep_def)
  ultimately show ?thesis by (simp add: linear_inv_def)
qed

lemma recorded_call:
  assumes "control_inv rs s" and "(i, seq, c) \<in> set (concat (c_runs s))"
  shows "i < length rs" and "rs ! i = Write c" and "call_ops c \<noteq> []" and "(i, seq, c) \<in> tickets s"
proof -
  show i: "i < length rs" "rs ! i = Write c" using assms by (auto simp: control_inv_def simp del: set_concat)
  have ok: "pc_ok (rs ! i) i (c_runs s) (c_pcs s ! i)" using control_invD[OF assms(1)] i(1) by simp
  have rec: "i \<in> fst ` set (concat (c_runs s))" using assms(2) by (force simp del: set_concat)
  show "call_ops c \<noteq> []"
  proof (cases "c_pcs s ! i")
    case (Returned q)
    then show ?thesis using ok rec i(2) by (auto simp del: set_concat split: if_splits)
  qed (use ok rec i(2) in \<open>simp_all del: set_concat\<close>)
  show "(i, seq, c) \<in> tickets s" using assms(2) by (simp add: tickets_def)
qed

lemma linear_ascending:
  assumes ctl: "control_inv rs s" and seqs: "seq_inv db0 s" and r: "r \<in> set (c_runs s)"
  shows "ascending (sort_key (\<lambda>(i, seq, c). seq) r)" (is "ascending ?ts")
  unfolding sorted_wrt_iff_nth_less
proof (intro allI impI)
  fix m n
  assume mn: "m < n" "n < length ?ts"
  obtain i seq c j seq' d where t: "?ts ! m = (i, seq, c)" "?ts ! n = (j, seq', d)" by (metis prod_cases3)
  have in_r: "(i, seq, c) \<in> set r" "(j, seq', d) \<in> set r" using mn t nth_mem[of m ?ts] nth_mem[of n ?ts] by simp_all
  then have rec: "(i, seq, c) \<in> set (concat (c_runs s))" "(j, seq', d) \<in> set (concat (c_runs s))" using r by auto
  obtain xs ys where "c_runs s = xs @ r # ys" using split_list[OF r] by blast
  then have "distinct (map fst r)" using ctl by (simp add: control_inv_def)
  then have "distinct (map fst ?ts)" by (simp add: distinct_map)
  then have "map fst ?ts ! m \<noteq> map fst ?ts ! n" using mn by (subst nth_eq_iff_index_eq) simp_all
  then have "i \<noteq> j" using mn t by simp
  then have "seq_range seq c \<inter> seq_range seq' d = {}" using seq_inv_disjoint[OF seqs] recorded_call(4)[OF ctl] rec by blast
  moreover have "seq \<le> seq'" using sorted_nth_mono[OF sorted_sort_key[of "\<lambda>(i, seq, c). seq" r], of m n] mn t by simp
  ultimately have "unat seq + length (call_ops c) \<le> unat seq'"
    using recorded_call(3)[OF ctl rec(2)] by (fastforce simp: word_le_nat_alt)
  then show "(case ?ts ! m of (i, seq, c) \<Rightarrow> \<lambda>(j, seq', d). unat seq + length (call_ops c) \<le> unat seq') (?ts ! n)" by (simp add: t)
qed

lemma concat_map_linear:
  "concat (map f (linear hist)) = concat (map (\<lambda>r. concat (map f (sort_key (\<lambda>(i, seq, c). seq) r))) hist)"
  by (induction hist) simp_all

lemma run_rep:
  assumes sm: "skip_map sm" and ctl: "control_inv rs s" and seqs: "seq_inv db0 s" and r: "r \<in> set (c_runs s)"
    and rep: "mem_rep sm mt0 ops0 (db_sequence db0)" and mt: "mem_holds sm mt (set (MemTable_iter sm mt0) \<union> run_entries (set r))"
  shows "mem_rep sm mt (ops0 @ calls_ops (map (\<lambda>(i, seq, c). c) (sort_key (\<lambda>(i, seq, c). seq) r))) (db_sequence (c_db s))"
proof (rule mem_rep_run[OF sm rep linear_ascending[OF ctl seqs r]])
  show "\<forall>(i, seq, c) \<in> set (sort_key (\<lambda>(i, seq, c). seq) r). unat (db_sequence db0) < unat seq \<and>
      unat seq + length (call_ops c) \<le> unat (db_sequence (c_db s)) + 1"
  proof
    fix t
    assume "t \<in> set (sort_key (\<lambda>(i, seq, c). seq) r)"
    moreover obtain i seq c where t: "t = (i, seq, c)" by (cases t)
    ultimately have "(i, seq, c) \<in> tickets s" using recorded_call(4)[OF ctl] r by auto
    then show "case t of (i, seq, c) \<Rightarrow> unat (db_sequence db0) < unat seq \<and> unat seq + length (call_ops c) \<le> unat (db_sequence (c_db s)) + 1"
      using seq_inv_bounds[OF seqs] t by blast
  qed
  show "db_sequence db0 \<le> db_sequence (c_db s)" using seqs by (simp add: seq_inv_def)
qed (use mt in \<open>simp_all add: mem_holds_def\<close>)

lemma linear_rep:
  assumes sm: "skip_map sm" and rep: "db_rep x sm db0 a" and inv: "linear_inv x sm rs db0 (l_tables a) s"
    and none: "in_flight (c_pcs s) = {}"
  shows "\<exists>a'. lsm_extends (calls_ops (map (\<lambda>(i, seq, c). c) (linear (c_runs s)))) a a' \<and> db_rep x sm (c_db s) a'"
proof -
  let ?ops = "\<lambda>r. calls_ops (map (\<lambda>(i, seq, c). c) (sort_key (\<lambda>(i, seq, c). seq) r))" and ?q = "db_sequence (c_db s)"
  let ?base = "set (MemTable_iter sm (db_memtable db0))"
  have ctl: "control_inv rs s" and seqs: "seq_inv db0 s" and data: "data_inv x sm db0 (l_tables a) s"
    using inv by (simp_all add: linear_inv_def)
  obtain frozen where f: "db_immutable (c_db s) = db_immutable db0 @ frozen" "list_all2 (mem_holds sm) frozen (butlast (expected ?base (c_runs s)))"
    "mem_holds sm (db_memtable (c_db s)) (last (expected ?base (c_runs s)))"
    "tables_rep x (db_sstables (c_db s)) (db_next_file_number (c_db s)) (db_cache (c_db s)) (l_tables a)"
    using data none by (auto simp: data_inv_def Let_def mem_holds_def)
  obtain r hist where h: "c_runs s = r # hist" using control_invD(2)[OF ctl] by (cases "c_runs s") auto
  have q: "db_sequence db0 \<le> ?q" using seqs by (simp add: seq_inv_def)
  have rep0: "mem_rep sm (db_memtable db0) (l_mem a) (db_sequence db0)" using rep by (simp add: db_rep_def)
  have new: "mem_rep sm (MemTable_new sm 0) [] (db_sequence db0)" by (rule mem_rep_new[OF sm])
  have "list_all2 (mem_holds sm) (frozen @ [db_memtable (c_db s)]) (butlast (expected ?base (c_runs s)) @ [last (expected ?base (c_runs s))])"
    using f(2,3) by (intro list_all2_appendI) simp_all
  moreover have "expected ?base (c_runs s) \<noteq> []" by (simp add: h)
  ultimately have "list_all2 (mem_holds sm) (frozen @ [db_memtable (c_db s)]) (expected ?base (c_runs s))" by simp
  then obtain mt mts where mts: "frozen @ [db_memtable (c_db s)] = mt # mts" "mem_holds sm mt (?base \<union> run_entries (set r))"
    "list_all2 (mem_holds sm) mts (map (\<lambda>r. run_entries (set r)) hist)" by (auto simp: h list_all2_Cons2)
  define parts where "parts = (l_mem a @ ?ops r) # map ?ops hist"
  have "list_all2 (\<lambda>mt r. mem_rep sm mt (?ops r) ?q) mts hist"
    using mts(3) h run_rep[OF sm ctl seqs _ new] skip_map.iter_new_MemTable[OF sm]
    by (auto simp: list_all2_conv_all_nth)
  then have all: "list_all2 (\<lambda>mt ops. mem_rep sm mt ops ?q) (frozen @ [db_memtable (c_db s)]) parts"
    using run_rep[OF sm ctl seqs _ rep0 mts(2)] h unfolding mts(1) parts_def by (simp add: list.rel_map)
  define a' where "a' = a\<lparr>l_mem := last parts, l_imm := l_imm a @ butlast parts\<rparr>"
  have ne: "parts \<noteq> []" by (simp add: parts_def)
  obtain ps p where ps: "parts = ps @ [p]" using ne by (metis rev_exhaust)
  have "length frozen = length ps" using list_all2_lengthD[OF all] by (simp add: ps)
  then have both: "list_all2 (\<lambda>mt ops. mem_rep sm mt ops ?q) frozen (butlast parts)" "mem_rep sm (db_memtable (c_db s)) (last parts) ?q"
    using all by (simp_all add: ps list_all2_append)
  have old: "list_all2 (\<lambda>mt ops. mem_rep sm mt ops ?q) (db_immutable db0) (l_imm a)"
    using rep mem_rep_later[OF _ q] by (auto simp: db_rep_def elim!: list.rel_mono_strong)
  have "db_rep x sm (c_db s) a'" using both old f(1,4) by (simp add: db_rep_def a'_def list_all2_appendI)
  moreover have "lsm_extends (calls_ops (map (\<lambda>(i, seq, c). c) (linear (c_runs s)))) a a'"
  proof -
    have "concat parts = l_mem a @ calls_ops (map (\<lambda>(i, seq, c). c) (linear (c_runs s)))"
      by (simp add: parts_def concat_map_linear h)
    then show ?thesis using ne by (auto simp: lsm_extends_def a'_def intro!: exI[of _ parts])
  qed
  ultimately show ?thesis by blast
qed

text \<open>One element before another in a list.\<close>

definition precedes :: "'a \<Rightarrow> 'a \<Rightarrow> 'a list \<Rightarrow> bool" where
  "precedes a b xs \<longleftrightarrow> (\<exists>us vs ws. xs = us @ a # vs @ b # ws)"

lemma precedes_nth:
  assumes "m < n" and "n < length xs"
  shows "precedes (xs ! m) (xs ! n) xs"
proof -
  have "xs = take m xs @ xs ! m # take (n - m - 1) (drop (Suc m) xs) @ xs ! n # drop (Suc n) xs"
    using assms id_take_nth_drop[of m xs] id_take_nth_drop[of "n - m - 1" "drop (Suc m) xs"] by simp
  then show ?thesis unfolding precedes_def by blast
qed

lemma precedes_map: "precedes a b xs \<Longrightarrow> precedes (f a) (f b) (map f xs)"
  unfolding precedes_def by (metis list.simps(9) map_append)

lemma precedes_append:
  "precedes a b xs \<Longrightarrow> precedes a b (us @ xs @ ws)" "a \<in> set xs \<Longrightarrow> b \<in> set ys \<Longrightarrow> precedes a b (us @ xs @ vs @ ys @ ws)"
proof -
  show "precedes a b xs \<Longrightarrow> precedes a b (us @ xs @ ws)" unfolding precedes_def by (metis append.assoc append_Cons)
  assume "a \<in> set xs" "b \<in> set ys"
  then obtain p q p' q' where "xs = p @ a # q" "ys = p' @ b # q'" by (metis split_list)
  then have "us @ xs @ vs @ ys @ ws = (us @ p) @ a # (q @ vs @ p') @ b # (q' @ ws)" by simp
  then show "precedes a b (us @ xs @ vs @ ys @ ws)" unfolding precedes_def by blast
qed

lemma sort_precedes:
  assumes "t \<in> set r" and "t' \<in> set r" and "f t < f t'"
  shows "precedes t t' (sort_key f r)"
proof -
  obtain m n where mn: "m < length r" "n < length r" "sort_key f r ! m = t" "sort_key f r ! n = t'"
    using assms(1,2) by (metis in_set_conv_nth length_sort set_sort)
  have "m < n"
  proof (rule ccontr)
    assume "\<not> m < n"
    then have "f t' \<le> f t" using sorted_nth_mono[OF sorted_sort_key[of f r], of n m] mn by simp
    then show False using assms(3) by simp
  qed
  then show ?thesis using precedes_nth[of m n "sort_key f r"] mn by simp
qed

lemma linear_precedes:
  assumes "m \<le> n" and "n < length hist" and "(i, b, c) \<in> set (hist ! m)" and "(j, b', d) \<in> set (hist ! n)" and "b < b'"
  shows "precedes (i, b, c) (j, b', d) (linear hist)"
proof (cases "m = n")
  case True
  have "hist = take m hist @ hist ! m # drop (Suc m) hist" using assms(1,2) by (intro id_take_nth_drop) simp
  from arg_cong[OF this, of linear]
  have "linear hist = linear (take m hist) @ sort_key (\<lambda>(i, seq, c). seq) (hist ! m) @ linear (drop (Suc m) hist)" by simp
  moreover have "precedes (i, b, c) (j, b', d) (sort_key (\<lambda>(i, seq, c). seq) (hist ! m))"
    using assms True by (intro sort_precedes) simp_all
  ultimately show ?thesis using precedes_append(1) by metis
next
  case False
  then have "precedes (hist ! m) (hist ! n) hist" using assms(1,2) by (intro precedes_nth) simp_all
  then obtain us vs ws where "hist = us @ hist ! m # vs @ hist ! n # ws" unfolding precedes_def by blast
  from arg_cong[OF this, of linear]
  have "linear hist = linear us @ sort_key (\<lambda>(i, seq, c). seq) (hist ! m) @ linear vs @ sort_key (\<lambda>(i, seq, c). seq) (hist ! n) @ linear ws"
    by simp
  then show ?thesis using precedes_append(2)[of "(i, b, c)" _ "(j, b', d)"] assms(3,4) by simp
qed

section \<open>Calls that do not overlap\<close>

text \<open>A new number is above all numbers in use.\<close>

lemma tickets_step:
  assumes ctl: "control_inv rs s" and flush: "Flush \<notin> set rs" and step: "thread_step x js sm k s = Some s'" and t: "(j, b, d) \<in> tickets s'"
  shows "(j, b, d) \<in> tickets s \<or> (j = k \<and> c_pcs s ! j = Idle (Write d) \<and> b = db_sequence (c_db s) + 1 \<and>
    call_ops d \<noteq> [])"
proof -
  obtain pc db where k: "k < length (c_pcs s)" and pc: "db_step x js sm (c_pcs s ! k) (c_db s) = Some (pc, db)"
    and s': "s' = \<lparr>c_db = db, c_pcs = (c_pcs s)[k := pc], c_runs = record_run k (c_pcs s ! k) (c_runs s)\<rparr>"
    by (rule thread_step_cases[OF step])
  note ok = control_invD(3)[OF ctl k] and ne = control_invD(2)[OF ctl]
  have "rs ! k \<noteq> Flush" using flush k control_invD(1)[OF ctl] by (metis nth_mem)
  have recorded: "set (concat (record_run k (c_pcs s ! k) (c_runs s))) \<subseteq> tickets s"
  proof (cases "c_pcs s ! k")
    case (Enter c seq)
    then have "set (concat (record_run k (c_pcs s ! k) (c_runs s))) = insert (k, seq, c) (set (concat (c_runs s)))"
      using concat_enter[OF ne] by (simp del: set_concat concat_append)
    then show ?thesis using k Enter by (auto simp: tickets_def simp del: set_concat)
  qed (auto simp: tickets_def)
  have cases: "(j, b, d) \<in> tickets s \<or> j = k \<and> (pc = Log d b \<or> pc = Enter d b)"
    using t recorded k unfolding s' by (cases "j = k") (auto simp: tickets_def simp del: set_concat)
  from pc ok \<open>rs ! k \<noteq> Flush\<close> show ?thesis
  proof (cases rule: write_step_cases)
    case (logged c seq)
    then show ?thesis using cases k by (auto simp: tickets_def)
  next
    case (inserted c seq)
    then show ?thesis using cases by (cases c) auto
  qed (use cases in auto)
qed

text \<open>The call of thread \<open>i\<close> is recorded in run \<open>m\<close>, that of \<open>j\<close> gets a higher number and is not recorded before.\<close>

definition follows :: "nat \<Rightarrow> nat \<times> u64 \<times> call \<Rightarrow> nat \<Rightarrow> 'm threads \<Rightarrow> bool" where
  "follows m t j s \<longleftrightarrow> m < length (c_runs s) \<and> t \<in> set (c_runs s ! m) \<and> fst (snd t) \<le> db_sequence (c_db s) \<and>
     (\<forall>b d. (j, b, d) \<in> tickets s \<longrightarrow> fst (snd t) < b) \<and> (\<forall>n < length (c_runs s). j \<in> fst ` set (c_runs s ! n) \<longrightarrow> m \<le> n)"

lemma record_run_nth:
  assumes "hist \<noteq> []"
  shows "length hist \<le> length (record_run k pc hist)"
    and "n < length hist \<Longrightarrow> set (hist ! n) \<subseteq> set (record_run k pc hist ! n)"
    and "n < length (record_run k pc hist) \<Longrightarrow> j \<in> fst ` set (record_run k pc hist ! n) \<Longrightarrow>
      n < length hist \<and> j \<in> fst ` set (hist ! n) \<or> length hist \<le> Suc n"
proof -
  obtain h r where h: "hist = h @ [r]" using assms by (metis rev_exhaust)
  have "record_run k pc hist = hist \<or> record_run k pc hist = hist @ [[]] \<or> (\<exists>t. record_run k pc hist = h @ [r @ [t]])"
    by (cases pc) (simp_all add: h)
  then show "length hist \<le> length (record_run k pc hist)" "n < length hist \<Longrightarrow> set (hist ! n) \<subseteq> set (record_run k pc hist ! n)"
    "n < length (record_run k pc hist) \<Longrightarrow> j \<in> fst ` set (record_run k pc hist ! n) \<Longrightarrow>
      n < length hist \<and> j \<in> fst ` set (hist ! n) \<or> length hist \<le> Suc n"
    by (auto simp: h nth_append split: if_splits)
qed

lemma follows_step:
  assumes inv: "linear_inv x sm rs db0 tss s" and fol: "follows m t j s" and flush: "Flush \<notin> set rs" and step: "thread_step x js sm k s = Some s'"
  shows "follows m t j s'"
proof -
  have ctl: "control_inv rs s" and seqs: "seq_inv db0 s" using inv by (simp_all add: linear_inv_def)
  note ne = control_invD(2)[OF ctl]
  obtain pc db where k: "k < length (c_pcs s)" and pc: "db_step x js sm (c_pcs s ! k) (c_db s) = Some (pc, db)"
    and s': "s' = \<lparr>c_db = db, c_pcs = (c_pcs s)[k := pc], c_runs = record_run k (c_pcs s ! k) (c_runs s)\<rparr>"
    by (rule thread_step_cases[OF step])
  note rec = record_run_nth[OF ne, where k = k and pc = "c_pcs s ! k"]
  have "rs ! k \<noteq> Flush" using flush k control_invD(1)[OF ctl] by (metis nth_mem)
  have room: "unat (db_sequence (c_db s)) + n < 2 ^ 64" if "c_pcs s ! k = Idle (Write c)" "n = length (call_ops c)" for c n
  proof -
    have "idle_ops (c_pcs s ! k) \<le> sum_list (map idle_ops (c_pcs s))" using k by (intro member_le_sum_list) simp_all
    then have "n \<le> sum_list (map idle_ops (c_pcs s))" using that by simp
    then show ?thesis using seqs by (simp add: seq_inv_def)
  qed
  have le: "db_sequence (c_db s) \<le> db_sequence db"
    using pc control_invD(3)[OF ctl k] \<open>rs ! k \<noteq> Flush\<close>
  proof (cases rule: write_step_cases)
    case (take c)
    then show ?thesis using room[OF take(1) refl] by (simp add: word_le_nat_alt unat_word_ariths unat_of_nat)
  qed (auto simp: same_data_def cache_step_def freeze_memtable_def)
  have "fst (snd t) < b" if tk: "(j, b, d) \<in> tickets s'" for b d
  proof -
    consider "(j, b, d) \<in> tickets s" | "c_pcs s ! k = Idle (Write d)" "b = db_sequence (c_db s) + 1" "call_ops d \<noteq> []"
      using tickets_step[OF ctl flush step tk] by blast
    then show ?thesis
    proof cases
      case 2
      then have "unat b = unat (db_sequence (c_db s)) + 1" using room[OF 2(1) refl] by (intro unat_Suc_u64[of "db_sequence (c_db s)", folded 2(2)]) (cases "call_ops d"; simp)
      then show ?thesis using fol by (simp add: follows_def word_less_nat_alt word_le_nat_alt)
    qed (use fol in \<open>auto simp: follows_def\<close>)
  qed
  moreover have "m \<le> n" if "n < length (c_runs s')" "j \<in> fst ` set (c_runs s' ! n)" for n
    using rec(3)[of n j] that fol unfolding s' by (auto simp: follows_def)
  moreover have "t \<in> set (c_runs s' ! m)" "m < length (c_runs s')"
    using fol rec(1) rec(2)[of m] unfolding s' follows_def by auto
  ultimately show ?thesis using fol le by (auto simp: follows_def s')
qed

lemma in_concat_nth: "t \<in> set (concat hist) \<longleftrightarrow> (\<exists>n < length hist. t \<in> set (hist ! n))"
  by simp (metis in_set_conv_nth)

interpretation later: thread_invariant x js sm
  "\<lambda>s. (linear_context sm rs db0 \<and> linear_inv x sm rs db0 tss s) \<and> follows m (i, b, c) j s" for x js sm rs db0 tss m i b c j
proof
  fix k s s'
  assume step: "thread_step x js sm k s = Some s'"
    and inv: "(linear_context sm rs db0 \<and> linear_inv x sm rs db0 tss s) \<and> follows m (i, b, c) j s"
  then have "follows m (i, b, c) j s'" using follows_step by (auto simp: linear_context_def)
  then show "(linear_context sm rs db0 \<and> linear_inv x sm rs db0 tss s') \<and> follows m (i, b, c) j s'"
    using lin.step_keeps[OF step] inv by blast
qed

lemma run_precedes:
  assumes ctx: "linear_context sm rs db0"
    and inv: "linear_inv x sm rs db0 tss s" and i: "(i, b, c) \<in> set (concat (c_runs s))" and j: "j < length (c_pcs s)" "c_pcs s ! j = Idle r"
    and later: "(j, b', d) \<in> set (concat (c_runs (run x js sm sched s)))"
  shows "precedes (i, b, c) (j, b', d) (linear (c_runs (run x js sm sched s)))"
proof -
  have ctl: "control_inv rs s" and seqs: "seq_inv db0 s" using inv by (simp_all add: linear_inv_def)
  obtain m where m: "m < length (c_runs s)" "(i, b, c) \<in> set (c_runs s ! m)" using i unfolding in_concat_nth by blast
  have none: "j \<notin> fst ` set (concat (c_runs s))" using control_invD(3)[OF ctl j(1)] j(2) by (simp del: set_concat)
  then have "\<forall>n < length (c_runs s). j \<notin> fst ` set (c_runs s ! n)" by (auto dest: nth_mem)
  moreover have "(j, q, e) \<notin> tickets s" for q e using none j(2) by (force simp: tickets_def simp del: set_concat)
  moreover have "b \<le> db_sequence (c_db s)"
    using seq_inv_bounds(2)[OF seqs recorded_call(4)[OF ctl i]] recorded_call(3)[OF ctl i] by (cases "call_ops c") (simp_all add: word_le_nat_alt)
  ultimately have fol: "follows m (i, b, c) j s" using m by (simp add: follows_def)
  then have "follows m (i, b, c) j (run x js sm sched s)" using later.run_keeps ctx inv by blast
  moreover obtain n where n: "n < length (c_runs (run x js sm sched s))" "(j, b', d) \<in> set (c_runs (run x js sm sched s) ! n)"
    using later unfolding in_concat_nth by blast
  moreover have "(j, b', d) \<in> tickets (run x js sm sched s)" using later by (simp add: tickets_def)
  ultimately have "m \<le> n" "(i, b, c) \<in> set (c_runs (run x js sm sched s) ! m)" "b < b'"
    unfolding follows_def by (force, auto)
  then show ?thesis using n by (intro linear_precedes)
qed

section \<open>Linearizability\<close>

text \<open>A thread that is between two of its steps is not quiet.\<close>

fun quiet :: "'m pc \<Rightarrow> bool" where
  "quiet (Idle r) = True"
| "quiet (Returned r) = True"
| "quiet (Answered a) = True"
| "quiet _ = False"

lemma quiet_holds [simp]: "quiet pc \<Longrightarrow> \<not> holds_memtable pc"
  by (cases pc) simp_all

lemma quiet_inserts_nothing: "\<forall>pc \<in> set pcs. quiet pc \<Longrightarrow> in_flight pcs = {}"
  by (simp add: in_flight_def)

lemma recorded_iff:
  assumes "control_inv rs s" and "\<forall>pc \<in> set (c_pcs s). quiet pc"
  shows "(\<exists>b. (i, b, c) \<in> set (concat (c_runs s))) \<longleftrightarrow>
    i < length rs \<and> rs ! i = Write c \<and> call_ops c \<noteq> [] \<and> c_pcs s ! i = Returned (Ok ())"
proof
  assume "\<exists>b. (i, b, c) \<in> set (concat (c_runs s))"
  then obtain b where b: "(i, b, c) \<in> set (concat (c_runs s))" by blast
  note rec = recorded_call[OF assms(1) b]
  have ok: "pc_ok (rs ! i) i (c_runs s) (c_pcs s ! i)" "quiet (c_pcs s ! i)" using control_invD[OF assms(1)] rec(1) assms(2) by simp_all
  have "i \<in> fst ` set (concat (c_runs s))" using b by (force simp del: set_concat)
  then have "c_pcs s ! i = Returned (Ok ())" using ok by (cases "c_pcs s ! i") (auto simp del: set_concat split: if_splits)
  then show "i < length rs \<and> rs ! i = Write c \<and> call_ops c \<noteq> [] \<and> c_pcs s ! i = Returned (Ok ())" using rec by simp
next
  assume i: "i < length rs \<and> rs ! i = Write c \<and> call_ops c \<noteq> [] \<and> c_pcs s ! i = Returned (Ok ())"
  then have "pc_ok (rs ! i) i (c_runs s) (c_pcs s ! i)" using control_invD(1,3)[OF assms(1)] by metis
  then show "\<exists>b. (i, b, c) \<in> set (concat (c_runs s))" using i by (auto simp del: set_concat split: if_splits)
qed



end
