(* ===== verification/DB_Sessions.thy ===== *)
theory DB_Sessions
  imports DB_Properties
begin

text \<open>
  Several sessions on one directory: a session opens the database, writes, and drops it. The first
  part is about the order in which reopening ranks the tables of level 0, the second about
  file numbers, which every session counts from 2.
\<close>

section \<open>Which table wins\<close>

text \<open>Tables with new numbers come behind the others.\<close>

lemma put_tables_fresh:
  assumes "\<forall>t \<in> set tabs. unat (fst t) < unat num" and "unat num + length ess < 2 ^ 64"
  shows "map snd (put_tables num ess tabs) = map snd tabs @ ess \<and>
    map fst (put_tables num ess tabs) = map fst tabs @ map (\<lambda>i. num + of_nat i) [0..<length ess]"
  using assms
proof (induction ess arbitrary: num tabs)
  case (Cons es ess)
  have put: "put_table num es tabs = tabs @ [(num, es)]"
    using Cons.prems(1) by (auto simp: put_table_def filter_id_conv)
  have num: "unat (num + 1) = unat num + 1" using Cons.prems(2) unat_Suc_u64[of num] by simp
  have "\<forall>t \<in> set (tabs @ [(num, es)]). unat (fst t) < unat (num + 1)"
    using Cons.prems(1) num by (auto intro: less_SucI)
  moreover have "map (\<lambda>i. num + of_nat i) [0..<Suc (length ess)] = num # map (\<lambda>i. num + 1 + of_nat i) [0..<length ess]"
    by (simp add: upt_conv_Cons map_Suc_upt[symmetric] o_def add_ac del: upt_Suc)
  ultimately show ?case
    using Cons.IH[of "tabs @ [(num, es)]" "num + 1"] Cons.prems(2) num put by (simp del: upt_Suc)
qed simp

lemma fresh_in_order:
  assumes "sorted_wrt (<) (map fst tabs)" and "\<forall>t \<in> set tabs. unat (fst t) < unat num" and "unat num + length ess \<le> 10 ^ 6"
  shows "named_in_order d (put_tables num ess tabs)" and "distinct (map fst (put_tables num ess tabs))"
proof -
  let ?nums = "map (\<lambda>i. num + of_nat i) [0..<length ess]"
  have fsts: "map fst (put_tables num ess tabs) = map fst tabs @ ?nums" using put_tables_fresh[OF assms(2), of ess] assms(3) by simp
  have at: "unat (num + of_nat i) = unat num + i" if "i < length ess" for i
    using that assms(3) by (simp add: unat_word_ariths unat_of_nat)
  have "sorted_wrt (<) ?nums"
    using at by (auto simp: sorted_wrt_iff_nth_less word_less_nat_alt)
  moreover have "\<forall>m \<in> set (map fst tabs). \<forall>n \<in> set ?nums. m < n"
    using assms(2) at by (fastforce simp: word_less_nat_alt)
  ultimately have sorted: "sorted_wrt (<) (map fst (put_tables num ess tabs))"
    using assms(1) by (simp add: fsts sorted_wrt_append)
  have "\<forall>n \<in> set (map fst (put_tables num ess tabs)). unat n < 10 ^ 6"
    using assms(2,3) at unfolding fsts by fastforce
  then show "named_in_order d (put_tables num ess tabs)" by (intro ascending_named[OF sorted]) simp
  show "distinct (map fst (put_tables num ess tabs))" using sorted by (simp add: strict_sorted_iff)
qed


section \<open>File numbers\<close>

text \<open>
  C13. A second session destroys the data of the first. The file numbers of a new session start at 2 again,
  so its flush replaces the table that the first session has written: after opening a third time, only the
  writes of the second session are left, although the second session could read those of the first.
\<close>

theorem DB_session_overwrites:
  assumes "skip_map sm" and "Options_validate opts = Ok ()" and "\<not> error_if_exists opts" and "block_cache_size opts < 2 ^ 63"
    and "compression opts = Snappy \<longrightarrow> snappy_law x"
    and "fs_sound fs" and "fs_dir fs" and "fs_files fs = []" and "fst (DB_open x js sm path opts fs) = Ok db0"
    and "DB_calls x sm cs1 db0 = (Ok (), db1)" and "length (calls_ops cs1) < 2 ^ 64"
    and "db_immutable db1 = []" and "flushable (calls_ops cs1)" and "calls_ops cs1 \<noteq> []"
    and "fst (DB_open x js sm path opts (DB_drop x js sm db1)) = Ok db2"
    and "DB_calls x sm cs2 db2 = (Ok (), db3)" and "length (calls_ops cs2) < 2 ^ 64"
    and "db_immutable db3 = []" and "flushable (calls_ops cs2)" and "calls_ops cs2 \<noteq> []"
  shows "(\<forall>key. fst (DB_get x sm key db2) = Ok (visible (calls_ops cs1) key)) \<and>
    (\<exists>db4. fst (DB_open x js sm path opts (DB_drop x js sm db3)) = Ok db4 \<and>
       (\<forall>key. fst (DB_get x sm key db4) = Ok (visible (calls_ops cs2) key)))"
proof -
  have db: "db0 = opened_db sm path opts [] [] fs"
    using DB_open_empty[OF assms(2,3,7) _ assms(8), of x js sm path] assms(6,9) by (simp add: fs_sound_def)
  have "0 < max_levels opts" using assms(2) by (simp add: Options_validate_Ok_iff)
  then have "dir_db x db0 [] 0" "opened_with sm path opts 1 [] db0"
    using opened_db_dir[OF assms(6,7)] opened_db_with[of sm path opts fs] by (simp_all add: db)
  from session_reopen[OF assms(1-5) this _ _ _ assms(10-14), of js]
  have two: "dir_db x db2 [(2, flush_entries (calls_ops cs1))] 1" "opened_with sm path opts 2 [] db2"
    "\<forall>key. fst (DB_get x sm key db2) = Ok (visible (calls_ops cs1) key)" using assms(15) by auto
  from session_reopen[OF assms(1-5) this(1,2) _ _ _ assms(16-20), of js] two(3) show ?thesis by auto
qed

text \<open>A session of one small \<^verbatim>\<open>put\<close> without a log.\<close>

lemma sample_session:
  assumes "opened_with sorted_list_map d sample_opts w [] db"
  obtains db1 where "DB_calls sample_ext sorted_list_map [Put_call [k] [v]] db = (Ok (), db1)" "db_immutable db1 = []"
    "DB_put sample_ext sorted_list_map [k] [v] db = (Ok (), db1)"
proof -
  obtain db1 where "DB_put sample_ext sorted_list_map [k] [v] db = (Ok (), db1)" "db_immutable db1 = db_immutable db"
    using assms by (simp add: opened_with_def DB_put_def log_ops_def Let_def freeze_if_full_def MemTable_approximate_size_def
        MemTable_put_def MemTable_new_def)
  then show ?thesis using that assms by (simp add: opened_with_def)
qed

theorem DB_session_overwrites_witness:
  "\<exists>db1 db2 db3 db4.
     DB_put sample_ext sorted_list_map [1] [2] (sample_db sample_opts) = (Ok (), db1) \<and>
     fst (DB_open sample_ext const_json sorted_list_map ''db'' sample_opts (DB_drop sample_ext const_json sorted_list_map db1)) = Ok db2 \<and>
     fst (DB_get sample_ext sorted_list_map [1] db2) = Ok (Some [2]) \<and>
     DB_put sample_ext sorted_list_map [3] [4] db2 = (Ok (), db3) \<and>
     fst (DB_open sample_ext const_json sorted_list_map ''db'' sample_opts (DB_drop sample_ext const_json sorted_list_map db3)) = Ok db4 \<and>
     fst (DB_get sample_ext sorted_list_map [1] db4) = Ok None \<and> fst (DB_get sample_ext sorted_list_map [3] db4) = Ok (Some [4])"
proof -
  let ?sm = sorted_list_map and ?cs1 = "[Put_call [1] [2]]" and ?cs2 = "[Put_call [3] [4]]"
  let ?open = "\<lambda>fs. fst (DB_open sample_ext const_json ?sm ''db'' sample_opts fs)"
  have fl: "flushable (calls_ops ?cs1)" "flushable (calls_ops ?cs2)" by (simp_all add: flushable_def kv_size_def)
  have snap: "compression sample_opts = Snappy \<longrightarrow> snappy_law sample_ext" by simp
  have fs: "fs_sound empty_fs" "fs_dir empty_fs" "fs_files empty_fs = []" by (simp_all add: empty_fs_def fs_sound_def)
  have db0: "?open empty_fs = Ok (sample_db sample_opts)"
    by (rule DB_open_empty) (use fs in \<open>simp_all add: fs_sound_def\<close>)
  note start = opened_db_dir[OF fs(1,2), of sample_opts sample_ext ?sm "''db''"] opened_db_with[of ?sm "''db''" sample_opts empty_fs]
  obtain db1 where db1: "DB_calls sample_ext ?sm ?cs1 (sample_db sample_opts) = (Ok (), db1)" "db_immutable db1 = []"
    "DB_put sample_ext ?sm [1] [2] (sample_db sample_opts) = (Ok (), db1)" by (rule sample_session[OF start(2)])
  obtain db2 where db2: "?open (DB_drop sample_ext const_json ?sm db1) = Ok db2" "opened_with ?sm ''db'' sample_opts 2 [] db2"
    using session_reopen[OF sl.skip_map_axioms sample_opts_ok(1-3) snap start _ _ _ db1(1) _ db1(2) fl(1), of const_json] by auto
  obtain db3 where db3: "DB_calls sample_ext ?sm ?cs2 db2 = (Ok (), db3)" "db_immutable db3 = []"
    "DB_put sample_ext ?sm [3] [4] db2 = (Ok (), db3)" by (rule sample_session[OF db2(2)])
  have "(\<forall>key. fst (DB_get sample_ext ?sm key db2) = Ok (visible (calls_ops ?cs1) key)) \<and>
      (\<exists>db4. ?open (DB_drop sample_ext const_json ?sm db3) = Ok db4 \<and>
        (\<forall>key. fst (DB_get sample_ext ?sm key db4) = Ok (visible (calls_ops ?cs2) key)))"
    by (rule DB_session_overwrites[OF sl.skip_map_axioms sample_opts_ok(1-3) snap fs db0 db1(1) _ db1(2) fl(1) _ db2(1) db3(1) _ db3(2) fl(2)])
      simp_all
  then obtain db4 where "?open (DB_drop sample_ext const_json ?sm db3) = Ok db4"
    "\<forall>key. fst (DB_get sample_ext ?sm key db4) = Ok (visible (calls_ops ?cs2) key)"
    "\<forall>key. fst (DB_get sample_ext ?sm key db2) = Ok (visible (calls_ops ?cs1) key)" by blast
  then show ?thesis using db1(3) db2(1) db3(3)
    by (intro exI[of _ db1] exI[of _ db2] exI[of _ db3] exI[of _ db4]) (simp add: visible_def)
qed


end
