(* ===== verification/DB_Races.thy ===== *)
theory DB_Races
  imports DB_Order DB_Sessions
begin

text \<open>
  What the interleaving of the threads of \<^verbatim>\<open>lib.rs\<close> does not keep: reads during a flush, reads at the number
  of a snapshot, the log of a write that meets a flush, and the order of the log against the order of the
  sequence numbers. Each theorem gives a schedule for every database of the described kind.
\<close>

section \<open>Reading a run\<close>

text \<open>Steps of one thread alone, from a state with no insertion of another under way.\<close>

lemma run_alone:
  assumes "solo x js sm (pcs ! i, db) q" and "i < length pcs" and "\<forall>j < length pcs. j \<noteq> i \<longrightarrow> \<not> holds_memtable (pcs ! j)"
  obtains n hist' where "run x js sm (replicate n i) \<lparr>c_db = db, c_pcs = pcs, c_runs = hist\<rparr> =
    \<lparr>c_db = snd q, c_pcs = pcs[i := fst q], c_runs = hist'\<rparr>"
  using run_solo[of x js sm "\<lparr>c_db = db, c_pcs = pcs, c_runs = hist\<rparr>" i q] assms by auto

text \<open>A write call after it has taken its sequence numbers.\<close>

lemma solo_logged:
  "solo x js sm (Log c (db_sequence db + 1), db\<lparr>db_sequence := db_sequence db + of_nat (length (call_ops c))\<rparr>)
     (Returned (fst (DB_call x sm c db)), snd (DB_call x sm c db))" if "call_ops c \<noteq> []"
  using that solo_log[of x js sm c "db_sequence db + 1" "db\<lparr>db_sequence := db_sequence db + of_nat (length (call_ops c))\<rparr>"]
  unfolding or_return_unit by (simp add: DB_call_split[of x sm c db])

section \<open>A read during a flush\<close>

lemma start_flush:
  assumes "\<not> MemTable_is_empty sm (db_memtable db)" and "db_immutable db = []" and "\<forall>pc \<in> set pcs. \<not> holds_memtable pc"
  shows "run x js sm [0, 0, 0] \<lparr>c_db = db, c_pcs = Idle Flush # pcs, c_runs = hist\<rparr> =
    \<lparr>c_db = db\<lparr>db_memtable := MemTable_new sm (db_sequence db + 1), db_immutable := []\<rparr>,
     c_pcs = Flush_build (db_memtable db) # pcs, c_runs = hist @ [[]]\<rparr>"
  using assms by (simp add: thread_step_def memtable_locked_def list_ex_iff freeze_memtable_def)

text \<open>
  C18. While a flush writes the memtable to a table, its contents are invisible: the memtable has been
  removed from the frozen list, and the table is not in its level yet. A key that \<^verbatim>\<open>get\<close> finds in the memtable
  before the flush, and in no table, is missing for a \<^verbatim>\<open>get\<close> that runs between these two steps.
\<close>

theorem Threads_flush_hides:
  assumes "skip_map sm" and "db_rep x sm db a" and "l_imm a = []" and "mem_lookup (l_mem a) key = Some v"
    and "\<forall>ts \<in> set (l_tables a). \<forall>es \<in> set ts. sst_lookup es key = None"
  shows "fst (DB_get x sm key db) = Ok (Some v) \<and>
    (\<exists>n. c_pcs (run x js sm ([0, 0, 0] @ replicate n 1) (start db [Flush, Get key])) ! 1 = Answered (Ok None))"
proof
  let ?db = "db\<lparr>db_memtable := MemTable_new sm (db_sequence db + 1), db_immutable := []\<rparr>"
  have none: "first_some (map (\<lambda>es. sst_lookup es key) (concat (map rev (l_tables a)))) = None"
  proof (cases "first_some (map (\<lambda>es. sst_lookup es key) (concat (map rev (l_tables a))))")
    case (Some w)
    from first_some_Some[OF this] show ?thesis using assms(5) by auto
  qed
  have mt: "mem_rep sm (db_memtable db) (l_mem a) (db_sequence db)" "db_immutable db = []"
    using assms(2,3) by (simp_all add: db_rep_def)
  show "fst (DB_get x sm key db) = Ok (Some v)"
    using DB_get_rep[OF assms(1,2)] assms(4) by (simp add: lsm_get_def)
  have "l_mem a \<noteq> []" using assms(4) by (auto simp: mem_lookup_def)
  then have s: "run x js sm [0, 0, 0] (start db [Flush, Get key]) =
      \<lparr>c_db = ?db, c_pcs = [Flush_build (db_memtable db), Idle (Get key)], c_runs = [[], []]\<rparr>" (is "_ = ?s")
    using start_flush[of sm db "[Idle (Get key)]"] is_empty_rep[OF assms(1) mt(1)] mt(2) by (simp add: start_def)
  have "db_rep x sm ?db (a\<lparr>l_mem := []\<rparr>)"
    using assms(2,3) mem_rep_new[OF assms(1)] by (simp add: db_rep_def)
  from DB_get_rep[OF assms(1) this] have "fst (DB_get x sm key ?db) = Ok None"
    using assms(3) none by (simp add: lsm_get_def mem_lookup_def)
  moreover obtain n hist where "run x js sm (replicate n 1) ?s =
      \<lparr>c_db = snd (atomic x js sm (Get key) ?db), c_pcs = [Flush_build (db_memtable db), Idle (Get key)][1 := fst (atomic x js sm (Get key) ?db)],
       c_runs = hist\<rparr>" by (rule run_alone[of x js sm "[Flush_build (db_memtable db), Idle (Get key)]" 1 ?db])
      (use solo_atomic[of x js sm "Get key" ?db] in \<open>simp_all del: atomic.simps add: less_Suc_eq\<close>)
  ultimately show "\<exists>n. c_pcs (run x js sm ([0, 0, 0] @ replicate n 1) (start db [Flush, Get key])) ! 1 = Answered (Ok None)"
    unfolding run_append s by (intro exI[of _ n]) simp
qed

section \<open>A snapshot during a write\<close>

lemma lsm_get_put: "lsm_written [Put key v] a a' \<Longrightarrow> lsm_get a' key = Some v"
  by (auto simp: lsm_written_def lsm_append_def lsm_freeze_def lsm_get_def mem_lookup_def)

text \<open>
  C19. A snapshot is not a fixed view while a write is under way: taken after a \<^verbatim>\<open>put\<close> has taken its sequence
  number and before its insertion into the memtable, it reads the old value of the key first and the new
  one after the \<^verbatim>\<open>put\<close> has returned.
\<close>

theorem Threads_snapshot_race:
  fixes key v :: bytes
  assumes sm: "skip_map sm" and rep: "db_rep x sm db a" and room: "unat (db_sequence db) + 1 < 2 ^ 64" and live: "log_live db"
  defines "rs \<equiv> [Write (Put_call key v), Read_at (db_sequence db + 1) key, Read_at (db_sequence db + 1) key]"
  shows "sn_sequence (DB_snapshot (c_db (run x js sm [0] (start db rs)))) = db_sequence db + 1 \<and>
    (\<exists>n1 n2 n3. c_pcs (run x js sm ([0] @ replicate n1 1 @ replicate n2 0 @ replicate n3 2) (start db rs)) =
       [Returned (Ok ()), Answered (Ok (lsm_get a key)), Answered (Ok (Some v))])"
proof -
  let ?c = "Put_call key v" and ?seq = "db_sequence db + 1" and ?db = "db\<lparr>db_sequence := db_sequence db + 1\<rparr>"
  let ?read = "Idle (Read_at ?seq key)" and ?old = "Answered (Ok (lsm_get a key))"
  have s: "run x js sm [0] (start db rs) = \<lparr>c_db = ?db, c_pcs = [Log ?c ?seq, ?read, ?read], c_runs = [[]]\<rparr>"
    by (simp add: rs_def start_def thread_step_def)
  have le: "db_sequence db \<le> ?seq" using unat_Suc_u64[OF room] by (simp add: word_le_nat_alt)
  obtain cache where cache: "DB_get_at_sequence x sm key ?seq ?db = (Ok (lsm_get a key), ?db\<lparr>db_cache := cache\<rparr>)"
    "db_rep x sm (?db\<lparr>db_cache := cache\<rparr>) a"
    using get_at_sequence_rep[OF sm db_rep_sequence[OF rep le]] by auto
  let ?db1 = "db\<lparr>db_cache := cache\<rparr>"
  have rep1: "db_rep x sm ?db1 a" "log_live ?db1" using cache(2) rep live by (simp_all add: db_rep_def)
  obtain n1 hist1 where n1: "run x js sm (replicate n1 1) \<lparr>c_db = ?db, c_pcs = [Log ?c ?seq, ?read, ?read], c_runs = [[]]\<rparr> =
      \<lparr>c_db = ?db\<lparr>db_cache := cache\<rparr>, c_pcs = [Log ?c ?seq, ?old, ?read], c_runs = hist1\<rparr>"
    by (rule run_alone[of x js sm "[Log ?c ?seq, ?read, ?read]" 1 ?db "(?old, ?db\<lparr>db_cache := cache\<rparr>)"])
      (use solo_atomic[of x js sm "Read_at ?seq key" ?db] cache(1) in \<open>auto simp: less_Suc_eq\<close>)
  obtain db2 where db2: "DB_call x sm ?c ?db1 = (Ok (), db2)"
    using DB_call_live[OF rep1(2), of x sm ?c] by (metis prod.collapse)
  obtain a2 where a2: "lsm_written [Put key v] a a2" "db_rep x sm db2 a2"
    using DB_call_rep[OF sm rep1(1) _ db2] room by auto
  have seq2: "db_sequence db2 = ?seq" using DB_call_fields(1)[OF db2] by simp
  have swap: "?db1\<lparr>db_sequence := ?seq\<rparr> = ?db\<lparr>db_cache := cache\<rparr>" by simp
  obtain n2 hist2 where n2: "run x js sm (replicate n2 0) \<lparr>c_db = ?db\<lparr>db_cache := cache\<rparr>, c_pcs = [Log ?c ?seq, ?old, ?read], c_runs = hist1\<rparr> =
      \<lparr>c_db = db2, c_pcs = [Returned (Ok ()), ?old, ?read], c_runs = hist2\<rparr>"
    by (rule run_alone[of x js sm "[Log ?c ?seq, ?old, ?read]" 0 "?db\<lparr>db_cache := cache\<rparr>" "(Returned (Ok ()), db2)"])
      (use solo_logged[of ?c x js sm ?db1] db2 swap in \<open>auto simp: less_Suc_eq\<close>)
  obtain db3 where db3: "DB_get_at_sequence x sm key ?seq db2 = (Ok (Some v), db3)"
    using get_at_sequence_rep[OF sm a2(2), of ?seq key] lsm_get_put[OF a2(1)] seq2 by auto
  obtain n3 hist3 where n3: "run x js sm (replicate n3 2) \<lparr>c_db = db2, c_pcs = [Returned (Ok ()), ?old, ?read], c_runs = hist2\<rparr> =
      \<lparr>c_db = db3, c_pcs = [Returned (Ok ()), ?old, Answered (Ok (Some v))], c_runs = hist3\<rparr>"
    by (rule run_alone[of x js sm "[Returned (Ok ()), ?old, ?read]" 2 db2 "(Answered (Ok (Some v)), db3)"])
      (use solo_atomic[of x js sm "Read_at ?seq key" db2] db3 in \<open>auto simp: less_Suc_eq\<close>)
  have "c_pcs (run x js sm ([0] @ replicate n1 1 @ replicate n2 0 @ replicate n3 2) (start db rs)) =
      [Returned (Ok ()), ?old, Answered (Ok (Some v))]" unfolding run_append s n1 n2 n3 by simp
  then show ?thesis unfolding s by (auto simp: DB_snapshot_def)
qed

section \<open>A write during a flush\<close>

text \<open>Reading a value that one of the memtables has.\<close>

lemma get_from_mems:
  assumes "skip_map sm" and "mems_rep sm db a"
    and "first_some (mem_lookup (l_mem a) key # map (\<lambda>ops. mem_lookup ops key) (rev (l_imm a))) = Some v"
  shows "fst (DB_get x sm key db) = Ok (Some v)"
proof -
  have "MemTable_get sm (db_memtable db) key (db_sequence db) = mem_lookup (l_mem a) key"
    using mem_rep_get[OF assms(1) _ order_refl] assms(2) by (simp add: mems_rep_def)
  moreover have "search_memtables sm key (db_sequence db) (rev (db_immutable db)) = first_some (map (\<lambda>ops. mem_lookup ops key) (rev (l_imm a)))"
    using search_memtables_rep[OF assms(1) _ order_refl, of "db_sequence db" "rev (db_immutable db)" "rev (l_imm a)" key] assms(2)
    by (simp add: mems_rep_def)
  ultimately show ?thesis
    using assms(3) by (auto simp: DB_get_def Let_def DB_get_at_sequence_def split: option.splits)
qed

lemma first_some_put: "lsm_written [Put key v] a a' \<Longrightarrow>
    first_some (mem_lookup (l_mem a') key # map (\<lambda>ops. mem_lookup ops key) (rev (l_imm a'))) = Some v"
  by (auto simp: lsm_written_def lsm_append_def lsm_freeze_def mem_lookup_def)

text \<open>The last part of a flush, on a directory that needs no compaction.\<close>

lemma solo_rotate_dir:
  assumes "dir_db x db tabs n" and "n < MAX_LEVEL0_FILES"
  obtains db' where "solo x js sm (Rotate_open, db) (Returned (Ok ()), db')" "db_path db' = db_path db"
    "data_dir x (db_path db) (db_wal_file_number db + 1) [] tabs (db_fs db')" "\<forall>a. mems_rep sm db' a \<longleftrightarrow> mems_rep sm db a"
proof -
  obtain db' where db': "rotate_wal db = (Ok (), db')" "dir_db x db' tabs n" "db_wal_file_number db' = db_wal_file_number db + 1"
    "db_wal db' = new_wal (path_join (db_path db) (wal_filename (db_wal_file_number db'))) []"
    "db_path db' = db_path db" "\<forall>sm a. mems_rep sm db' a \<longleftrightarrow> mems_rep sm db a" by (rule rotate_wal_dir[OF assms(1)])
  obtain l0 k where l: "db_sstables db' = l0 # replicate k []" "length l0 = n" "cp_max_levels (db_picker db') = Suc k"
    using db'(2) by (auto simp: dir_db_def)
  have none: "maybe_trigger_compaction x js db' = (Ok (), db')"
    by (rule no_compaction_needed[OF l(1)]) (use l assms(2) in simp_all)
  have "solo x js sm (Rotate_open, db) (Returned (Ok ()), db')"
    using solo_rotate[OF solo_compaction, of x js sm db] db'(1) none by simp
  moreover have "data_dir x (db_path db) (db_wal_file_number db + 1) [] tabs (db_fs db')"
    using db'(2-5) by (simp add: dir_db_def new_wal_def BufWriter_new_def file_of_def)
  ultimately show ?thesis using that db'(5,6) by blast
qed

text \<open>
  C16. A write that meets a flush is lost in a crash, however often the log is synced: a \<^verbatim>\<open>put\<close> that runs between
  the last table of a flush and the exchange of the logs writes to the old log, which the flush then
  removes, and its value is in no table. The \<^verbatim>\<open>put\<close> has returned successfully and the value can be read, but the
  directory does not contain it: opening it gives exactly the tables there were before.
\<close>

theorem Threads_flush_loses_write:
  assumes "skip_map sm" and "Options_validate opts = Ok ()" and "\<not> error_if_exists opts" and "block_cache_size opts < 2 ^ 63"
    and "mems_rep sm db a" and "lsm_pending a = []" and "unat (db_sequence db) + 1 < 2 ^ 64" and "log_live db"
    and "dir_db x db tabs n" and "n < MAX_LEVEL0_FILES" and "1 \<le> db_wal_file_number db + 1"
    and "named_in_order (db_path db) tabs" and "distinct (map fst tabs)"
  shows "\<exists>n1 n2 db'. let s = run x js sm ([0, 0] @ replicate n1 1 @ replicate n2 0) (start db [Flush, Write (Put_call key v)]) in
    c_pcs s = [Returned (Ok ()), Returned (Ok ())] \<and> fst (DB_get x sm key (c_db s)) = Ok (Some v) \<and>
    fst (DB_open x js sm (db_path db) opts (db_fs (c_db s))) = Ok db' \<and>
    (\<forall>k. fst (DB_get x sm k db') = Ok (first_some (map (\<lambda>es. sst_lookup es k) (rev (map snd tabs)))))"
proof -
  let ?c = "Put_call key v"
  have empty: "l_mem a = []" "l_imm a = []" using assms(6) by (auto simp: lsm_pending_def split: if_splits)
  then have "MemTable_is_empty sm (db_memtable db)" "db_immutable db = []"
    using is_empty_rep[OF assms(1)] assms(5) by (auto simp: mems_rep_def)
  then have s: "run x js sm [0, 0] (start db [Flush, Write ?c]) = \<lparr>c_db = db, c_pcs = [Rotate_open, Idle (Write ?c)], c_runs = [[]]\<rparr>"
    by (simp add: start_def thread_step_def)
  obtain db1 where c: "DB_call x sm ?c db = (Ok (), db1)"
    using DB_call_live[OF assms(8), of x sm ?c] by (metis prod.collapse)
  obtain a1 where a1: "lsm_written [Put key v] a a1" "mems_rep sm db1 a1"
    using DB_call_mems[OF assms(1,5) _ c] assms(7) by auto
  have parts: "db_path db1 = db_path db" "db_wal_file_number db1 = db_wal_file_number db"
    using DB_call_parts[OF c] by (simp_all add: same_parts_def)
  obtain n1 hist1 where n1: "run x js sm (replicate n1 1) \<lparr>c_db = db, c_pcs = [Rotate_open, Idle (Write ?c)], c_runs = [[]]\<rparr> =
      \<lparr>c_db = db1, c_pcs = [Rotate_open, Returned (Ok ())], c_runs = hist1\<rparr>"
    by (rule run_alone[of x js sm "[Rotate_open, Idle (Write ?c)]" 1 db "(Returned (Ok ()), db1)"])
      (use solo_atomic[of x js sm "Write ?c" db] c in \<open>auto simp: less_Suc_eq\<close>)
  obtain db2 where db2: "solo x js sm (Rotate_open, db1) (Returned (Ok ()), db2)"
    "data_dir x (db_path db) (db_wal_file_number db + 1) [] tabs (db_fs db2)" "\<forall>a. mems_rep sm db2 a \<longleftrightarrow> mems_rep sm db1 a"
    using solo_rotate_dir[OF DB_call_dir[OF c assms(9)] assms(10)] unfolding parts by blast
  obtain n2 hist2 where n2: "run x js sm (replicate n2 0) \<lparr>c_db = db1, c_pcs = [Rotate_open, Returned (Ok ())], c_runs = hist1\<rparr> =
      \<lparr>c_db = db2, c_pcs = [Returned (Ok ()), Returned (Ok ())], c_runs = hist2\<rparr>"
    by (rule run_alone[of x js sm "[Rotate_open, Returned (Ok ())]" 0 db1 "(Returned (Ok ()), db2)"])
      (use db2(1) in \<open>auto simp: less_Suc_eq\<close>)
  have get: "fst (DB_get x sm key db2) = Ok (Some v)"
    using get_from_mems[OF assms(1) _ first_some_put[OF a1(1)], of db2 x] a1(2) db2(3) by blast
  have none: "WAL_recover (x_crc x) (Ok []) = Ok (map wal_entry [])" using wal.recover_all[of "x_crc x" "[]"] by simp
  obtain db' where "fst (DB_open x js sm (db_path db) opts (db_fs db2)) = Ok db'"
    "\<forall>k. fst (DB_get x sm k db') = Ok (lsm_get \<lparr>l_mem = [], l_imm = [], l_tables = [map snd tabs]\<rparr> k)"
    using DB_open_dir[OF assms(2-4,1) db2(2) assms(11-13) none, of js] by auto
  then have "let s = run x js sm ([0, 0] @ replicate n1 1 @ replicate n2 0) (start db [Flush, Write ?c]) in
      c_pcs s = [Returned (Ok ()), Returned (Ok ())] \<and> fst (DB_get x sm key (c_db s)) = Ok (Some v) \<and>
      fst (DB_open x js sm (db_path db) opts (db_fs (c_db s))) = Ok db' \<and>
      (\<forall>k. fst (DB_get x sm k db') = Ok (first_some (map (\<lambda>es. sst_lookup es k) (rev (map snd tabs)))))"
    using get unfolding run_append s n1 n2 Let_def lsm_get_tables by simp
  then show ?thesis by blast
qed

section \<open>The order of the log\<close>

text \<open>A successful and synced append to a log that holds the operations \<open>ops0\<close>.\<close>

definition logged_as :: "ext \<Rightarrow> WriteOp list \<Rightarrow> 'm DB \<Rightarrow> bool" where
  "logged_as x ops db \<longleftrightarrow> log_clean db \<and> log_stream db = log_bytes x ops \<and> log_live db \<and>
     use_wal (db_options db) \<and> sync_wal (db_options db)"

lemma log_ops_logged:
  assumes "logged_as x ops0 db" and "dir_db x db tabs n"
  obtains db' where "log_ops x ops db = (Ok (), db')" "logged_as x (ops0 @ ops) db'" "same_data db db'" "dir_db x db' tabs n"
proof -
  obtain db' where run: "log_ops x ops db = (Ok (), db')" "log_live db'"
    using log_ops_live[of db x ops] assms(1) by (metis logged_as_def prod.collapse)
  note same = log_ops_data[OF run(1)]
  have "log_grows (log_bytes x ops) True db db'" "log_clean db'"
    using log_ops_log[OF run(1)] assms(1) by (simp_all add: logged_as_def)
  then have "logged_as x (ops0 @ ops) db'"
    using assms(1) run(2) same by (simp add: logged_as_def log_grows_def same_data_def)
  moreover have "dir_db x db' tabs n"
    using log_ops_keeps[where P = "\<lambda>db. dir_db x db tabs n", OF dir_db_set_wal assms(2), of x ops] run(1) by simp
  ultimately show ?thesis using that run(1) same by blast
qed

text \<open>Opening the directory of a database whose log is on disk.\<close>

lemma reopen_logged:
  assumes "skip_map sm" and "Options_validate opts = Ok ()" and "\<not> error_if_exists opts" and "block_cache_size opts < 2 ^ 63"
    and "logged_as x ops db" and "dir_db x db tabs n" and "1 \<le> db_wal_file_number db" and "named_in_order (db_path db) tabs"
    and "distinct (map fst tabs)" and "length (log_bytes x ops) < 2 ^ 64" and "\<forall>op \<in> set ops. length (op_key op) < 2 ^ 32"
    and "length ops < 2 ^ 64"
  shows "\<exists>db'. fst (DB_open x js sm (db_path db) opts (db_fs db)) = Ok db' \<and>
    (\<forall>key. fst (DB_get x sm key db') = Ok (lsm_get \<lparr>l_mem = ops, l_imm = [], l_tables = [map snd tabs]\<rparr> key))"
proof -
  have "data_dir x (db_path db) (db_wal_file_number db) (log_bytes x ops) tabs (db_fs db)"
    using assms(5,6) by (simp add: dir_db_def logged_as_def log_clean_def)
  moreover have "filter (\<lambda>e. e \<noteq> []) (map wal_entry ops) = map wal_entry ops" by (induction ops) simp_all
  then have "WAL_recover (x_crc x) (Ok (log_bytes x ops)) = Ok (map wal_entry ops)"
    using wal.recover_all[of "x_crc x" "map wal_entry ops"] by simp
  ultimately show ?thesis using DB_open_dir[OF assms(2-4,1) _ assms(7-9) _ assms(10-12)] by blast
qed

text \<open>Freezing does not touch what is on disk, and keeps the last operation on a key.\<close>

lemma freeze_if_full_keeps:
  fixes sm db defines "db' \<equiv> snd (freeze_if_full sm db)"
  shows "db_fs db' = db_fs db" and "\<lbrakk>skip_map sm; mems_rep sm db a\<rbrakk> \<Longrightarrow> \<exists>a' \<in> {a, lsm_freeze a}. mems_rep sm db' a'"
  using freeze_mems[of sm db a] by (auto simp: db'_def freeze_if_full_def freeze_memtable_def)

lemma get_after_checks:
  assumes "skip_map sm" and "mems_rep sm db (lsm_append (ops @ [Put key v]) a)"
  shows "fst (DB_get x sm key (snd (freeze_if_full sm (snd (freeze_if_full sm db))))) = Ok (Some v)"
proof -
  let ?a = "lsm_append (ops @ [Put key v]) a" and ?db = "snd (freeze_if_full sm (snd (freeze_if_full sm db)))"
  obtain a' where a': "mems_rep sm ?db a'" "a' \<in> {?a, lsm_freeze ?a, lsm_freeze (lsm_freeze ?a)}"
    using freeze_if_full_keeps(2)[OF assms(1), of db] freeze_if_full_keeps(2)[OF assms(1), of "snd (freeze_if_full sm db)"] assms(2)
    by blast
  have "first_some (mem_lookup (l_mem a') key # map (\<lambda>ops. mem_lookup ops key) (rev (l_imm a'))) = Some v"
    using a'(2) by (auto simp: lsm_append_def lsm_freeze_def mem_lookup_def)
  then show ?thesis by (rule get_from_mems[OF assms(1) a'(1)])
qed

text \<open>Two puts that take their numbers in one order and log in the other.\<close>

lemma crossed_puts:
  assumes "logged_as x ops0 db" and "dir_db x db tabs n"
  defines "seq \<equiv> db_sequence db"
  obtains db' where "logged_as x (ops0 @ [Put key v1, Put key v0]) db'" "dir_db x db' tabs n" "same_data (db\<lparr>db_sequence := seq + 2\<rparr>) db'"
    "run x js sm [0, 1, 1, 0, 0, 0, 0, 1, 1, 1] (start db [Write (Put_call key v0), Write (Put_call key v1)]) =
       \<lparr>c_db = db'\<lparr>db_memtable := MemTable_apply_all sm [Put key v0, Put key v1] (seq + 1) (db_memtable db)\<rparr>,
        c_pcs = [Check_size, Check_size],
        c_runs = [[(0, seq + 1, Put_call key v0), (1, seq + 2, Put_call key v1)]]\<rparr>"
proof -
  let ?db = "db\<lparr>db_sequence := seq + 2\<rparr>"
  have start: "logged_as x ops0 ?db" "dir_db x ?db tabs n"
    using assms(1,2) dir_db_same[of ?db db] by (simp_all add: logged_as_def log_clean_def)
  obtain db1 where db1: "log_ops x [Put key v1] ?db = (Ok (), db1)" "logged_as x (ops0 @ [Put key v1]) db1" "same_data ?db db1"
    "dir_db x db1 tabs n" by (rule log_ops_logged[OF start])
  obtain db2 where db2: "log_ops x [Put key v0] db1 = (Ok (), db2)" "logged_as x ((ops0 @ [Put key v1]) @ [Put key v0]) db2"
    "same_data db1 db2" "dir_db x db2 tabs n" by (rule log_ops_logged[OF db1(2,4)])
  have same: "same_data ?db db2" by (rule same_data_trans[OF db1(3) db2(3)])
  then have mt: "db_memtable db2 = db_memtable db" by (simp add: same_data_def)
  show ?thesis
  proof (rule that)
    show "logged_as x (ops0 @ [Put key v1, Put key v0]) db2" using db2(2) by simp
    let ?c0 = "Put_call key v0" and ?c1 = "Put_call key v1" and ?start = "start db [Write (Put_call key v0), Write (Put_call key v1)]"
    let ?mt0 = "MemTable_apply sm (Put key v0) (seq + 1) (db_memtable db)"
    have "run x js sm [0, 1] ?start = \<lparr>c_db = ?db, c_pcs = [Log ?c0 (seq + 1), Log ?c1 (seq + 2)], c_runs = [[]]\<rparr>"
      by (simp add: start_def thread_step_def seq_def)
    moreover have "run x js sm [1, 0] \<lparr>c_db = ?db, c_pcs = [Log ?c0 (seq + 1), Log ?c1 (seq + 2)], c_runs = [[]]\<rparr> =
        \<lparr>c_db = db2, c_pcs = [Enter ?c0 (seq + 1), Enter ?c1 (seq + 2)], c_runs = [[]]\<rparr>"
      using db1(1) db2(1) by (simp add: thread_step_def)
    moreover have "run x js sm [0, 0, 0] \<lparr>c_db = db2, c_pcs = [Enter ?c0 (seq + 1), Enter ?c1 (seq + 2)], c_runs = [[]]\<rparr> =
        \<lparr>c_db = db2\<lparr>db_memtable := ?mt0\<rparr>, c_pcs = [Check_size, Enter ?c1 (seq + 2)], c_runs = [[(0, seq + 1, ?c0)]]\<rparr>"
      using mt by (simp add: thread_step_def)
    moreover have "run x js sm [1, 1, 1] \<lparr>c_db = db2\<lparr>db_memtable := ?mt0\<rparr>, c_pcs = [Check_size, Enter ?c1 (seq + 2)], c_runs = [[(0, seq + 1, ?c0)]]\<rparr> =
        \<lparr>c_db = db2\<lparr>db_memtable := MemTable_apply_all sm [Put key v0, Put key v1] (seq + 1) (db_memtable db)\<rparr>,
         c_pcs = [Check_size, Check_size], c_runs = [[(0, seq + 1, ?c0), (1, seq + 2, ?c1)]]\<rparr>"
      by (simp add: thread_step_def add.commute)
    moreover have "[0, 1, 1, 0, 0, 0, 0, 1, 1, 1] = [0, 1] @ [1, 0] @ [0, 0, 0] @ [1, 1, 1 :: nat]" by simp
    ultimately show "run x js sm [0, 1, 1, 0, 0, 0, 0, 1, 1, 1] ?start =
       \<lparr>c_db = db2\<lparr>db_memtable := MemTable_apply_all sm [Put key v0, Put key v1] (seq + 1) (db_memtable db)\<rparr>,
        c_pcs = [Check_size, Check_size], c_runs = [[(0, seq + 1, ?c0), (1, seq + 2, ?c1)]]\<rparr>"
      by (simp only: run_append)
  qed (use same db2(4) in simp_all)
qed

text \<open>
  C17. The order of the log is not the order of the sequence numbers. Two puts of one key may take their
  numbers in one order and log their entries in the other: then the value that is read is that of the
  higher number, but recovery numbers the entries as the log has them, and after a crash the value
  of the other \<^verbatim>\<open>put\<close> is read, although both had returned and the log was synced.
\<close>

theorem Threads_recovery_order:
  assumes "skip_map sm" and "Options_validate opts = Ok ()" and "\<not> error_if_exists opts" and "block_cache_size opts < 2 ^ 63"
    and "mems_rep sm db a" and "unat (db_sequence db) + 2 < 2 ^ 64" and "logged_as x ops0 db" and "dir_db x db tabs n"
    and "1 \<le> db_wal_file_number db" and "named_in_order (db_path db) tabs" and "distinct (map fst tabs)"
    and "length (log_bytes x (ops0 @ [Put key v1, Put key v0])) < 2 ^ 64"
    and "\<forall>op \<in> set (ops0 @ [Put key v1, Put key v0]). length (op_key op) < 2 ^ 32" and "length ops0 + 2 < 2 ^ 64"
  shows "\<exists>sched db'. let s = run x js sm sched (start db [Write (Put_call key v0), Write (Put_call key v1)]) in
    c_pcs s = [Returned (Ok ()), Returned (Ok ())] \<and> fst (DB_get x sm key (c_db s)) = Ok (Some v1) \<and>
    fst (DB_open x js sm (db_path db) opts (db_fs (c_db s))) = Ok db' \<and> fst (DB_get x sm key db') = Ok (Some v0)"
proof -
  let ?seq = "db_sequence db" and ?ops = "[Put key v0, Put key v1]" and ?log = "ops0 @ [Put key v1, Put key v0]"
  let ?start = "start db [Write (Put_call key v0), Write (Put_call key v1)]"
  obtain db2 where db2: "logged_as x ?log db2" "dir_db x db2 tabs n" "same_data (db\<lparr>db_sequence := ?seq + 2\<rparr>) db2"
    "run x js sm [0, 1, 1, 0, 0, 0, 0, 1, 1, 1] ?start =
       \<lparr>c_db = db2\<lparr>db_memtable := MemTable_apply_all sm ?ops (?seq + 1) (db_memtable db)\<rparr>, c_pcs = [Check_size, Check_size],
        c_runs = [[(0, ?seq + 1, Put_call key v0), (1, ?seq + 2, Put_call key v1)]]\<rparr>"
    by (rule crossed_puts[OF assms(7,8)])
  define db3 where "db3 = db2\<lparr>db_memtable := MemTable_apply_all sm ?ops (?seq + 1) (db_memtable db)\<rparr>"
  define db4 where "db4 = snd (freeze_if_full sm db3)"
  define db5 where "db5 = snd (freeze_if_full sm db4)"
  have "mems_rep sm db3 (lsm_append ?ops a)"
  proof -
    have le: "?seq \<le> ?seq + 2" using assms(6) by (simp add: word_le_nat_alt unat_word_ariths)
    have "mem_rep sm (MemTable_apply_all sm ?ops (?seq + 1) (db_memtable db)) (l_mem a @ ?ops) (?seq + of_nat (length ?ops))"
      using assms(5,6) by (intro mem_rep_apply_all[OF assms(1)]) (simp_all add: mems_rep_def)
    then show ?thesis
      using assms(5) db2(3) le
      by (auto simp: db3_def mems_rep_def lsm_append_def same_data_def elim!: mem_rep_later list.rel_mono_strong)
  qed
  from get_after_checks[OF assms(1), of db3 "[Put key v0]" key v1 a] this
  have get: "fst (DB_get x sm key db5) = Ok (Some v1)" by (simp add: db5_def db4_def)
  obtain n0 hist0 where n0: "run x js sm (replicate n0 0) (run x js sm [0, 1, 1, 0, 0, 0, 0, 1, 1, 1] ?start) =
      \<lparr>c_db = db4, c_pcs = [Returned (Ok ()), Check_size], c_runs = hist0\<rparr>"
    unfolding db2(4) db3_def[symmetric]
    by (rule run_alone[of x js sm "[Check_size, Check_size]" 0 db3 "(Returned (Ok ()), db4)"])
      (use solo_check_size[of x js sm db3] in \<open>auto simp: db4_def less_Suc_eq\<close>)
  obtain n1 hist1 where n1: "run x js sm (replicate n1 1) \<lparr>c_db = db4, c_pcs = [Returned (Ok ()), Check_size], c_runs = hist0\<rparr> =
      \<lparr>c_db = db5, c_pcs = [Returned (Ok ()), Returned (Ok ())], c_runs = hist1\<rparr>"
    by (rule run_alone[of x js sm "[Returned (Ok ()), Check_size]" 1 db4 "(Returned (Ok ()), db5)"])
      (use solo_check_size[of x js sm db4] in \<open>auto simp: db5_def less_Suc_eq\<close>)
  have same: "db_path db2 = db_path db" "db_wal_file_number db2 = db_wal_file_number db" "db_fs db5 = db_fs db2"
    using db2(3) freeze_if_full_keeps(1)[of sm] by (simp_all add: same_data_def db5_def db4_def db3_def)
  obtain db' where "fst (DB_open x js sm (db_path db) opts (db_fs db5)) = Ok db'"
    "\<forall>key. fst (DB_get x sm key db') = Ok (lsm_get \<lparr>l_mem = ?log, l_imm = [], l_tables = [map snd tabs]\<rparr> key)"
    using reopen_logged[OF assms(1-4) db2(1,2) _ _ assms(11-13), of js] assms(9,10,14) same by auto
  moreover have "run x js sm ([0, 1, 1, 0, 0, 0, 0, 1, 1, 1] @ replicate n0 0 @ replicate n1 1) ?start =
      \<lparr>c_db = db5, c_pcs = [Returned (Ok ()), Returned (Ok ())], c_runs = hist1\<rparr>"
    unfolding run_append n0 n1 ..
  ultimately show ?thesis
    using get
    by (intro exI[of _ "[0, 1, 1, 0, 0, 0, 0, 1, 1, 1] @ replicate n0 0 @ replicate n1 1"] exI[of _ db'])
      (simp only: Let_def, simp add: lsm_get_def mem_lookup_def)
qed

section \<open>Sample runs\<close>

lemma sample_db_dir: "0 < max_levels opts \<Longrightarrow> dir_db x (sample_db opts) [] 0"
  by (rule opened_db_dir) (simp_all add: empty_fs_def fs_sound_def)

lemma sample_db_numbers: "db_wal_file_number (sample_db opts) = 1" "db_path (sample_db opts) = ''db''"
  by (simp_all add: opened_db_def Let_def)

theorem Threads_flush_hides_witness:
  "\<exists>db n. DB_put sample_ext sorted_list_map [1] [2] (sample_db sample_opts) = (Ok (), db) \<and>
     fst (DB_get sample_ext sorted_list_map [1] db) = Ok (Some [2]) \<and>
     c_pcs (run sample_ext const_json sorted_list_map ([0, 0, 0] @ replicate n 1) (start db [Flush, Get [1]])) ! 1 = Answered (Ok None)"
proof -
  let ?sm = sorted_list_map
  obtain db where db: "DB_put sample_ext ?sm [1] [2] (sample_db sample_opts) = (Ok (), db)" "db_immutable db = []"
    by (rule sample_session[OF opened_db_with])
  then have c: "DB_call sample_ext ?sm (Put_call [1] [2]) (sample_db sample_opts) = (Ok (), db)" by simp
  obtain a where a: "lsm_written [Put [1] [2]] (mem_store 4 []) a" "db_rep sample_ext ?sm db a"
    using DB_call_rep[OF sl.skip_map_axioms sample_db_rep[OF sample_opts_ok(3)] _ c] by auto
  then have "l_imm a = []" using db(2) by (simp add: db_rep_def)
  then have "a = mem_store 4 [Put [1] [2]]" using a(1) by (auto simp: lsm_written_def lsm_append_def lsm_freeze_def)
  then show ?thesis
    using Threads_flush_hides[OF sl.skip_map_axioms a(2), of "[1]" "[2]" const_json] db(1) by (auto simp: mem_lookup_def)
qed

theorem Threads_snapshot_race_witness:
  "let rs = [Write (Put_call [1] [2]), Read_at 1 [1], Read_at 1 [1]] in
   \<exists>n1 n2 n3. c_pcs (run sample_ext const_json sorted_list_map ([0] @ replicate n1 1 @ replicate n2 0 @ replicate n3 2)
       (start (sample_db sample_opts) rs)) = [Returned (Ok ()), Answered (Ok None), Answered (Ok (Some [2]))]"
  using Threads_snapshot_race[OF sl.skip_map_axioms sample_db_rep[OF sample_opts_ok(3)] _ sample_db_fields(2), of sample_ext const_json "[1]" "[2]"]
  by (simp add: lsm_get_mem_store mem_lookup_def)

theorem Threads_flush_loses_write_witness:
  "\<exists>n1 n2 db'. let s = run sample_ext const_json sorted_list_map ([0, 0] @ replicate n1 1 @ replicate n2 0)
       (start (sample_db sample_opts) [Flush, Write (Put_call [1] [2])]) in
     fst (DB_get sample_ext sorted_list_map [1] (c_db s)) = Ok (Some [2]) \<and>
     fst (DB_open sample_ext const_json sorted_list_map ''db'' sample_opts (db_fs (c_db s))) = Ok db' \<and>
     fst (DB_get sample_ext sorted_list_map [1] db') = Ok None"
proof -
  let ?sm = sorted_list_map and ?db = "sample_db sample_opts"
  have mem: "mems_rep ?sm ?db (mem_store 4 [])"
    using sample_db_rep[OF sample_opts_ok(3), of sample_ext] by (simp add: db_rep_split)
  have dir: "dir_db sample_ext ?db [] 0" by (rule sample_db_dir) simp
  have "\<exists>n1 n2 db'. let s = run sample_ext const_json ?sm ([0, 0] @ replicate n1 1 @ replicate n2 0)
        (start ?db [Flush, Write (Put_call [1] [2])]) in
      c_pcs s = [Returned (Ok ()), Returned (Ok ())] \<and> fst (DB_get sample_ext ?sm [1] (c_db s)) = Ok (Some [2]) \<and>
      fst (DB_open sample_ext const_json ?sm (db_path ?db) sample_opts (db_fs (c_db s))) = Ok db' \<and>
      (\<forall>k. fst (DB_get sample_ext ?sm k db') = Ok (first_some (map (\<lambda>es. sst_lookup es k) (rev (map snd ([] :: (u64 \<times> kv list) list))))))"
    by (rule Threads_flush_loses_write[OF sl.skip_map_axioms sample_opts_ok(1-3) mem _ _ sample_db_fields(2) dir])
      (simp_all add: lsm_pending_def MAX_LEVEL0_FILES_def sample_db_numbers named_in_order_def)
  then show ?thesis unfolding Let_def sample_db_numbers by (elim exE conjE) (intro exI conjI, assumption+, simp)
qed

theorem Threads_recovery_order_witness:
  "\<exists>sched db'. let s = run sample_ext const_json sorted_list_map sched
       (start (sample_db Options_default) [Write (Put_call [1] [2]), Write (Put_call [1] [3])]) in
     c_pcs s = [Returned (Ok ()), Returned (Ok ())] \<and> fst (DB_get sample_ext sorted_list_map [1] (c_db s)) = Ok (Some [3]) \<and>
     fst (DB_open sample_ext const_json sorted_list_map ''db'' Options_default (db_fs (c_db s))) = Ok db' \<and>
     fst (DB_get sample_ext sorted_list_map [1] db') = Ok (Some [2])"
proof -
  let ?sm = sorted_list_map and ?db = "sample_db Options_default"
  have opts: "block_cache_size Options_default < 2 ^ 63" "\<not> error_if_exists Options_default" "use_wal Options_default"
    "sync_wal Options_default" "0 < max_levels Options_default" by (simp_all add: Options_default_def)
  have valid: "Options_validate Options_default = Ok ()" by (rule Options_presets_valid) simp
  have mem: "mems_rep ?sm ?db (mem_store (max_levels Options_default) [])"
    using sample_db_rep[OF opts(1), of sample_ext] by (simp add: db_rep_split)
  have dir: "dir_db sample_ext ?db [] 0" by (rule sample_db_dir) (rule opts(5))
  have log: "logged_as sample_ext [] ?db" using opts(3,4) by (simp add: logged_as_def)
  have "length (log_bytes sample_ext ([] @ [Put [1] [3], Put [1] [2]])) < 2 ^ 64"
    by (simp add: entry_bytes_def fragments.simps MAX_RECORD_SIZE_def Record_encoded_size_def HEADER_SIZE_def Let_def)
  from Threads_recovery_order[OF sl.skip_map_axioms valid opts(2,1) mem _ log dir _ _ _ this, of const_json]
  show ?thesis by (simp add: sample_db_numbers named_in_order_def)
qed

end
