(* ===== verification/DB_Simulation.thy ===== *)
theory DB_Simulation
  imports DB_Sessions
begin

text \<open>
  Runs of a database: write calls, reads and flushes in any order (\<^verbatim>\<open>lib.rs\<close>). Without I/O failures the
  database simulates the layered store: every command returns, with the answer of the store, as
  long as the data fits the table format.
\<close>

section \<open>Runs\<close>

datatype command = Call call | Read bytes | Flush_all

datatype answer = Done "unit res" | Value_of "bytes option res"

fun DB_exec :: "ext \<Rightarrow> json \<Rightarrow> 'm SkipMap \<Rightarrow> command \<Rightarrow> 'm DB \<Rightarrow> answer \<times> 'm DB" where
  "DB_exec x js sm (Call c) db = apfst Done (DB_call x sm c db)"
| "DB_exec x js sm (Read key) db = apfst Value_of (DB_get x sm key db)"
| "DB_exec x js sm Flush_all db = apfst Done (DB_flush x js sm db)"

text \<open>Running commands one after the other, with any function that executes one.\<close>

fun run_all :: "('c \<Rightarrow> 's \<Rightarrow> 'r \<times> 's) \<Rightarrow> 'c list \<Rightarrow> 's \<Rightarrow> 'r list \<times> 's" where
  "run_all exec [] s = ([], s)"
| "run_all exec (c # cs) s = (case exec c s of (r, s1) \<Rightarrow> apfst (Cons r) (run_all exec cs s1))"

abbreviation DB_run :: "ext \<Rightarrow> json \<Rightarrow> 'm SkipMap \<Rightarrow> command list \<Rightarrow> 'm DB \<Rightarrow> answer list \<times> 'm DB" where
  "DB_run x js sm \<equiv> run_all (DB_exec x js sm)"

text \<open>The layered store; whether a memtable is frozen and what is compacted is left open.\<close>

inductive lsm_exec :: "lsm \<Rightarrow> command \<Rightarrow> answer \<Rightarrow> lsm \<Rightarrow> bool" where
  call: "lsm_written (call_ops c) a a' \<Longrightarrow> lsm_exec a (Call c) (Done (Ok ())) a'"
| read: "lsm_exec a (Read key) (Value_of (Ok (lsm_get a key))) a"
| flush: "lsm_maybe_compact (lsm_flush a) a' \<Longrightarrow> lsm_exec a Flush_all (Done (Ok ())) a'"

inductive_cases lsm_exec_callE: "lsm_exec a (Call c) r a'"
inductive_cases lsm_exec_readE: "lsm_exec a (Read key) r a'"
inductive_cases lsm_exec_flushE: "lsm_exec a Flush_all r a'"

inductive spec_run :: "('a \<Rightarrow> 'c \<Rightarrow> 'r \<Rightarrow> 'a \<Rightarrow> bool) \<Rightarrow> 'a \<Rightarrow> 'c list \<Rightarrow> 'r list \<Rightarrow> 'a \<Rightarrow> bool" for spec where
  stop: "spec_run spec a [] [] a"
| step: "spec a c r a1 \<Longrightarrow> spec_run spec a1 cs rs a' \<Longrightarrow> spec_run spec a (c # cs) (r # rs) a'"

inductive_simps spec_run_simps: "spec_run spec a [] rs a'" "spec_run spec a (c # cs) rs a'"

abbreviation lsm_run :: "lsm \<Rightarrow> command list \<Rightarrow> answer list \<Rightarrow> lsm \<Rightarrow> bool" where
  "lsm_run \<equiv> spec_run lsm_exec"

text \<open>
  Simulation: while the relation holds, with what the remaining commands need, every execution is one
  that the specification allows.
\<close>

locale forward_simulation =
  fixes exec :: "'c \<Rightarrow> 's \<Rightarrow> 'r \<times> 's" and spec :: "'a \<Rightarrow> 'c \<Rightarrow> 'r \<Rightarrow> 'a \<Rightarrow> bool" and rel :: "'c list \<Rightarrow> 's \<Rightarrow> 'a \<Rightarrow> bool"
  assumes simulate: "rel (c # cs) s a \<Longrightarrow> \<exists>r s1 a1. exec c s = (r, s1) \<and> spec a c r a1 \<and> rel cs s1 a1"
begin

lemma run_simulates: "rel cs s a \<Longrightarrow> \<exists>a'. spec_run spec a cs (fst (run_all exec cs s)) a' \<and> rel [] (snd (run_all exec cs s)) a'"
proof (induction cs arbitrary: s a)
  case Nil
  then show ?case by (auto intro: spec_run.stop)
next
  case (Cons c cs)
  then obtain r s1 a1 where one: "exec c s = (r, s1)" "spec a c r a1" "rel cs s1 a1" using simulate by blast
  with Cons.IH[OF one(3)] show ?case by (auto intro: spec_run.step)
qed

end

section \<open>Sizes\<close>

text \<open>The data of a store, as tables would hold it.\<close>

fun op_kv :: "WriteOp \<Rightarrow> kv" where
  "op_kv (Put k v) = (k, v)"
| "op_kv (Delete k) = (k, [])"

definition ops_size :: "WriteOp list \<Rightarrow> nat" where
  "ops_size ops = kv_size (map op_kv ops)"

definition lsm_size :: "lsm \<Rightarrow> nat" where
  "lsm_size a = ops_size (l_mem a) + sum_list (map ops_size (l_imm a)) + sum_list (map (\<lambda>l. kv_size (concat l)) (l_tables a))"

text \<open>A store with room for \<open>n\<close> more bytes, and without the empty key in its memtables.\<close>

definition lsm_fits :: "nat \<Rightarrow> lsm \<Rightarrow> bool" where
  "lsm_fits n a \<longleftrightarrow> lsm_size a + n + 8 < 2 ^ 32 \<and> (\<forall>ops \<in> set (l_mem a # l_imm a). [] \<notin> op_key ` set ops)"

lemma kv_size_subset:
  assumes "distinct es" and "set es \<subseteq> set es'"
  shows "kv_size es \<le> kv_size es'"
proof -
  have "kv_size es = (\<Sum>(k, v) \<in> set es. length k + length v + 16)"
    unfolding kv_size_def by (rule sum_list_distinct_conv_sum_set[OF assms(1)])
  also have "\<dots> \<le> (\<Sum>(k, v) \<in> set es'. length k + length v + 16)" by (rule sum_mono2) (use assms(2) in auto)
  also have "\<dots> \<le> kv_size es'" unfolding kv_size_def by (induction es') (auto simp: sum.insert_if split: prod.splits)
  finally show ?thesis .
qed

lemma op_kv_key [simp]: "fst (op_kv op) = op_key op"
  by (cases op) simp_all

lemma flush_entries_size: "kv_size (flush_entries ops) \<le> ops_size ops"
proof -
  have last: "(k, the (apply_ops (map as_tombstone ops) Map.empty k)) \<in> op_kv ` set ops" if "k \<in> op_key ` set ops" for k
    using that
  proof (induction ops rule: rev_induct)
    case (snoc op ops)
    then show ?case by (cases op) auto
  qed simp
  then have "set (flush_entries ops) \<subseteq> set (map op_kv ops)" by (auto simp: flush_entries_def)
  moreover have "distinct (flush_entries ops)"
    unfolding flush_entries_def by (simp add: distinct_map inj_on_def)
  ultimately show ?thesis unfolding ops_size_def by (rule kv_size_subset[rotated])
qed

lemma compact_entries_size: "kv_size (compact_entries lvl ts) \<le> kv_size (concat ts)"
proof -
  have "(k, the (kept lvl (map_of (concat ts) k))) \<in> set (concat ts)" if "kept lvl (map_of (concat ts) k) \<noteq> None" for k
    using that map_of_SomeD[of "concat ts" k] by (cases "map_of (concat ts) k") (auto simp: kept_def simp del: set_concat split: if_splits)
  then have "set (compact_entries lvl ts) \<subseteq> set (concat ts)"
    unfolding compact_entries_def by (auto simp del: set_concat)
  moreover have "distinct (compact_entries lvl ts)" unfolding compact_entries_def by (simp add: distinct_map inj_on_def)
  ultimately show ?thesis by (rule kv_size_subset[rotated])
qed

text \<open>Freezing, flushing and compacting do not make a store larger; operations add their size.\<close>

lemma ops_size_simps [simp]: "ops_size [] = 0" "ops_size (xs @ ys) = ops_size xs + ops_size ys"
  by (simp_all add: ops_size_def)

lemma lsm_size_written: "lsm_written ops a a' \<Longrightarrow> lsm_size a' = lsm_size a + ops_size ops"
  by (auto simp: lsm_written_def lsm_append_def lsm_freeze_def lsm_size_def)

lemma lsm_size_add_table: "l_tables a \<noteq> [] \<Longrightarrow> lsm_size (lsm_add_table es a) = lsm_size a + kv_size es"
  by (cases "l_tables a") (simp_all add: lsm_add_table_def lsm_size_def)

lemma add_tables:
  assumes "l_tables a \<noteq> []"
  shows "lsm_size (fold (\<lambda>ops. lsm_add_table (flush_entries ops)) opss a) \<le> lsm_size a + sum_list (map ops_size opss) \<and>
    l_mem (fold (\<lambda>ops. lsm_add_table (flush_entries ops)) opss a) = l_mem a \<and>
    l_imm (fold (\<lambda>ops. lsm_add_table (flush_entries ops)) opss a) = l_imm a \<and>
    length (l_tables (fold (\<lambda>ops. lsm_add_table (flush_entries ops)) opss a)) = length (l_tables a)"
  using assms
proof (induction opss arbitrary: a)
  case (Cons ops opss)
  let ?b = "lsm_add_table (flush_entries ops) a"
  have "l_tables ?b \<noteq> []" using Cons.prems by simp
  from Cons.IH[OF this] show ?case
    using Cons.prems lsm_size_add_table[OF Cons.prems, of "flush_entries ops"] flush_entries_size[of ops] by simp
qed simp

lemma lsm_flush_shape:
  assumes "l_tables a \<noteq> []"
  shows "lsm_size (lsm_flush a) \<le> lsm_size a" and "l_mem (lsm_flush a) = []" and "l_imm (lsm_flush a) = []"
    and "length (l_tables (lsm_flush a)) = length (l_tables a)"
proof -
  let ?b = "if l_mem a = [] then a else lsm_freeze a"
  have b: "lsm_size (?b\<lparr>l_imm := []\<rparr>) + sum_list (map ops_size (l_imm ?b)) = lsm_size a" "l_mem ?b = []" "l_tables ?b = l_tables a"
    by (simp_all add: lsm_size_def lsm_freeze_def)
  have "l_tables (?b\<lparr>l_imm := []\<rparr>) \<noteq> []" using assms b(3) by simp
  note t = add_tables[OF this, of "l_imm ?b"]
  show "lsm_size (lsm_flush a) \<le> lsm_size a" "l_mem (lsm_flush a) = []" "l_imm (lsm_flush a) = []"
    "length (l_tables (lsm_flush a)) = length (l_tables a)"
    using t b unfolding lsm_flush_def Let_def by simp_all
qed

lemma sum_list_update2_le:
  fixes xs :: "nat list"
  assumes "i < length xs" and "j < length xs" and "i \<noteq> j" and "y + z \<le> xs ! i + xs ! j"
  shows "sum_list (xs[i := y, j := z]) \<le> sum_list xs"
proof -
  have "sum_list (xs[i := y, j := z]) + xs ! i + xs ! j = sum_list xs + y + z"
    using assms(1-3) elem_le_sum_list[of i xs] elem_le_sum_list[of j "xs[i := y]"] by (simp add: sum_list_update)
  then show ?thesis using assms(4) by simp
qed

lemma lsm_compact_size:
  assumes "n + 1 < length (l_tables a)"
  shows "lsm_size (lsm_compact n m a) \<le> lsm_size a" and "l_mem (lsm_compact n m a) = l_mem a" and "l_imm (lsm_compact n m a) = l_imm a"
proof -
  let ?l = "l_tables a ! n" and ?es = "compact_entries (n + 1) (take m (l_tables a ! n))" and ?f = "\<lambda>l. kv_size (concat l)"
  have "?f (drop m ?l) + ?f (l_tables a ! (n + 1) @ [?es]) \<le> ?f ?l + ?f (l_tables a ! (n + 1))"
  proof -
    have "?f ?l = kv_size (concat (take m ?l)) + kv_size (concat (drop m ?l))"
      by (metis append_take_drop_id concat_append kv_size_append)
    then show ?thesis using compact_entries_size[of "n + 1" "take m ?l"] by simp
  qed
  then have "sum_list (map ?f ((l_tables a)[n := drop m ?l, n + 1 := l_tables a ! (n + 1) @ [?es]])) \<le> sum_list (map ?f (l_tables a))"
    unfolding map_update using assms by (intro sum_list_update2_le) simp_all
  then show "lsm_size (lsm_compact n m a) \<le> lsm_size a" by (simp add: lsm_compact_def Let_def lsm_size_def)
qed (simp_all add: lsm_compact_def Let_def)

lemma maybe_compact_size:
  assumes "lsm_maybe_compact a a'" and "2 \<le> length (l_tables a)"
  shows "lsm_size a' \<le> lsm_size a \<and> l_mem a' = l_mem a \<and> l_imm a' = l_imm a \<and> length (l_tables a') = length (l_tables a)"
  using assms(1)
proof cases
  case compact_level0
  then show ?thesis using lsm_compact_size[of 0 a] assms(2) by simp
next
  case (compact_level n)
  then show ?thesis using lsm_compact_size[of n a] by simp
qed simp

section \<open>The simulation\<close>

fun command_ops :: "command \<Rightarrow> WriteOp list" where
  "command_ops (Call c) = call_ops c"
| "command_ops _ = []"

abbreviation commands_ops :: "command list \<Rightarrow> WriteOp list" where
  "commands_ops cs \<equiv> concat (map command_ops cs)"

text \<open>
  The relation between a database and a store, with the resources the commands still need: space in the
  tables, sequence numbers and file numbers. A call freezes at most one memtable, and a flush writes one
  file for every memtable and one for a compaction.
\<close>

definition simulated :: "ext \<Rightarrow> json \<Rightarrow> 'm SkipMap \<Rightarrow> command list \<Rightarrow> 'm DB \<Rightarrow> lsm \<Rightarrow> bool" where
  "simulated x js sm cs db a \<longleftrightarrow>
     db_rep x sm db a \<and> db_sound x js db (length (l_tables a)) \<and> log_live db \<and> 2 \<le> length (l_tables a) \<and>
     lsm_fits (ops_size (commands_ops cs)) a \<and> [] \<notin> op_key ` set (commands_ops cs) \<and>
     unat (db_sequence db) + length (commands_ops cs) < 2 ^ 64 \<and>
     unat (db_next_file_number db) + length (l_imm a) + 2 * length cs + 3 < 2 ^ 64"

lemma written_keys:
  assumes "lsm_written ops a a'" and "\<forall>ops \<in> set (l_mem a # l_imm a). [] \<notin> op_key ` set ops" and "[] \<notin> op_key ` set ops"
  shows "\<forall>ops \<in> set (l_mem a' # l_imm a'). [] \<notin> op_key ` set ops" and "l_tables a' = l_tables a" and "length (l_imm a') \<le> length (l_imm a) + 1"
proof -
  consider "a' = lsm_append ops a" | "a' = lsm_freeze (lsm_append ops a)" using assms(1) by (auto simp: lsm_written_def)
  then show "\<forall>ops \<in> set (l_mem a' # l_imm a'). [] \<notin> op_key ` set ops" "l_tables a' = l_tables a" "length (l_imm a') \<le> length (l_imm a) + 1"
    by (cases; use assms(2,3) in \<open>simp add: lsm_append_def lsm_freeze_def image_Un\<close>)+
qed

lemma simulate_call:
  assumes sm: "skip_map sm" and inv: "simulated x js sm (Call c # cs) db a"
  shows "\<exists>db1 a1. DB_call x sm c db = (Ok (), db1) \<and> lsm_written (call_ops c) a a1 \<and> simulated x js sm cs db1 a1"
proof -
  have i: "db_rep x sm db a" "db_sound x js db (length (l_tables a))" "log_live db" "2 \<le> length (l_tables a)"
    "lsm_size a + (ops_size (call_ops c) + ops_size (commands_ops cs)) + 8 < 2 ^ 32"
    "\<forall>ops \<in> set (l_mem a # l_imm a). [] \<notin> op_key ` set ops" "[] \<notin> op_key ` set (call_ops c)" "[] \<notin> op_key ` set (commands_ops cs)"
    "unat (db_sequence db) + length (call_ops c) + length (commands_ops cs) < 2 ^ 64"
    "unat (db_next_file_number db) + length (l_imm a) + 2 * length cs + 5 < 2 ^ 64"
    using inv by (simp_all add: simulated_def lsm_fits_def image_Un)
  obtain db1 where c: "DB_call x sm c db = (Ok (), db1)" "log_live db1"
    using DB_call_live[OF i(3), of x sm c] by (metis prod.collapse)
  have room: "unat (db_sequence db) + length (call_ops c) < 2 ^ 64" using i(9) by simp
  obtain a1 where a1: "lsm_written (call_ops c) a a1" "db_rep x sm db1 a1" using DB_call_rep[OF sm i(1) room c(1)] by auto
  note w = written_keys[OF a1(1) i(6,7)] and parts = DB_call_parts[OF c(1)]
  have "unat (db_sequence db1) = unat (db_sequence db) + length (call_ops c)"
    using DB_call_fields(1)[OF c(1)] room by (simp add: unat_word_ariths unat_of_nat)
  moreover have "db_sound x js db1 (length (l_tables a1))" "db_next_file_number db1 = db_next_file_number db"
    using same_parts_sound[OF parts] parts i(2) w(2) by (simp_all add: same_parts_def)
  ultimately have "simulated x js sm cs db1 a1"
    using i a1 c(2) w lsm_size_written[OF a1(1)] by (simp add: simulated_def lsm_fits_def)
  then show ?thesis using c(1) a1(1) by blast
qed

lemma simulate_read:
  assumes sm: "skip_map sm" and inv: "simulated x js sm (Read key # cs) db a"
  shows "\<exists>db1. DB_get x sm key db = (Ok (lsm_get a key), db1) \<and> simulated x js sm cs db1 a"
proof -
  obtain cache where c: "DB_get x sm key db = (Ok (lsm_get a key), db\<lparr>db_cache := cache\<rparr>)" "db_rep x sm (db\<lparr>db_cache := cache\<rparr>) a"
    using get_at_sequence_rep[OF sm _ order_refl, of x db a key] inv by (auto simp: simulated_def DB_get_def)
  then have "simulated x js sm cs (db\<lparr>db_cache := cache\<rparr>) a" using inv by (simp add: simulated_def db_sound_def)
  then show ?thesis using c(1) by blast
qed

lemma member_le_sum_list: "x \<in> set xs \<Longrightarrow> f x \<le> sum_list (map f xs)" for f :: "'a \<Rightarrow> nat"
  by (induction xs) auto

lemma fits_flush:
  assumes "lsm_fits n a" and "l_tables a \<noteq> []"
  shows "\<forall>ops \<in> set (l_mem a # l_imm a). flushable ops" and "levels_small (lsm_flush a)"
proof -
  have small: "lsm_size a + 8 < 2 ^ 32" using assms(1) by (simp add: lsm_fits_def)
  have "ops_size ops \<le> lsm_size a" if "ops \<in> set (l_mem a # l_imm a)" for ops
    using that member_le_sum_list[of ops "l_imm a" ops_size] by (auto simp: lsm_size_def)
  then show "\<forall>ops \<in> set (l_mem a # l_imm a). flushable ops"
    using flush_entries_size small assms(1) unfolding flushable_def lsm_fits_def by (meson add_le_mono1 le_trans order_le_less_trans)
  have "kv_size (concat l) \<le> lsm_size (lsm_flush a)" if "l \<in> set (l_tables (lsm_flush a))" for l
    using member_le_sum_list[OF that, of "\<lambda>l. kv_size (concat l)"] by (simp add: lsm_size_def)
  then show "levels_small (lsm_flush a)"
    using lsm_flush_shape(1)[OF assms(2)] small unfolding levels_small_def by (meson add_le_mono1 le_trans order_le_less_trans)
qed

lemma simulate_flush:
  assumes sm: "skip_map sm" and inv: "simulated x js sm (Flush_all # cs) db a"
  shows "\<exists>db1 a1. DB_flush x js sm db = (Ok (), db1) \<and> lsm_maybe_compact (lsm_flush a) a1 \<and> simulated x js sm cs db1 a1"
proof -
  have i: "db_rep x sm db a" "db_sound x js db (length (l_tables a))" "2 \<le> length (l_tables a)" "lsm_fits (ops_size (commands_ops cs)) a"
    "unat (db_next_file_number db) + length (l_imm a) + 3 < 2 ^ 64" using inv by (simp_all add: simulated_def)
  have ne: "l_tables a \<noteq> []" using i(3) by auto
  obtain db1 a1 where f: "DB_flush x js sm db = (Ok (), db1)" "lsm_maybe_compact (lsm_flush a) a1" "db_rep x sm db1 a1"
    "db_sound x js db1 (length (l_tables a1))" "db_sequence db1 = db_sequence db" "log_live db1"
    "unat (db_next_file_number db1) \<le> unat (db_next_file_number db) + length (l_imm a) + 2"
    using DB_flush_rep[OF sm i(1-3) fits_flush[OF i(4) ne] i(5)] by blast
  note sh = lsm_flush_shape[OF ne]
  have "lsm_size a1 \<le> lsm_size a" "l_mem a1 = []" "l_imm a1 = []" "length (l_tables a1) = length (l_tables a)"
    using maybe_compact_size[OF f(2)] sh i(3) by auto
  then have "simulated x js sm cs db1 a1" using inv f(3-7) by (simp add: simulated_def lsm_fits_def)
  then show ?thesis using f(1,2) by blast
qed

interpretation sim: forward_simulation "DB_exec x js sm" lsm_exec "\<lambda>cs db a. skip_map sm \<and> simulated x js sm cs db a" for x js sm
proof
  fix c cs db a
  assume inv: "skip_map sm \<and> simulated x js sm (c # cs) db a"
  show "\<exists>r db1 a1. DB_exec x js sm c db = (r, db1) \<and> lsm_exec a c r a1 \<and> skip_map sm \<and> simulated x js sm cs db1 a1"
  proof (cases c)
    case (Call d)
    then obtain db1 a1 where "DB_call x sm d db = (Ok (), db1)" "lsm_written (call_ops d) a a1" "simulated x js sm cs db1 a1"
      using inv simulate_call by blast
    then show ?thesis using inv Call lsm_exec.call[of d a a1] by auto
  next
    case (Read key)
    then obtain db1 where "DB_get x sm key db = (Ok (lsm_get a key), db1)" "simulated x js sm cs db1 a"
      using inv simulate_read by blast
    then show ?thesis using inv Read lsm_exec.read[of a key] by auto
  next
    case Flush_all
    then obtain db1 a1 where "DB_flush x js sm db = (Ok (), db1)" "lsm_maybe_compact (lsm_flush a) a1" "simulated x js sm cs db1 a1"
      using inv simulate_flush by blast
    then show ?thesis using inv Flush_all lsm_exec.flush[of a a1] by auto
  qed
qed

text \<open>A new database, with data that fits.\<close>

lemma opened_simulated:
  assumes sm: "skip_map sm" and cap: "block_cache_size opts < 2 ^ 63" and two: "2 \<le> max_levels opts"
    and fs: "fs_sound fs" and env: "\<forall>e. \<exists>t. js_to_string js e = Inr t" "compression opts = Snappy \<longrightarrow> snappy_law x"
    and data: "ops_size (commands_ops cs) + 8 < 2 ^ 32" "[] \<notin> op_key ` set (commands_ops cs)" "length cs < 2 ^ 62"
  shows "simulated x js sm cs (opened_db sm path opts [] [] fs) (mem_store (max_levels opts) [])"
proof -
  let ?db = "opened_db sm path opts [] [] fs"
  have "db_rep x sm ?db (mem_store (max_levels opts) [])" "db_sequence ?db = 0"
    using opened_db_rep[OF sm _ _ cap, of "[]"] by simp_all
  moreover have "db_sound x js ?db (max_levels opts)" using fs by (intro opened_db_sound env) (simp_all add: fs_sound_def)
  moreover have "log_live ?db" using fs by (simp add: opened_db_def Let_def fault_free_def BufWriter_new_def fs_sound_def)
  moreover have "db_next_file_number ?db = 2" by (simp add: opened_db_def Let_def)
  moreover have "16 * length (commands_ops cs) \<le> ops_size (commands_ops cs)"
    using length_le_kv_size[of "map op_kv (commands_ops cs)"] by (simp add: ops_size_def)
  ultimately show ?thesis
    using data two by (auto simp: simulated_def lsm_fits_def lsm_size_def sum_list_replicate)
qed

text \<open>
  C2. The whole sequential behaviour: for every sequence of write calls, reads and flushes on a new database
  without I/O failures, every command returns successfully, with the answer that the layered store gives,
  and the database represents that store at the end. The commands must not use the empty key, and
  their data must fit the 32-bit offsets of the table format. Compaction needs a second level.
\<close>

theorem DB_run_refines:
  assumes "skip_map sm" and "Options_validate opts = Ok ()" and "\<not> error_if_exists opts" and "block_cache_size opts < 2 ^ 63"
    and "2 \<le> max_levels opts" and "\<forall>e. \<exists>t. js_to_string js e = Inr t" and "compression opts = Snappy \<longrightarrow> snappy_law x"
    and "fs_sound fs" and "fs_dir fs" and "fs_files fs = []" and "fst (DB_open x js sm path opts fs) = Ok db"
    and "ops_size (commands_ops cs) + 8 < 2 ^ 32" and "[] \<notin> op_key ` set (commands_ops cs)" and "length cs < 2 ^ 62"
  shows "\<exists>a'. lsm_run (mem_store (max_levels opts) []) cs (fst (DB_run x js sm cs db)) a' \<and> db_rep x sm (snd (DB_run x js sm cs db)) a'"
proof -
  have "db = opened_db sm path opts [] [] fs"
    using DB_open_empty[OF assms(2,3,9) _ assms(10), of x js sm path] assms(8,11) by (simp add: fs_sound_def)
  then have "simulated x js sm cs db (mem_store (max_levels opts) [])"
    using opened_simulated[OF assms(1,4,5,8,6,7,12-14)] by simp
  then obtain a' where "lsm_run (mem_store (max_levels opts) []) cs (fst (DB_run x js sm cs db)) a'"
    "simulated x js sm [] (snd (DB_run x js sm cs db)) a'" using sim.run_simulates assms(1) by blast
  then show ?thesis unfolding simulated_def by blast
qed

theorem DB_run_refines_witness:
  "let cs = [Call (Put_call [1] [2]), Flush_all, Call (Put_call [1] [3]), Read [1], Flush_all, Read [1]] in
   \<exists>a'. lsm_run (mem_store 4 []) cs (fst (DB_run sample_ext const_json sorted_list_map cs (sample_db sample_opts))) a'"
proof -
  let ?cs = "[Call (Put_call [1] [2]), Flush_all, Call (Put_call [1] [3]), Read [1], Flush_all, Read [1]]"
  have open_ok: "fst (DB_open sample_ext const_json sorted_list_map ''db'' sample_opts empty_fs) = Ok (sample_db sample_opts)"
    by (rule DB_open_empty) (simp_all add: empty_fs_def)
  have "\<exists>a'. lsm_run (mem_store (max_levels sample_opts) []) ?cs (fst (DB_run sample_ext const_json sorted_list_map ?cs (sample_db sample_opts))) a' \<and>
      db_rep sample_ext sorted_list_map (snd (DB_run sample_ext const_json sorted_list_map ?cs (sample_db sample_opts))) a'"
    by (rule DB_run_refines[OF sl.skip_map_axioms sample_opts_ok(1-3) _ _ _ _ _ _ open_ok])
      (simp_all add: empty_fs_def fs_sound_def const_json_def ops_size_def)
  then show ?thesis by auto
qed

end
