(* ===== verification/Spec2Isabelle.thy ===== *)
theory Spec2Isabelle
  imports DB_Races DB_Simulation
begin

text \<open>
  A verification of AiDb, an LSM-tree key-value store in Rust (\<^verbatim>\<open>src/src\<close>).

  \<^bold>\<open>The program.\<close> A database (\<^verbatim>\<open>lib.rs\<close>) logs every operation to a write-ahead log (\<^verbatim>\<open>wal/\<close>) and
  applies it to a memtable (\<^verbatim>\<open>memtable/\<close>), a map from internal keys (user key, sequence number, type)
  to values. A full memtable is frozen; \<^verbatim>\<open>flush\<close> writes the frozen memtables to sorted tables
  (\<^verbatim>\<open>sstable/\<close>) of level 0, replaces the log and may merge tables of one level into one of the next
  (\<^verbatim>\<open>compaction/\<close>), which the manifest records. Tables are sequences of prefix-compressed blocks with
  an index, a Bloom filter (\<^verbatim>\<open>filter/\<close>) and a footer; blocks are read through a shared LRU cache
  (\<^verbatim>\<open>cache/\<close>). Snapshots and iterators (\<^verbatim>\<open>snapshot.rs\<close>, \<^verbatim>\<open>iterator.rs\<close>) read at a sequence number.

  \<^bold>\<open>The theories\<close>, each on the files named, in the order of their imports:
    \<^item> \<open>Aidb_Prelude\<close>, \<open>Errors\<close>: bytes, little-endian codecs, decimal file numbers; results as
      \<open>Ok\<close>, \<open>Err\<close> or \<open>Panic\<close> and the error type of \<^verbatim>\<open>error.rs\<close>.
    \<^item> \<open>Buf_Writer\<close>, \<open>File_System\<close>: the standard library as the source uses it: files with failing
      writes, \<^verbatim>\<open>BufWriter\<close>, a directory with failing calls.
    \<^item> \<open>Config\<close> (\<^verbatim>\<open>config.rs\<close>), \<open>Write_Batch\<close> (\<^verbatim>\<open>write_batch.rs\<close>).
    \<^item> \<open>Internal_Key\<close>, \<open>MemTable\<close> (\<^verbatim>\<open>memtable/\<close>): key order and codec; reading at a sequence number
      returns what the operations up to it leave. The skip list is the locale \<open>skip_map\<close>.
    \<^item> \<open>WAL_Record\<close>, \<open>WAL_Log\<close>, \<open>WAL_Recovery\<close> (\<^verbatim>\<open>wal/\<close>): records, writer and reader; every prefix of
      a log recovers a prefix of its entries or the end-of-file error (locale \<open>entry_log\<close>).
    \<^item> \<open>Bloom\<close> (\<^verbatim>\<open>filter/bloom.rs\<close>, locale \<open>membership_filter\<close>): no false negatives, the exact answers.
    \<^item> \<open>LRU_Cache\<close> (\<^verbatim>\<open>cache/lru.rs\<close>, locale \<open>lookaside_cache\<close>): the cache implements the
      least-recently-used policy within its capacity.
    \<^item> \<open>SST_Block\<close>, \<open>SST_Footer\<close>, \<open>SST_Index\<close>, \<open>SST_Builder\<close>, \<open>SST_Reader\<close> (\<^verbatim>\<open>sstable/\<close>): the operations
      with their local lemmas; \<open>SST_Table\<close>: what the builder writes, the reader finds, with and
      without the cache, by lookup and by iteration.
    \<^item> \<open>Merge\<close>, \<open>Compaction_Job\<close>, \<open>Version\<close> (\<^verbatim>\<open>compaction/\<close>): the merge keeps the newest version of every
      key; the picker; the manifest is recovered to the same levels.
    \<^item> \<open>DB\<close> (\<^verbatim>\<open>lib.rs\<close>, \<^verbatim>\<open>snapshot.rs\<close>): all operations of the database on the file system.
      \<open>LSM\<close> is the abstract store: operations of the memtables and entries of the tables, read
      from the newest layer on. \<open>DB_Refine\<close>, \<open>DB_Flush\<close>, \<open>DB_Compact\<close>, \<open>DB_Calls\<close> show that the database
      implements it: \<open>db_rep\<close> relates the two, reads agree, writes append, flushing and
      compaction move entries down. \<open>DB_Open\<close> follows the log from the writes of one database to the
      memtable of the next. \<open>DB_Directory\<close> describes a data directory (one log, the tables with their
      contents) and what opening it gives; \<open>DB_Reopen\<close> shows that write calls, flushes and rotations
      keep such a directory. \<open>DB_Iter\<close> is \<^verbatim>\<open>iterator.rs\<close>.
    \<^item> \<open>DB_Properties\<close>: the properties of the whole: crash recovery, reopening, refinement by write
      calls and flushes, the database as a map, reading one's own writes, snapshot isolation, scans,
      well-formedness.
    \<^item> \<open>DB_Simulation\<close> (locale \<open>forward_simulation\<close>): every sequence of write calls, reads and flushes
      on a new database returns the answers of \<open>LSM\<close>. \<open>DB_Sessions\<close>: closing and opening, the order of
      the tables after it, and the first flush of the next session.
    \<^item> \<open>DB_Threads\<close>: the methods of \<^verbatim>\<open>lib.rs\<close> as steps of several threads, one step per region that a
      lock or an atomic counter protects (\<open>db_step\<close>), with the locks of the memtable; a schedule is the
      list of the threads in the order of their steps. Without interleaving the steps amount to the
      operations of \<open>DB\<close>. \<open>DB_Linear\<close> has the invariants of writes and reads under every schedule
      (locale \<open>thread_invariant\<close>), \<open>DB_Order\<close> derives linearizability, \<open>DB_Races\<close> shows by schedules what
      flushes, snapshots and recovery do not keep under concurrency.

  \<^bold>\<open>Conventions.\<close> Machine integers that can overflow are words and wrap, as in a release build; sizes
  and positions bounded by memory are naturals. A failing call is a value: \<open>Err\<close> with the source's
  error, \<open>Panic\<close> for a panic. State is passed explicitly, also on the error paths, so what a failed
  operation leaves behind is visible. Loops are recursive functions with termination proofs, two are
  \<open>partial_function\<close>s on options: the merge loop of a compaction, which returns on well-formed
  tables (\<open>CompactionJob_newest_wins\<close>; a compaction that does not return counts as \<open>Panic\<close> in \<open>DB\<close>),
  and the eviction loop of the cache, which returns on caches that satisfy the invariant
  (\<open>BlockCache_insert_lru\<close>). There is no fuel.

  \<^bold>\<open>Parameters.\<close> Third-party code is an argument: \<open>ext\<close> holds the checksum, the Snappy codec and the
  hash functions; decompression inverting compression (\<open>snappy_law\<close>) is assumed where compressed
  tables are read back. \<open>json\<close> is the serializer of the manifest; \<open>SkipMap\<close> the concurrent skip list,
  with the laws of \<open>skip_map\<close>; a sorted list shows that the laws can hold. Failures of the file
  system are schedules chosen by the statement: properties about crashes and errors leave them
  open, those about flushing and compaction assume \<open>fs_sound\<close>, no pending failure.

  \<^bold>\<open>Bounds in the statements.\<close> Sequence and file numbers must not be exhausted (\<open>2 ^ 64\<close>), a table holds
  less than 4 GiB, keys in the log are shorter than 4 GiB and the cache capacity is below
  \<open>2 ^ 63\<close>: beyond these the 32-bit length fields and counters of the source wrap.

  \<^bold>\<open>Concurrency.\<close> In \<open>DB\<close> every method is one step; \<open>DB_Threads\<close> interleaves the methods at their locks.
  A lookup in a memtable and an insertion into it are single steps, as the skip list is linearizable,
  and atomic counters are read and advanced in one step, as the source uses sequentially consistent
  ordering. The record of the calls in \<open>c_runs\<close> is only used by statements. Linearizability is shown for writes
  and reads; flushes are excluded there, because the theorems of \<open>DB_Races\<close> show that it fails with them.

  \<^bold>\<open>Not modelled.\<close> A reader keeps the bytes its file had when it was opened: a file that is truncated
  under an open reader is not seen by it. The estimate of the false-positive rate of a filter, which is
  floating-point and only reported, the methods that only return a field, log messages, the \<^verbatim>\<open>Debug\<close> instances, tests, examples and benchmarks
  are left out.
\<close>

end
